(* ===== verification/GoPrelude.thy ===== *)
theory GoPrelude
  imports Main "HOL-Library.Multiset"
begin

text \<open>
  What the components share: the result type of Go code that can panic, reads and writes of
  slices with Go's bounds checks, and lemmas on lists updated by index.

  A Go statement that panics (nil dereference, index or slice bounds, a negative length given
  to \<open>make\<close>, an integer division by zero) is the left summand of the result type
  \<open>'a go\<close>; a normal return is the right one. Values of Go's type \<open>error\<close> are not
  panics: they are modelled where they are returned.
\<close>

named_theorems go_defs \<open>definitions of the reads and writes that can panic\<close>

section \<open>Panics\<close>

datatype go_panic =
    NilDeref
  | IndexOutOfRange
  | SliceOutOfRange
  | MakeNegative
  | DivideByZero
  | NotImplemented

type_synonym 'a go = "go_panic + 'a"

abbreviation Ok :: "'a \<Rightarrow> 'a go" where
  "Ok \<equiv> Inr"

abbreviation Panic :: "go_panic \<Rightarrow> 'a go" where
  "Panic \<equiv> Inl"

fun go_bind :: "'a go \<Rightarrow> ('a \<Rightarrow> 'b go) \<Rightarrow> 'b go" where
  "go_bind (Inl e) f = Inl e"
| "go_bind (Inr x) f = f x"

lemma go_bind_Ok_iff: "go_bind m f = Inr y \<longleftrightarrow> (\<exists>x. m = Inr x \<and> f x = Inr y)"
  by (cases m) auto

lemma go_bind_cong [fundef_cong]:
  assumes "m = m'" and "\<And>x. m' = Inr x \<Longrightarrow> f x = g x"
  shows "go_bind m f = go_bind m' g"
  using assms by (cases m') auto

section \<open>Slices\<close>

text \<open>
  \<open>xs[i]\<close>, \<open>xs[i] = v\<close>, \<open>xs[lo:hi]\<close> and \<open>make([]T, n)\<close>. Go's index expressions are
  signed; an index outside the slice panics. The slice expression is bounded by the capacity,
  so its argument is the whole backing array from the slice's first element on.
\<close>

definition go_index :: "'a list \<Rightarrow> int \<Rightarrow> 'a go" where
  [go_defs]: "go_index xs i =
     (if 0 \<le> i \<and> i < int (length xs) then Ok (xs ! nat i) else Panic IndexOutOfRange)"

definition go_store :: "'a list \<Rightarrow> int \<Rightarrow> 'a \<Rightarrow> 'a list go" where
  [go_defs]: "go_store xs i v =
     (if 0 \<le> i \<and> i < int (length xs) then Ok (xs[nat i := v]) else Panic IndexOutOfRange)"

definition go_slice :: "'a list \<Rightarrow> int \<Rightarrow> int \<Rightarrow> 'a list go" where
  [go_defs]: "go_slice xs lo hi =
     (if 0 \<le> lo \<and> lo \<le> hi \<and> hi \<le> int (length xs)
      then Ok (take (nat (hi - lo)) (drop (nat lo) xs)) else Panic SliceOutOfRange)"

definition go_make :: "'a \<Rightarrow> int \<Rightarrow> 'a list go" where
  [go_defs]: "go_make z n = (if 0 \<le> n then Ok (replicate (nat n) z) else Panic MakeNegative)"

text \<open>Go's \<open>/\<close> and \<open>%\<close> truncate towards zero.\<close>

definition go_div :: "int \<Rightarrow> int \<Rightarrow> int" where
  "go_div a b = sgn a * sgn b * (\<bar>a\<bar> div \<bar>b\<bar>)"

definition go_mod :: "int \<Rightarrow> int \<Rightarrow> int" where
  "go_mod a b = a - go_div a b * b"

lemma go_div_nonneg: "0 \<le> a \<Longrightarrow> 0 < b \<Longrightarrow> go_div a b = a div b"
  by (cases "a = 0") (auto simp: go_div_def)

lemma go_mod_nonneg: "0 \<le> a \<Longrightarrow> 0 < b \<Longrightarrow> go_mod a b = a mod b"
  by (simp add: go_mod_def go_div_nonneg minus_div_mult_eq_mod)

lemma go_index_Ok [simp]: "i < length xs \<Longrightarrow> go_index xs (int i) = Ok (xs ! i)"
  by (simp add: go_index_def)

lemma go_slice_Ok:
  "lo \<le> hi \<Longrightarrow> hi \<le> length xs \<Longrightarrow>
   go_slice xs (int lo) (int hi) = Ok (take (hi - lo) (drop lo xs))"
  by (simp add: go_slice_def flip: of_nat_diff)

text \<open>A remainder that panics for a zero divisor, and \<open>copy(dst, src)\<close> with the number of elements copied.\<close>

definition go_rem :: "int \<Rightarrow> int \<Rightarrow> int go" where
  "go_rem a b = (if b = 0 then Panic DivideByZero else Ok (go_mod a b))"

definition go_copy :: "'a list \<Rightarrow> 'a list \<Rightarrow> 'a list \<times> nat" where
  "go_copy dst src = (let n = min (length dst) (length src) in (take n src @ drop n dst, n))"

lemma go_rem_nonneg: "0 \<le> a \<Longrightarrow> 0 < b \<Longrightarrow> go_rem a b = Ok (a mod b)"
  by (simp add: go_rem_def go_mod_nonneg)

section \<open>Swapping two elements of a list\<close>

definition swap_at :: "'a list \<Rightarrow> nat \<Rightarrow> nat \<Rightarrow> 'a list" where
  "swap_at xs i j = xs[i := xs ! j, j := xs ! i]"

lemma length_swap_at [simp]: "length (swap_at xs i j) = length xs"
  by (simp add: swap_at_def)

lemma mset_swap_at [simp]:
  "i < length xs \<Longrightarrow> j < length xs \<Longrightarrow> mset (swap_at xs i j) = mset xs"
  unfolding swap_at_def by (rule mset_swap) simp_all

lemma nth_swap_at:
  "i < length xs \<Longrightarrow> j < length xs \<Longrightarrow> k < length xs \<Longrightarrow>
   swap_at xs i j ! k = (if k = i then xs ! j else if k = j then xs ! i else xs ! k)"
  by (auto simp: swap_at_def nth_list_update)

lemma take_swap_at:
  "i < n \<Longrightarrow> j < n \<Longrightarrow> n \<le> length xs \<Longrightarrow> take n (swap_at xs i j) = swap_at (take n xs) i j"
  by (simp add: swap_at_def take_update_swap)

lemma drop_swap_at:
  "i < n \<Longrightarrow> j < n \<Longrightarrow> drop n (swap_at xs i j) = drop n xs"
  by (simp add: swap_at_def)

lemma mset_replace_root:
  assumes "xs \<noteq> []"
  shows "add_mset (xs ! 0) (mset ((take (length xs - 1) xs)[0 := xs ! (length xs - 1)])) = mset xs"
proof -
  obtain x zs where xs: "xs = x # zs" using assms by (cases xs) auto
  show ?thesis
  proof (cases zs rule: rev_cases)
    case (snoc ys z)
    then show ?thesis by (simp add: xs)
  qed (simp add: xs)
qed

lemma mset_take_root:
  "xs \<noteq> [] \<Longrightarrow>
   mset ((take (length xs - Suc 0) xs)[0 := xs ! (length xs - Suc 0)]) = mset xs - {#xs ! 0#}"
  using mset_replace_root [of xs] by (metis One_nat_def add_mset_remove_trivial)

lemma distinct_concat_map:
  "distinct xs \<Longrightarrow> (\<And>x. x \<in> set xs \<Longrightarrow> distinct (f x)) \<Longrightarrow>
   (\<And>x y. x \<in> set xs \<Longrightarrow> y \<in> set xs \<Longrightarrow> x \<noteq> y \<Longrightarrow> set (f x) \<inter> set (f y) = {}) \<Longrightarrow>
   distinct (concat (map f xs))"
proof (induction xs)
  case (Cons x xs)
  then have "set (f x) \<inter> set (f y) = {}" if "y \<in> set xs" for y
    using that by (metis distinct.simps(2) list.set_intros)
  with Cons show ?case by (simp add: UN_extend_simps(4)) blast
qed simp

section \<open>Runs of operations and their refinement\<close>

text \<open>
  A component's operations are collected in one step function from a state and an operation to
  an output and the next state; \<open>run_ops\<close> performs a list of them. \<open>refines\<close> is the contract
  between a component and its abstract specification: a relation between their states that every
  step with an admissible operation keeps while both give the same output.
\<close>

fun run_ops :: "('s \<Rightarrow> 'op \<Rightarrow> 'out \<times> 's) \<Rightarrow> 's \<Rightarrow> 'op list \<Rightarrow> 'out list \<times> 's" where
  "run_ops step s [] = ([], s)"
| "run_ops step s (a # as) =
     (let (x, s') = step s a; (ys, s'') = run_ops step s' as in (x # ys, s''))"

locale refines =
  fixes cstep :: "'c \<Rightarrow> 'op \<Rightarrow> 'out \<times> 'c"
    and astep :: "'a \<Rightarrow> 'op \<Rightarrow> 'out \<times> 'a"
    and R :: "'c \<Rightarrow> 'a \<Rightarrow> bool"
    and ok :: "'op \<Rightarrow> bool"
  assumes step_output: "R c a \<Longrightarrow> ok p \<Longrightarrow> fst (cstep c p) = fst (astep a p)"
    and step_related: "R c a \<Longrightarrow> ok p \<Longrightarrow> R (snd (cstep c p)) (snd (astep a p))"
begin

lemma run_related:
  "R c a \<Longrightarrow> list_all ok ps \<Longrightarrow> fst (run_ops cstep c ps) = fst (run_ops astep a ps) \<and>
    R (snd (run_ops cstep c ps)) (snd (run_ops astep a ps))"
proof (induction ps arbitrary: c a)
  case (Cons p ps)
  with step_output [OF Cons.prems(1), of p] step_related [OF Cons.prems(1), of p] show ?case
    by (auto simp: Let_def split_beta)
qed simp

lemma run_outputs:
  "R c a \<Longrightarrow> list_all ok ps \<Longrightarrow> fst (run_ops cstep c ps) = fst (run_ops astep a ps)"
  using run_related by blast

lemma run_invariant:
  "R c a \<Longrightarrow> list_all ok ps \<Longrightarrow> R (snd (run_ops cstep c ps)) (snd (run_ops astep a ps))"
  using run_related by blast

end

lemma list_all_True [simp]: "list_all (\<lambda>x. True) xs"
  by (induction xs) auto

end
