(* ===== verification/HeapCore.thy ===== *)
theory HeapCore
  imports GoPrelude
begin

text \<open>
  The array heap that three parts of the program share: \<open>data-structures/heap.go\<close> writes
  it out twice, and \<open>container/heap\<close> of the standard library, which the task scheduler and
  the payment router use, is a third copy. Here are the comparator's contract (a strict weak
  order, the documented requirement on \<open>Less\<close>), the two sifts over any comparator, the heap
  condition on a segment of an array, and the lemmas that the sifts restore it. The copies of
  the code are defined in their own theories and proved equal to these sifts.
\<close>

named_theorems heap_defs \<open>definitions of the heap condition\<close>

section \<open>The comparator's contract\<close>

locale strict_weak =
  fixes lt :: "'a \<Rightarrow> 'a \<Rightarrow> bool"
  assumes asym: "lt x y \<Longrightarrow> \<not> lt y x"
    and neg_trans: "\<not> lt x y \<Longrightarrow> \<not> lt y z \<Longrightarrow> \<not> lt x z"
begin

lemma irrefl: "\<not> lt x x"
  using asym by blast

lemma trans: "lt x y \<Longrightarrow> lt y z \<Longrightarrow> lt x z"
  using asym neg_trans by blast

lemma lt_le_trans: "lt x y \<Longrightarrow> \<not> lt z y \<Longrightarrow> lt x z"
  using neg_trans by blast

end

section \<open>Positions\<close>

definition parent :: "nat \<Rightarrow> nat" where
  "parent i = (i - 1) div 2"

lemma parent_less: "0 < i \<Longrightarrow> parent i < i"
  by (simp add: parent_def)

lemma parent_less_trans: "j < n \<Longrightarrow> parent j < n"
  unfolding parent_def by linarith

lemma child_iff: "0 < j \<and> parent j = k \<longleftrightarrow> j = 2 * k + 1 \<or> j = 2 * k + 2"
  unfolding parent_def by presburger

lemma parent_children [simp]: "parent (Suc (2 * k)) = k" "parent (Suc (Suc (2 * k))) = k"
  by (simp_all add: parent_def)

section \<open>Sifts\<close>

definition sift_child :: "('a \<Rightarrow> 'a \<Rightarrow> bool) \<Rightarrow> nat \<Rightarrow> 'a list \<Rightarrow> nat \<Rightarrow> nat" where
  "sift_child lt n xs i =
     (let t = (if 2 * i + 1 < n \<and> lt (xs ! (2 * i + 1)) (xs ! i) then 2 * i + 1 else i)
      in if 2 * i + 2 < n \<and> lt (xs ! (2 * i + 2)) (xs ! t) then 2 * i + 2 else t)"

lemma sift_child_range: "sift_child lt n xs i = i \<or> i < sift_child lt n xs i \<and> sift_child lt n xs i < n"
  by (auto simp: sift_child_def Let_def)

lemma sift_child_parent: "sift_child lt n xs i \<noteq> i \<Longrightarrow> parent (sift_child lt n xs i) = i"
  by (auto simp: sift_child_def Let_def split: if_splits)

function sift_down :: "('a \<Rightarrow> 'a \<Rightarrow> bool) \<Rightarrow> nat \<Rightarrow> 'a list \<Rightarrow> nat \<Rightarrow> 'a list" where
  "sift_down lt n xs i =
     (let c = sift_child lt n xs i in if c = i then xs else sift_down lt n (swap_at xs i c) c)"
  by pat_completeness auto
termination
  using sift_child_range by (relation "measure (\<lambda>(lt, n, xs, i). n - i)") fastforce+

function sift_up :: "('a \<Rightarrow> 'a \<Rightarrow> bool) \<Rightarrow> 'a list \<Rightarrow> nat \<Rightarrow> 'a list" where
  "sift_up lt xs i =
     (if 0 < i \<and> lt (xs ! i) (xs ! parent i)
      then sift_up lt (swap_at xs i (parent i)) (parent i) else xs)"
  by pat_completeness auto
termination
  by (relation "measure (\<lambda>(lt, xs, i). i)") (auto simp: parent_less)

declare sift_down.simps [simp del] sift_up.simps [simp del]

text \<open>Induction over the runs of a sift with the comparator (and the bound) fixed.\<close>

lemma sift_down_induct [case_names step]:
  assumes "\<And>xs k. (sift_child lt n xs k \<noteq> k \<Longrightarrow>
      P (swap_at xs k (sift_child lt n xs k)) (sift_child lt n xs k)) \<Longrightarrow> P xs k"
  shows "P xs k"
  using assms by (induction lt n xs k rule: sift_down.induct) metis

lemma sift_up_induct [case_names step]:
  assumes "\<And>xs k. (0 < k \<and> lt (xs ! k) (xs ! parent k) \<Longrightarrow>
      P (swap_at xs k (parent k)) (parent k)) \<Longrightarrow> P xs k"
  shows "P xs k"
  using assms by (induction lt xs k rule: sift_up.induct) metis

lemma length_sift_down [simp]: "length (sift_down lt n xs i) = length xs"
  by (induction lt n xs i rule: sift_down.induct) (subst sift_down.simps, simp add: Let_def)

lemma length_sift_up [simp]: "length (sift_up lt xs i) = length xs"
  by (induction lt xs i rule: sift_up.induct) (subst sift_up.simps, simp)

lemma mset_sift_down [simp]: "n \<le> length xs \<Longrightarrow> mset (sift_down lt n xs i) = mset xs"
proof (induction lt n xs i rule: sift_down.induct)
  case (1 lt n xs i)
  then show ?case
    using sift_child_range [of lt n xs i]
    by (subst sift_down.simps) (auto simp: Let_def)
qed

lemma mset_sift_up [simp]: "i < length xs \<Longrightarrow> mset (sift_up lt xs i) = mset xs"
proof (induction lt xs i rule: sift_up.induct)
  case (1 lt xs i)
  then show ?case
    using parent_less [of i] by (subst sift_up.simps) auto
qed

text \<open>A sift bounded by \<open>n\<close> neither reads nor writes from \<open>n\<close> on.\<close>

lemma drop_sift_down: "n \<le> length xs \<Longrightarrow> drop n (sift_down lt n xs i) = drop n xs"
proof (induction lt n xs i rule: sift_down.induct)
  case (1 lt n xs i)
  then show ?case
    using sift_child_range [of lt n xs i]
    by (subst sift_down.simps) (auto simp: Let_def drop_swap_at)
qed

text \<open>A function that satisfies the sift's equation is the sift.\<close>

lemma sift_down_unique:
  assumes step: "\<And>xs k. length xs = n \<Longrightarrow> f xs k =
      (let c = sift_child lt n xs k in if c = k then xs else f (swap_at xs k c) c)"
  shows "length xs = n \<Longrightarrow> f xs k = sift_down lt n xs k"
proof (induction xs k rule: sift_down_induct [where lt = lt and n = n])
  case (step xs k)
  then show ?case
    by (subst assms, simp, subst sift_down.simps) (simp add: Let_def)
qed

section \<open>The heap condition\<close>

text \<open>
  \<open>heap_from lt lo n xs\<close>: in the first \<open>n\<close> elements, no child of a position from \<open>lo\<close> on
  is before its parent. \<open>hole_down\<close> and \<open>hole_up\<close> are the loop invariants of the sifts: the
  condition may fail at the position \<open>k\<close> being sifted.
\<close>

definition heap_from :: "('a \<Rightarrow> 'a \<Rightarrow> bool) \<Rightarrow> nat \<Rightarrow> nat \<Rightarrow> 'a list \<Rightarrow> bool" where
  [heap_defs]: "heap_from lt lo n xs \<longleftrightarrow>
     (\<forall>j<n. 0 < j \<longrightarrow> lo \<le> parent j \<longrightarrow> \<not> lt (xs ! j) (xs ! parent j))"

abbreviation is_heap :: "('a \<Rightarrow> 'a \<Rightarrow> bool) \<Rightarrow> 'a list \<Rightarrow> bool" where
  "is_heap lt xs \<equiv> heap_from lt 0 (length xs) xs"

definition hole_down :: "('a \<Rightarrow> 'a \<Rightarrow> bool) \<Rightarrow> nat \<Rightarrow> nat \<Rightarrow> nat \<Rightarrow> 'a list \<Rightarrow> bool" where
  [heap_defs]: "hole_down lt lo n k xs \<longleftrightarrow>
     (\<forall>j<n. 0 < j \<longrightarrow> lo \<le> parent j \<longrightarrow> parent j \<noteq> k \<longrightarrow> \<not> lt (xs ! j) (xs ! parent j)) \<and>
     (0 < k \<longrightarrow> lo \<le> parent k \<longrightarrow>
       (\<forall>j<n. 0 < j \<longrightarrow> parent j = k \<longrightarrow> \<not> lt (xs ! j) (xs ! parent k)))"

definition hole_up :: "('a \<Rightarrow> 'a \<Rightarrow> bool) \<Rightarrow> nat \<Rightarrow> nat \<Rightarrow> 'a list \<Rightarrow> bool" where
  [heap_defs]: "hole_up lt n k xs \<longleftrightarrow>
     (\<forall>j<n. 0 < j \<longrightarrow> j \<noteq> k \<longrightarrow> \<not> lt (xs ! j) (xs ! parent j)) \<and>
     (0 < k \<longrightarrow> (\<forall>j<n. 0 < j \<longrightarrow> parent j = k \<longrightarrow> \<not> lt (xs ! j) (xs ! parent k)))"

lemma heap_from_ge: "n \<le> 2 * lo + 1 \<Longrightarrow> heap_from lt lo n xs"
  by (auto simp: heap_from_def parent_def)

lemma hole_down_start: "heap_from lt (Suc k) n xs \<Longrightarrow> hole_down lt k n k xs"
  unfolding heap_defs
proof (intro conjI allI impI)
  fix j assume "\<forall>j<n. 0 < j \<longrightarrow> Suc k \<le> parent j \<longrightarrow> \<not> lt (xs ! j) (xs ! parent j)"
    and "j < n" "0 < j" "k \<le> parent j" "parent j \<noteq> k"
  then show "\<not> lt (xs ! j) (xs ! parent j)" by auto
next
  assume "0 < k" "k \<le> parent k"
  with parent_less [of k] show "\<not> lt (xs ! j) (xs ! parent k)" for j by simp
qed

lemma heap_from_take:
  "heap_from lt lo n xs \<longleftrightarrow> heap_from lt lo n (take n xs)" if "n \<le> length xs"
proof -
  have "take n xs ! j = xs ! j" "take n xs ! parent j = xs ! parent j" if "j < n" "0 < j" for j
    using that parent_less [of j] by auto
  then show ?thesis by (auto simp: heap_from_def)
qed

context strict_weak
begin

lemma sift_child_least:
  assumes "j < n" "0 < j" "parent j = i"
  shows "\<not> lt (xs ! j) (xs ! sift_child lt n xs i)"
proof -
  let ?l = "2 * i + 1" and ?r = "2 * i + 2"
  from assms child_iff have j: "j = ?l \<or> j = ?r" by blast
  show ?thesis
  proof (cases "?l < n \<and> lt (xs ! ?l) (xs ! i)")
    case True
    then have c: "sift_child lt n xs i = (if ?r < n \<and> lt (xs ! ?r) (xs ! ?l) then ?r else ?l)"
      by (simp add: sift_child_def)
    from j \<open>j < n\<close> show ?thesis by (auto simp: c irrefl asym)
  next
    case False
    then have c: "sift_child lt n xs i = (if ?r < n \<and> lt (xs ! ?r) (xs ! i) then ?r else i)"
      by (auto simp: sift_child_def Let_def)
    from False trans have "lt (xs ! ?r) (xs ! i) \<Longrightarrow> ?l < n \<Longrightarrow> \<not> lt (xs ! ?l) (xs ! ?r)"
      by blast
    with j \<open>j < n\<close> False show ?thesis by (auto simp: c irrefl)
  qed
qed

lemma sift_child_lt:
  assumes "sift_child lt n xs i \<noteq> i"
  shows "lt (xs ! sift_child lt n xs i) (xs ! i)"
proof (cases "2 * i + 1 < n \<and> lt (xs ! (2 * i + 1)) (xs ! i)")
  case True
  with trans [of "xs ! (2 * i + 2)" "xs ! (2 * i + 1)" "xs ! i"] show ?thesis
    by (simp add: sift_child_def)
next
  case False
  with assms show ?thesis by (auto simp: sift_child_def Let_def split: if_splits)
qed

lemma hole_down_step:
  assumes hole: "hole_down lt lo n k xs" and n: "n \<le> length xs"
    and c: "sift_child lt n xs k = c" "c \<noteq> k" and lo: "lo \<le> k"
  shows "hole_down lt lo n c (swap_at xs k c)"
proof -
  have kc: "k < c" "c < n" "parent c = k"
    using c sift_child_range [of lt n xs k] sift_child_parent [of lt n xs k] by auto
  have len: "k < length xs" "c < length xs" using kc n by auto
  note nth = nth_swap_at [OF len]
  have up: "lt (xs ! c) (xs ! k)" using c sift_child_lt by auto
  show ?thesis
    unfolding hole_down_def
  proof (intro conjI allI impI)
    fix j assume j: "j < n" "0 < j" "lo \<le> parent j" "parent j \<noteq> c"
    have pj: "parent j < j" using j parent_less by simp
    then have lenj: "j < length xs" "parent j < length xs" using j n by auto
    consider "j = c" | "j = k" | "parent j = k" "j \<noteq> c" | "parent j \<noteq> k" "j \<noteq> c" "j \<noteq> k"
      by blast
    then show "\<not> lt (swap_at xs k c ! j) (swap_at xs k c ! parent j)"
    proof cases
      case 1 with kc lenj up asym show ?thesis by (simp add: nth)
    next
      case 2 with j kc lenj pj hole show ?thesis by (simp add: nth hole_down_def)
    next
      case 3 with j kc lenj pj sift_child_least [of j n k xs] c show ?thesis by (simp add: nth)
    next
      case 4 with j kc lenj hole show ?thesis by (simp add: nth hole_down_def)
    qed
  next
    fix j assume j: "j < n" "0 < j" "parent j = c"
    then have "c < j" using parent_less by blast
    with j kc n lo hole have "\<not> lt (xs ! j) (xs ! c)"
      by (auto simp: hole_down_def)
    with \<open>c < j\<close> j kc n show "\<not> lt (swap_at xs k c ! j) (swap_at xs k c ! parent c)"
      by (simp add: nth)
  qed
qed

lemma hole_down_stop:
  assumes "hole_down lt lo n k xs" and "sift_child lt n xs k = k"
  shows "heap_from lt lo n xs"
  using assms sift_child_least [of _ n k xs] unfolding hole_down_def heap_from_def by metis

lemma heap_sift_down:
  "hole_down lt lo n k xs \<Longrightarrow> n \<le> length xs \<Longrightarrow> lo \<le> k \<Longrightarrow> heap_from lt lo n (sift_down lt n xs k)"
proof (induction xs k rule: sift_down_induct [where lt = lt and n = n])
  case (step xs k)
  let ?c = "sift_child lt n xs k"
  show ?case
  proof (cases "?c = k")
    case True
    with step.prems hole_down_stop show ?thesis by (subst sift_down.simps) simp
  next
    case False
    with step.prems have "hole_down lt lo n ?c (swap_at xs k ?c)"
      by (intro hole_down_step) auto
    with False step sift_child_range [of lt n xs k] show ?thesis
      by (subst sift_down.simps) (simp add: Let_def)
  qed
qed

lemma hole_up_step:
  assumes hole: "hole_up lt n k xs" and k: "0 < k" "k < n" "n \<le> length xs"
    and up: "lt (xs ! k) (xs ! parent k)"
  shows "hole_up lt n (parent k) (swap_at xs k (parent k))"
proof -
  let ?p = "parent k"
  have pk: "?p < k" using k parent_less by simp
  have len: "k < length xs" "?p < length xs" using pk k by auto
  note nth = nth_swap_at [OF len]
  show ?thesis
    unfolding hole_up_def
  proof (intro conjI allI impI)
    fix j assume j: "j < n" "0 < j" "j \<noteq> ?p"
    have pj: "parent j < j" using j parent_less by simp
    then have lenj: "j < length xs" "parent j < length xs" using j k by auto
    consider "j = k" | "parent j = k" | "parent j = ?p" "j \<noteq> k" | "parent j \<noteq> k" "parent j \<noteq> ?p" "j \<noteq> k"
      by blast
    then show "\<not> lt (swap_at xs k ?p ! j) (swap_at xs k ?p ! parent j)"
    proof cases
      case 1 with lenj up asym pk show ?thesis by (simp add: nth)
    next
      case 2 with j lenj pj pk k hole show ?thesis by (simp add: nth hole_up_def)
    next
      case 3
      with j hole have "\<not> lt (xs ! j) (xs ! ?p)" by (auto simp: hole_up_def)
      with up lt_le_trans asym have "\<not> lt (xs ! j) (xs ! k)" by (meson trans)
      with 3 j lenj pj pk show ?thesis by (simp add: nth)
    next
      case 4 with j lenj hole show ?thesis by (simp add: nth hole_up_def)
    qed
  next
    fix j assume j: "j < n" "0 < j" "parent j = ?p" and p: "0 < ?p"
    have pp: "parent ?p < ?p" using p parent_less by simp
    have gp: "\<not> lt (xs ! ?p) (xs ! parent ?p)"
      using hole p pk k by (auto simp: hole_up_def)
    have "\<not> lt (xs ! j) (xs ! parent ?p)" if "j \<noteq> k"
      using that hole j gp neg_trans by (metis hole_up_def)
    moreover have "j < length xs" "j \<noteq> ?p" using j k parent_less [of j] by auto
    ultimately show "\<not> lt (swap_at xs k ?p ! j) (swap_at xs k ?p ! parent ?p)"
      using pp pk len gp by (simp add: nth)
  qed
qed

lemma heap_sift_up:
  "hole_up lt n k xs \<Longrightarrow> k < n \<Longrightarrow> n \<le> length xs \<Longrightarrow> heap_from lt 0 n (sift_up lt xs k)"
proof (induction xs k rule: sift_up_induct [where lt = lt])
  case (step xs k)
  show ?case
  proof (cases "0 < k \<and> lt (xs ! k) (xs ! parent k)")
    case False
    with step.prems show ?thesis
      by (subst sift_up.simps) (auto simp: hole_up_def heap_from_def)
  next
    case True
    with step.prems have "hole_up lt n (parent k) (swap_at xs k (parent k))"
      by (intro hole_up_step) auto
    with True step parent_less [of k] show ?thesis
      by (subst sift_up.simps) simp
  qed
qed

text \<open>Appending and bubbling up; taking the root away; sifting from the last parent down.\<close>

lemma heap_push: "is_heap lt xs \<Longrightarrow> is_heap lt (sift_up lt (xs @ [v]) (length xs))"
proof -
  assume heap: "is_heap lt xs"
  have "\<not> lt (xs ! j) (xs ! parent j)" if "j < length xs" "0 < j" for j
    using heap that by (auto simp: heap_from_def)
  then have "hole_up lt (Suc (length xs)) (length xs) (xs @ [v])"
    by (auto simp: hole_up_def nth_append less_Suc_eq irrefl dest: parent_less parent_less_trans)
  then show ?thesis using heap_sift_up by fastforce
qed

lemma heap_hole_root: "heap_from lt 0 n xs \<Longrightarrow> m \<le> n \<Longrightarrow> n \<le> length xs \<Longrightarrow> hole_down lt 0 m 0 (xs[0 := v])"
  using parent_less by (auto simp: heap_from_def hole_down_def)

lemma heap_replace_root:
  "heap_from lt 0 n xs \<Longrightarrow> m \<le> n \<Longrightarrow> n \<le> length xs \<Longrightarrow> heap_from lt 0 m (sift_down lt m (xs[0 := v]) 0)"
  by (rule heap_sift_down) (auto intro: heap_hole_root)

lemma heap_pop:
  assumes heap: "is_heap lt xs"
  shows "heap_from lt 0 (length xs - Suc 0)
    (sift_down lt (length xs - Suc 0) ((take (length xs - Suc 0) xs)[0 := v]) 0)"
proof -
  let ?n = "length xs - Suc 0"
  from heap have "heap_from lt 0 ?n xs" by (simp add: heap_from_def)
  then have "heap_from lt 0 ?n (take ?n xs)" by (subst heap_from_take [symmetric]) simp_all
  then show ?thesis by (intro heap_replace_root) auto
qed

lemma heapify_step:
  "heap_from lt (Suc k) n xs \<Longrightarrow> n \<le> length xs \<Longrightarrow> heap_from lt k n (sift_down lt n xs k)"
  by (rule heap_sift_down) (auto intro: hole_down_start)

text \<open>The root of a heap is before every other element.\<close>

lemma heap_root_least:
  "heap_from lt 0 n xs \<Longrightarrow> i < n \<Longrightarrow> \<not> lt (xs ! i) (xs ! 0)"
proof (induction i rule: less_induct)
  case (less i)
  show ?case
  proof (cases "i = 0")
    case True
    then show ?thesis by (simp add: irrefl)
  next
    case False
    with less have "\<not> lt (xs ! i) (xs ! parent i)" "\<not> lt (xs ! parent i) (xs ! 0)"
      using parent_less [of i] by (auto simp: heap_from_def)
    then show ?thesis by (rule neg_trans)
  qed
qed

end

section \<open>The contract of a priority queue\<close>

text \<open>
  \<open>drain pop n q\<close> is the client that takes elements until the queue answers that it is empty,
  \<open>n\<close> times at most. The locale is the interface its users rely on: the binary heaps, the task
  heap and the path heap provide it.
\<close>

fun drain :: "('q \<Rightarrow> 'a option \<times> 'q) \<Rightarrow> nat \<Rightarrow> 'q \<Rightarrow> 'a list" where
  "drain pop 0 q = []"
| "drain pop (Suc n) q =
     (case pop q of (None, q') \<Rightarrow> [] | (Some x, q') \<Rightarrow> x # drain pop n q')"

locale priority_queue = strict_weak lt
  for lt :: "'a \<Rightarrow> 'a \<Rightarrow> bool" +
  fixes push :: "'a \<Rightarrow> 'q \<Rightarrow> 'q"
    and pop :: "'q \<Rightarrow> 'a option \<times> 'q"
    and elems :: "'q \<Rightarrow> 'a multiset"
    and invar :: "'q \<Rightarrow> bool"
  assumes push_invar: "invar q \<Longrightarrow> invar (push x q)"
    and push_elems: "invar q \<Longrightarrow> elems (push x q) = add_mset x (elems q)"
    and pop_empty: "invar q \<Longrightarrow> elems q = {#} \<Longrightarrow> pop q = (None, q)"
    and pop_least: "invar q \<Longrightarrow> elems q \<noteq> {#} \<Longrightarrow>
      \<exists>x q'. pop q = (Some x, q') \<and> invar q' \<and> elems q = add_mset x (elems q') \<and>
        (\<forall>y\<in>#elems q. \<not> lt y x)"
begin

lemma pop_cases:
  assumes "invar q"
  obtains "elems q = {#}" "pop q = (None, q)"
  | x q' where "pop q = (Some x, q')" "invar q'" "elems q = add_mset x (elems q')"
      "\<And>y. y \<in># elems q \<Longrightarrow> \<not> lt y x"
  using assms pop_empty pop_least by (cases "elems q = {#}") blast+

lemma set_drain: "invar q \<Longrightarrow> set (drain pop n q) \<subseteq> set_mset (elems q)"
proof (induction n arbitrary: q)
  case (Suc n)
  from Suc.prems show ?case
  proof (cases rule: pop_cases)
    case (2 x q')
    with Suc.IH [of q'] show ?thesis by auto
  qed simp
qed simp

lemma sorted_drain: "invar q \<Longrightarrow> sorted_wrt (\<lambda>x y. \<not> lt y x) (drain pop n q)"
proof (induction n arbitrary: q)
  case (Suc n)
  from Suc.prems show ?case
  proof (cases rule: pop_cases)
    case (2 x q')
    with Suc.IH [of q'] set_drain [of q' n] show ?thesis by auto
  qed simp
qed simp

lemma mset_drain: "invar q \<Longrightarrow> size (elems q) \<le> n \<Longrightarrow> mset (drain pop n q) = elems q"
proof (induction n arbitrary: q)
  case (Suc n)
  from Suc.prems(1) show ?case
  proof (cases rule: pop_cases)
    case (2 x q')
    with Suc show ?thesis by simp
  qed simp
qed simp

lemma fold_push:
  "invar q \<Longrightarrow> invar (fold push xs q) \<and> elems (fold push xs q) = elems q + mset xs"
  by (induction xs arbitrary: q) (auto simp: push_invar push_elems)

end

end
