(* ===== verification/BinaryHeap.thy ===== *)
theory BinaryHeap
  imports HeapCore
begin

text \<open>
  \<open>data-structures/heap.go\<close>: \<open>baseHeap\<close>, \<open>MinHeap\<close> and \<open>MaxHeap\<close>. Both heaps embed
  \<open>baseHeap\<close> and have no field of their own, so their state is the record \<open>baseHeap\<close>. Indices
  are \<open>nat\<close>: the code computes a parent only of a positive index and reads an element only
  after comparing its index with the length. Elements are only compared, so \<open>int\<close> stands for
  Go's \<open>int\<close>.
\<close>

section \<open>State and base operations\<close>

record baseHeap =
  items :: "int list"

type_synonym MinHeap = baseHeap
type_synonym MaxHeap = baseHeap

definition baseHeap_parent :: "nat \<Rightarrow> nat" where
  "baseHeap_parent i = (i - 1) div 2"

definition baseHeap_leftChild :: "nat \<Rightarrow> nat" where
  "baseHeap_leftChild i = 2 * i + 1"

definition baseHeap_rightChild :: "nat \<Rightarrow> nat" where
  "baseHeap_rightChild i = 2 * i + 2"

definition baseHeap_swap :: "int list \<Rightarrow> nat \<Rightarrow> nat \<Rightarrow> int list" where
  "baseHeap_swap xs i j = (xs[i := xs ! j])[j := xs ! i]"

definition baseHeap_Size :: "baseHeap \<Rightarrow> nat" where
  "baseHeap_Size h = length (items h)"

definition baseHeap_IsEmpty :: "baseHeap \<Rightarrow> bool" where
  "baseHeap_IsEmpty h \<longleftrightarrow> length (items h) = 0"

definition baseHeap_Peek :: "baseHeap \<Rightarrow> int \<times> bool" where
  "baseHeap_Peek h = (if baseHeap_IsEmpty h then (0, False) else (items h ! 0, True))"

lemmas base_ops = baseHeap_parent_def baseHeap_leftChild_def baseHeap_rightChild_def
  baseHeap_swap_def

lemma baseHeap_swap_at [simp]: "baseHeap_swap = swap_at"
  by (simp add: fun_eq_iff baseHeap_swap_def swap_at_def)

lemma baseHeap_parent_parent [simp]: "baseHeap_parent = parent"
  by (simp add: fun_eq_iff baseHeap_parent_def parent_def)

text \<open>
  The generic \<open>siftDown\<close> takes a closure over the heap's current items: here the closure's
  view of the items is its first argument.
\<close>

function baseHeap_siftDown ::
  "(int list \<Rightarrow> nat \<Rightarrow> nat \<Rightarrow> bool) \<Rightarrow> int list \<Rightarrow> nat \<Rightarrow> int list" where
  "baseHeap_siftDown cmp xs i =
     (let l = baseHeap_leftChild i; r = baseHeap_rightChild i; n = length xs;
          target = (if l < n \<and> cmp xs l i then l else i);
          target = (if r < n \<and> cmp xs r target then r else target)
      in if target = i then xs
         else baseHeap_siftDown cmp (baseHeap_swap xs i target) target)"
  by pat_completeness auto
termination
  by (relation "measure (\<lambda>(cmp, xs, i). length xs - i)")
     (auto simp: base_ops swap_at_def Let_def split: if_splits)

section \<open>MinHeap\<close>

definition NewMinHeap :: MinHeap where
  "NewMinHeap = \<lparr>items = []\<rparr>"

function MinHeap_bubbleUp :: "int \<Rightarrow> int list \<Rightarrow> nat \<Rightarrow> int list" where
  "MinHeap_bubbleUp val xs i =
     (if 0 < i \<and> val < xs ! baseHeap_parent i
      then let p = baseHeap_parent i in MinHeap_bubbleUp val (baseHeap_swap xs i p) p
      else xs)"
  by pat_completeness auto
termination
  by (relation "measure (\<lambda>(val, xs, i). i)") (auto simp: parent_less)

definition MinHeap_Push :: "MinHeap \<Rightarrow> int \<Rightarrow> MinHeap" where
  "MinHeap_Push h val =
     (let i = length (items h); xs = items h @ [val] in h\<lparr>items := MinHeap_bubbleUp val xs i\<rparr>)"

function MinHeap_siftDown :: "int list \<Rightarrow> nat \<Rightarrow> int list" where
  "MinHeap_siftDown xs i =
     (let l = baseHeap_leftChild i; r = baseHeap_rightChild i; n = length xs;
          smallest = (if l < n \<and> xs ! l < xs ! i then l else i);
          smallest = (if r < n \<and> xs ! r < xs ! smallest then r else smallest)
      in if smallest = i then xs else MinHeap_siftDown (baseHeap_swap xs i smallest) smallest)"
  by pat_completeness auto
termination
  by (relation "measure (\<lambda>(xs, i). length xs - i)")
     (auto simp: base_ops swap_at_def Let_def split: if_splits)

definition MinHeap_Pop :: "MinHeap \<Rightarrow> (int \<times> bool) \<times> MinHeap" where
  "MinHeap_Pop h =
     (if baseHeap_IsEmpty h then ((0, False), h)
      else let rootVal = items h ! 0;
               fVal = items h ! (length (items h) - 1);
               xs = (items h)[0 := fVal];
               xs = take (length xs - 1) xs
           in ((rootVal, True), h\<lparr>items := MinHeap_siftDown xs 0\<rparr>))"

definition MinHeap_Peek :: "MinHeap \<Rightarrow> int \<times> bool" where
  "MinHeap_Peek h = baseHeap_Peek h"

fun MinHeap_heapifyLoop :: "nat \<Rightarrow> int list \<Rightarrow> int list" where
  "MinHeap_heapifyLoop 0 xs = xs"
| "MinHeap_heapifyLoop (Suc i) xs = MinHeap_heapifyLoop i (MinHeap_siftDown xs i)"

definition MinHeap_Heapify :: "MinHeap \<Rightarrow> int list \<Rightarrow> MinHeap" where
  "MinHeap_Heapify h input = h\<lparr>items := MinHeap_heapifyLoop (length input div 2) input\<rparr>"

section \<open>MaxHeap\<close>

definition NewMaxHeap :: MaxHeap where
  "NewMaxHeap = \<lparr>items = []\<rparr>"

function MaxHeap_bubbleUp :: "int \<Rightarrow> int list \<Rightarrow> nat \<Rightarrow> int list" where
  "MaxHeap_bubbleUp val xs i =
     (if 0 < i \<and> xs ! baseHeap_parent i < val
      then let p = baseHeap_parent i in MaxHeap_bubbleUp val (baseHeap_swap xs i p) p
      else xs)"
  by pat_completeness auto
termination
  by (relation "measure (\<lambda>(val, xs, i). i)") (auto simp: parent_less)

definition MaxHeap_Push :: "MaxHeap \<Rightarrow> int \<Rightarrow> MaxHeap" where
  "MaxHeap_Push h val =
     (let i = length (items h); xs = items h @ [val] in h\<lparr>items := MaxHeap_bubbleUp val xs i\<rparr>)"

function MaxHeap_siftDown :: "int list \<Rightarrow> nat \<Rightarrow> int list" where
  "MaxHeap_siftDown xs i =
     (let l = baseHeap_leftChild i; r = baseHeap_rightChild i; n = length xs;
          greatest = (if l < n \<and> xs ! i < xs ! l then l else i);
          greatest = (if r < n \<and> xs ! greatest < xs ! r then r else greatest)
      in if greatest = i then xs else MaxHeap_siftDown (baseHeap_swap xs i greatest) greatest)"
  by pat_completeness auto
termination
  by (relation "measure (\<lambda>(xs, i). length xs - i)")
     (auto simp: base_ops swap_at_def Let_def split: if_splits)

definition MaxHeap_Pop :: "MaxHeap \<Rightarrow> (int \<times> bool) \<times> MaxHeap" where
  "MaxHeap_Pop h =
     (if baseHeap_IsEmpty h then ((0, False), h)
      else let rootVal = items h ! 0;
               fVal = items h ! (length (items h) - 1);
               xs = (items h)[0 := fVal];
               xs = take (length xs - 1) xs
           in ((rootVal, True), h\<lparr>items := MaxHeap_siftDown xs 0\<rparr>))"

definition MaxHeap_Peek :: "MaxHeap \<Rightarrow> int \<times> bool" where
  "MaxHeap_Peek h = baseHeap_Peek h"

fun MaxHeap_heapifyLoop :: "nat \<Rightarrow> int list \<Rightarrow> int list" where
  "MaxHeap_heapifyLoop 0 xs = xs"
| "MaxHeap_heapifyLoop (Suc i) xs = MaxHeap_heapifyLoop i (MaxHeap_siftDown xs i)"

definition MaxHeap_Heapify :: "MaxHeap \<Rightarrow> int list \<Rightarrow> MaxHeap" where
  "MaxHeap_Heapify h input = h\<lparr>items := MaxHeap_heapifyLoop (length input div 2) input\<rparr>"

declare baseHeap_siftDown.simps [simp del] MinHeap_bubbleUp.simps [simp del]
  MinHeap_siftDown.simps [simp del] MaxHeap_bubbleUp.simps [simp del]
  MaxHeap_siftDown.simps [simp del]

section \<open>The copies of the sifts are one sift\<close>

text \<open>
  \<open>MinHeap.siftDown\<close> is the generic \<open>siftDown\<close> at the comparator of the code's comment, and
  both are the sift of \<open>HeapCore\<close>; so is \<open>MaxHeap.siftDown\<close> with the order reversed. The
  bubbling loop compares the pushed value where the sift compares the element, which is the
  same as long as the value sits at the loop's index.
\<close>

lemma MinHeap_siftDown_eq: "MinHeap_siftDown xs i = sift_down (<) (length xs) xs i"
proof (rule sift_down_unique [OF _ refl])
  show "MinHeap_siftDown ys k =
      (let c = sift_child (<) (length xs) ys k in
       if c = k then ys else MinHeap_siftDown (swap_at ys k c) c)"
    if "length ys = length xs" for ys k
    using that by (subst MinHeap_siftDown.simps) (simp only: sift_child_def base_ops swap_at_def Let_def)
qed

lemma MaxHeap_siftDown_eq: "MaxHeap_siftDown xs i = sift_down (>) (length xs) xs i"
proof (rule sift_down_unique [OF _ refl])
  show "MaxHeap_siftDown ys k =
      (let c = sift_child (>) (length xs) ys k in
       if c = k then ys else MaxHeap_siftDown (swap_at ys k c) c)"
    if "length ys = length xs" for ys k
    using that by (subst MaxHeap_siftDown.simps) (simp only: sift_child_def base_ops swap_at_def Let_def)
qed

lemma baseHeap_siftDown_eq:
  "baseHeap_siftDown (\<lambda>ys a b. lt (ys ! a) (ys ! b)) xs i = sift_down lt (length xs) xs i"
proof (rule sift_down_unique [OF _ refl])
  let ?f = "baseHeap_siftDown (\<lambda>ys a b. lt (ys ! a) (ys ! b))"
  show "?f ys k = (let c = sift_child lt (length xs) ys k in if c = k then ys else ?f (swap_at ys k c) c)"
    if "length ys = length xs" for ys k
    using that by (subst baseHeap_siftDown.simps) (simp only: sift_child_def base_ops swap_at_def Let_def)
qed

lemma MinHeap_bubbleUp_eq:
  "i < length xs \<Longrightarrow> xs ! i = val \<Longrightarrow> MinHeap_bubbleUp val xs i = sift_up (<) xs i"
proof (induction val xs i rule: MinHeap_bubbleUp.induct)
  case (1 val xs i)
  then show ?case
    using parent_less [of i]
    by (subst MinHeap_bubbleUp.simps, subst sift_up.simps) (auto simp: Let_def nth_swap_at)
qed

lemma MaxHeap_bubbleUp_eq:
  "i < length xs \<Longrightarrow> xs ! i = val \<Longrightarrow> MaxHeap_bubbleUp val xs i = sift_up (>) xs i"
proof (induction val xs i rule: MaxHeap_bubbleUp.induct)
  case (1 val xs i)
  then show ?case
    using parent_less [of i]
    by (subst MaxHeap_bubbleUp.simps, subst sift_up.simps) (auto simp: Let_def nth_swap_at)
qed

section \<open>The heaps are priority queues\<close>

interpretation min_order: strict_weak "(<) :: int \<Rightarrow> int \<Rightarrow> bool"
  by unfold_locales auto

interpretation max_order: strict_weak "(>) :: int \<Rightarrow> int \<Rightarrow> bool"
  by unfold_locales auto

lemma items_MinHeap_Push:
  "items (MinHeap_Push h v) = sift_up (<) (items h @ [v]) (length (items h))"
  by (simp add: MinHeap_Push_def MinHeap_bubbleUp_eq)

lemma items_MaxHeap_Push:
  "items (MaxHeap_Push h v) = sift_up (>) (items h @ [v]) (length (items h))"
  by (simp add: MaxHeap_Push_def MaxHeap_bubbleUp_eq)

lemma MinHeap_Pop_eq:
  "MinHeap_Pop h =
     (if items h = [] then ((0, False), h)
      else ((items h ! 0, True), h\<lparr>items := sift_down (<) (length (items h) - 1)
        ((take (length (items h) - 1) (items h))[0 := items h ! (length (items h) - 1)]) 0\<rparr>))"
  by (simp add: MinHeap_Pop_def baseHeap_IsEmpty_def MinHeap_siftDown_eq Let_def take_update_swap)

lemma MaxHeap_Pop_eq:
  "MaxHeap_Pop h =
     (if items h = [] then ((0, False), h)
      else ((items h ! 0, True), h\<lparr>items := sift_down (>) (length (items h) - 1)
        ((take (length (items h) - 1) (items h))[0 := items h ! (length (items h) - 1)]) 0\<rparr>))"
  by (simp add: MaxHeap_Pop_def baseHeap_IsEmpty_def MaxHeap_siftDown_eq Let_def take_update_swap)

definition pop_option :: "('a \<times> bool) \<times> 'q \<Rightarrow> 'a option \<times> 'q" where
  "pop_option r = (case r of ((v, valid), q) \<Rightarrow> (if valid then Some v else None, q))"

interpretation minheap: priority_queue "(<)" "\<lambda>x h. MinHeap_Push h x" "\<lambda>h. pop_option (MinHeap_Pop h)"
  "\<lambda>h. mset (items h)" "\<lambda>h. is_heap (<) (items h)"
proof (unfold_locales, goal_cases)
  case (1 q x)
  then show ?case using min_order.heap_push [of "items q" x] by (simp add: items_MinHeap_Push)
next
  case (4 q)
  then have ne: "items q \<noteq> []" by simp
  from ne 4 min_order.heap_root_least [of "length (items q)" "items q"]
  have "\<forall>y \<in># mset (items q). \<not> y < items q ! 0" by (auto simp: in_set_conv_nth)
  moreover from ne 4 have "is_heap (<) (items (snd (MinHeap_Pop q)))"
    by (auto simp: MinHeap_Pop_eq intro: min_order.heap_pop)
  ultimately show ?case
    using ne mset_replace_root [OF ne]
    by (auto simp: pop_option_def MinHeap_Pop_eq split: if_splits)
qed (simp_all add: items_MinHeap_Push pop_option_def MinHeap_Pop_eq)

interpretation maxheap: priority_queue "(>)" "\<lambda>x h. MaxHeap_Push h x" "\<lambda>h. pop_option (MaxHeap_Pop h)"
  "\<lambda>h. mset (items h)" "\<lambda>h. is_heap (>) (items h)"
proof (unfold_locales, goal_cases)
  case (1 q x)
  then show ?case using max_order.heap_push [of "items q" x] by (simp add: items_MaxHeap_Push)
next
  case (4 q)
  then have ne: "items q \<noteq> []" by simp
  from ne 4 max_order.heap_root_least [of "length (items q)" "items q"]
  have "\<forall>y \<in># mset (items q). \<not> items q ! 0 < y" by (auto simp: in_set_conv_nth)
  moreover from ne 4 have "is_heap (>) (items (snd (MaxHeap_Pop q)))"
    by (auto simp: MaxHeap_Pop_eq intro: max_order.heap_pop)
  ultimately show ?case
    using ne mset_replace_root [OF ne]
    by (auto simp: pop_option_def MaxHeap_Pop_eq split: if_splits)
qed (simp_all add: items_MaxHeap_Push pop_option_def MaxHeap_Pop_eq)

section \<open>Heapify\<close>

lemma MinHeap_heapifyLoop_heap:
  "heap_from (<) k (length xs) xs \<Longrightarrow> is_heap (<) (MinHeap_heapifyLoop k xs)"
proof (induction k arbitrary: xs)
  case (Suc k)
  then show ?case
    using min_order.heapify_step [OF Suc.prems] by (simp add: MinHeap_siftDown_eq)
qed simp

lemma mset_MinHeap_heapifyLoop: "mset (MinHeap_heapifyLoop k xs) = mset xs"
  by (induction k arbitrary: xs) (simp_all add: MinHeap_siftDown_eq)

lemma MaxHeap_heapifyLoop_heap:
  "heap_from (>) k (length xs) xs \<Longrightarrow> is_heap (>) (MaxHeap_heapifyLoop k xs)"
proof (induction k arbitrary: xs)
  case (Suc k)
  then show ?case
    using max_order.heapify_step [OF Suc.prems] by (simp add: MaxHeap_siftDown_eq)
qed simp

lemma mset_MaxHeap_heapifyLoop: "mset (MaxHeap_heapifyLoop k xs) = mset xs"
  by (induction k arbitrary: xs) (simp_all add: MaxHeap_siftDown_eq)

lemma MinHeap_Heapify_heap:
  "is_heap (<) (items (MinHeap_Heapify h xs)) \<and> mset (items (MinHeap_Heapify h xs)) = mset xs"
  unfolding MinHeap_Heapify_def
  by (simp add: mset_MinHeap_heapifyLoop MinHeap_heapifyLoop_heap heap_from_ge)

lemma MaxHeap_Heapify_heap:
  "is_heap (>) (items (MaxHeap_Heapify h xs)) \<and> mset (items (MaxHeap_Heapify h xs)) = mset xs"
  unfolding MaxHeap_Heapify_def
  by (simp add: mset_MaxHeap_heapifyLoop MaxHeap_heapifyLoop_heap heap_from_ge)

section \<open>Sorting and the refinement of a multiset\<close>

text \<open>
  Popping a heap made by \<open>Heapify\<close>, or by pushing the elements one by one, until it is empty
  gives the elements in ascending order.
\<close>

lemma minheap_sorts:
  "drain (\<lambda>h. pop_option (MinHeap_Pop h)) (length xs) (MinHeap_Heapify h xs) = sort xs \<and>
   drain (\<lambda>h. pop_option (MinHeap_Pop h)) (length xs) (fold (\<lambda>x h. MinHeap_Push h x) xs NewMinHeap) = sort xs"
proof -
  have sorts: "drain (\<lambda>h. pop_option (MinHeap_Pop h)) (length xs) q = sort xs"
    if "is_heap (<) (items q)" "mset (items q) = mset xs" for q
    using that minheap.sorted_drain [of q "length xs"] minheap.mset_drain [of q "length xs"]
    by (intro properties_for_sort [symmetric]) (auto simp: not_less sorted_wrt_iff_nth_less)
  moreover have "is_heap (<) (items NewMinHeap)" by (simp add: NewMinHeap_def heap_from_def)
  ultimately show ?thesis
    using MinHeap_Heapify_heap minheap.fold_push [of NewMinHeap xs] by (simp add: NewMinHeap_def)
qed

text \<open>
  Popping a max heap until it is empty gives the elements in descending order, whether it was
  made by \<open>Heapify\<close> or by pushing.
\<close>

lemma maxheap_sorts:
  "drain (\<lambda>h. pop_option (MaxHeap_Pop h)) (length xs) (MaxHeap_Heapify h xs) = rev (sort xs) \<and>
   drain (\<lambda>h. pop_option (MaxHeap_Pop h)) (length xs) (fold (\<lambda>x h. MaxHeap_Push h x) xs NewMaxHeap) = rev (sort xs)"
proof -
  have sorts: "drain (\<lambda>h. pop_option (MaxHeap_Pop h)) (length xs) q = rev (sort xs)"
    if "is_heap (>) (items q)" "mset (items q) = mset xs" for q
  proof -
    have "sort xs = rev (drain (\<lambda>h. pop_option (MaxHeap_Pop h)) (length xs) q)"
      using that maxheap.sorted_drain [of q "length xs"] maxheap.mset_drain [of q "length xs"]
      by (intro properties_for_sort) (auto simp: not_less sorted_wrt_rev)
    then show ?thesis by simp
  qed
  moreover have "is_heap (>) (items NewMaxHeap)" by (simp add: NewMaxHeap_def heap_from_def)
  ultimately show ?thesis
    using MaxHeap_Heapify_heap maxheap.fold_push [of NewMaxHeap xs] by (simp add: NewMaxHeap_def)
qed

text \<open>
  C39: popping until it is empty a heap that \<open>Heapify\<close> made of any slice, or that its elements were
  pushed on one by one, gives the slice in ascending order for a min heap and in descending order for a
  max heap.
\<close>

theorem heaps_sort:
  "drain (\<lambda>h. pop_option (MinHeap_Pop h)) (length xs) (MinHeap_Heapify g xs) = sort xs \<and>
   drain (\<lambda>h. pop_option (MinHeap_Pop h)) (length xs) (fold (\<lambda>x h. MinHeap_Push h x) xs NewMinHeap) = sort xs \<and>
   drain (\<lambda>h. pop_option (MaxHeap_Pop h)) (length xs) (MaxHeap_Heapify h xs) = rev (sort xs) \<and>
   drain (\<lambda>h. pop_option (MaxHeap_Pop h)) (length xs) (fold (\<lambda>x h. MaxHeap_Push h x) xs NewMaxHeap) = rev (sort xs)"
  using minheap_sorts maxheap_sorts by blast

text \<open>
  Every sequence of operations on a heap: the calls, their outputs, and the specification they
  refine, a bag of integers from which \<open>Pop\<close> and \<open>Peek\<close> take the extreme element.
\<close>

datatype heap_call = CallPush int | CallPop | CallPeek | CallHeapify "int list" | CallSize

datatype heap_out = Done | Popped int bool | Count nat

fun MinHeap_step :: "MinHeap \<Rightarrow> heap_call \<Rightarrow> heap_out \<times> MinHeap" where
  "MinHeap_step h (CallPush x) = (Done, MinHeap_Push h x)"
| "MinHeap_step h CallPop = (case MinHeap_Pop h of ((v, valid), h') \<Rightarrow> (Popped v valid, h'))"
| "MinHeap_step h CallPeek = (case MinHeap_Peek h of (v, valid) \<Rightarrow> (Popped v valid, h))"
| "MinHeap_step h (CallHeapify xs) = (Done, MinHeap_Heapify h xs)"
| "MinHeap_step h CallSize = (Count (baseHeap_Size h), h)"

fun MaxHeap_step :: "MaxHeap \<Rightarrow> heap_call \<Rightarrow> heap_out \<times> MaxHeap" where
  "MaxHeap_step h (CallPush x) = (Done, MaxHeap_Push h x)"
| "MaxHeap_step h CallPop = (case MaxHeap_Pop h of ((v, valid), h') \<Rightarrow> (Popped v valid, h'))"
| "MaxHeap_step h CallPeek = (case MaxHeap_Peek h of (v, valid) \<Rightarrow> (Popped v valid, h))"
| "MaxHeap_step h (CallHeapify xs) = (Done, MaxHeap_Heapify h xs)"
| "MaxHeap_step h CallSize = (Count (baseHeap_Size h), h)"

fun bag_step :: "(int multiset \<Rightarrow> int) \<Rightarrow> int multiset \<Rightarrow> heap_call \<Rightarrow> heap_out \<times> int multiset" where
  "bag_step best M (CallPush x) = (Done, add_mset x M)"
| "bag_step best M CallPop =
     (if M = {#} then (Popped 0 False, M) else (Popped (best M) True, M - {#best M#}))"
| "bag_step best M CallPeek = (if M = {#} then (Popped 0 False, M) else (Popped (best M) True, M))"
| "bag_step best M (CallHeapify xs) = (Done, mset xs)"
| "bag_step best M CallSize = (Count (size M), M)"

definition heap_bag :: "(int \<Rightarrow> int \<Rightarrow> bool) \<Rightarrow> baseHeap \<Rightarrow> int multiset \<Rightarrow> bool" where
  "heap_bag lt h M \<longleftrightarrow> is_heap lt (items h) \<and> mset (items h) = M"

lemma MinHeap_root: "is_heap (<) (items h) \<Longrightarrow> items h \<noteq> [] \<Longrightarrow> items h ! 0 = Min_mset (mset (items h))"
  using min_order.heap_root_least [of "length (items h)" "items h"]
  by (intro Min_eqI [symmetric]) (auto simp: in_set_conv_nth not_less)

lemma MaxHeap_root: "is_heap (>) (items h) \<Longrightarrow> items h \<noteq> [] \<Longrightarrow> items h ! 0 = Max_mset (mset (items h))"
  using max_order.heap_root_least [of "length (items h)" "items h"]
  by (intro Max_eqI [symmetric]) (auto simp: in_set_conv_nth not_less)

lemma MinHeap_step_refines:
  assumes "heap_bag (<) h M"
  shows "fst (MinHeap_step h p) = fst (bag_step Min_mset M p) \<and>
    heap_bag (<) (snd (MinHeap_step h p)) (snd (bag_step Min_mset M p))"
proof (cases p)
  case CallPop
  from assms have inv: "is_heap (<) (items h)" and M: "M = mset (items h)" by (auto simp: heap_bag_def)
  show ?thesis
  proof (cases "items h = []")
    case False
    then have "mset (items (snd (MinHeap_Pop h))) = M - {#items h ! 0#}"
      by (simp add: MinHeap_Pop_eq M mset_take_root)
    moreover have "is_heap (<) (items (snd (MinHeap_Pop h)))"
      using False inv by (auto simp: MinHeap_Pop_eq intro: min_order.heap_pop)
    ultimately show ?thesis
      using CallPop False inv by (auto simp: MinHeap_Pop_eq M heap_bag_def MinHeap_root)
  qed (use CallPop M inv in \<open>simp add: MinHeap_Pop_eq heap_bag_def\<close>)
next
  case (CallPush x)
  with assms minheap.push_invar minheap.push_elems show ?thesis by (simp add: heap_bag_def)
next
  case CallPeek
  with assms show ?thesis
    by (auto simp: heap_bag_def MinHeap_Peek_def baseHeap_Peek_def baseHeap_IsEmpty_def MinHeap_root)
qed (use assms MinHeap_Heapify_heap in \<open>auto simp: heap_bag_def baseHeap_Size_def\<close>)

lemma MaxHeap_step_refines:
  assumes "heap_bag (>) h M"
  shows "fst (MaxHeap_step h p) = fst (bag_step Max_mset M p) \<and>
    heap_bag (>) (snd (MaxHeap_step h p)) (snd (bag_step Max_mset M p))"
proof (cases p)
  case CallPop
  from assms have inv: "is_heap (>) (items h)" and M: "M = mset (items h)" by (auto simp: heap_bag_def)
  show ?thesis
  proof (cases "items h = []")
    case False
    then have "mset (items (snd (MaxHeap_Pop h))) = M - {#items h ! 0#}"
      by (simp add: MaxHeap_Pop_eq M mset_take_root)
    moreover have "is_heap (>) (items (snd (MaxHeap_Pop h)))"
      using False inv by (auto simp: MaxHeap_Pop_eq intro: max_order.heap_pop)
    ultimately show ?thesis
      using CallPop False inv by (auto simp: MaxHeap_Pop_eq M heap_bag_def MaxHeap_root)
  qed (use CallPop M inv in \<open>simp add: MaxHeap_Pop_eq heap_bag_def\<close>)
next
  case (CallPush x)
  with assms maxheap.push_invar maxheap.push_elems show ?thesis by (simp add: heap_bag_def)
next
  case CallPeek
  with assms show ?thesis
    by (auto simp: heap_bag_def MaxHeap_Peek_def baseHeap_Peek_def baseHeap_IsEmpty_def MaxHeap_root)
qed (use assms MaxHeap_Heapify_heap in \<open>auto simp: heap_bag_def baseHeap_Size_def\<close>)

interpretation minbag: refines MinHeap_step "bag_step Min_mset" "heap_bag (<)" "\<lambda>_. True"
  by unfold_locales (simp_all add: MinHeap_step_refines)

interpretation maxbag: refines MaxHeap_step "bag_step Max_mset" "heap_bag (>)" "\<lambda>_. True"
  by unfold_locales (simp_all add: MaxHeap_step_refines)

lemma heap_bag_empty: "heap_bag (<) NewMinHeap {#}" "heap_bag (>) NewMaxHeap {#}"
  by (simp_all add: heap_bag_def NewMinHeap_def NewMaxHeap_def heap_from_def)

text \<open>
  C1: any sequence of calls on a new min heap and on a new max heap gives the outputs of the bag
  from which the least, respectively the greatest, element is taken; sizes and the answers on an
  empty heap included.
\<close>

theorem heaps_refine_bags:
  "fst (run_ops MinHeap_step NewMinHeap calls) = fst (run_ops (bag_step Min_mset) {#} calls) \<and>
   fst (run_ops MaxHeap_step NewMaxHeap calls) = fst (run_ops (bag_step Max_mset) {#} calls)"
  by (simp add: minbag.run_outputs maxbag.run_outputs heap_bag_empty)

end
