(* ===== verification/PointerLists.thy ===== *)
theory PointerLists
  imports GoPrelude
begin

text \<open>
  Linked structures in a store of addresses, for the two components that update pointers in
  place: the singly linked list and the doubly linked list of the LRU cache. A pointer is an
  optional address (\<open>None\<close> is \<open>nil\<close>), a field is a function from addresses to pointers.
  \<open>seg f p as q\<close> says that following the field \<open>f\<close> from \<open>p\<close> passes the addresses \<open>as\<close> and
  arrives at \<open>q\<close>; a \<open>chain\<close> is a segment that arrives at \<open>nil\<close>.
\<close>

type_synonym ptr = "nat option"

fun seg :: "(nat \<Rightarrow> ptr) \<Rightarrow> ptr \<Rightarrow> nat list \<Rightarrow> ptr \<Rightarrow> bool" where
  "seg f p [] q \<longleftrightarrow> p = q"
| "seg f p (a # as) q \<longleftrightarrow> p = Some a \<and> seg f (f a) as q"

abbreviation chain :: "(nat \<Rightarrow> ptr) \<Rightarrow> ptr \<Rightarrow> nat list \<Rightarrow> bool" where
  "chain f p as \<equiv> seg f p as None"

lemma seg_append: "seg f p (as @ bs) q \<longleftrightarrow> (\<exists>r. seg f p as r \<and> seg f r bs q)"
  by (induction as arbitrary: p) auto

lemma seg_snoc: "seg f p (as @ [a]) q \<longleftrightarrow> seg f p as (Some a) \<and> f a = q"
  by (auto simp: seg_append)

lemma seg_cong: "(\<And>a. a \<in> set as \<Longrightarrow> f a = g a) \<Longrightarrow> seg f p as q = seg g p as q"
  by (induction as arbitrary: p) auto

lemma seg_upd [simp]: "a \<notin> set as \<Longrightarrow> seg (f(a := r)) p as q = seg f p as q"
  by (rule seg_cong) auto

lemma chain_None_iff [simp]: "chain f None as \<longleftrightarrow> as = []"
  by (cases as) auto

lemma chain_Some_iff: "chain f (Some a) as \<longleftrightarrow> (\<exists>bs. as = a # bs \<and> chain f (f a) bs)"
  by (cases as) auto

lemma chain_unique: "chain f p as \<Longrightarrow> chain f p bs \<Longrightarrow> as = bs"
proof (induction as arbitrary: p bs)
  case (Cons a as)
  then show ?case by (cases bs) auto
qed simp

lemma chain_distinct: "chain f p as \<Longrightarrow> distinct as"
proof (induction as arbitrary: p)
  case (Cons a as)
  moreover have "a \<notin> set as"
  proof
    assume "a \<in> set as"
    then obtain us vs where as: "as = us @ a # vs" by (auto simp: in_set_conv_decomp)
    with Cons.prems have "chain f (f a) vs" "chain f (f a) (us @ a # vs)"
      by (auto simp: seg_append)
    from chain_unique [OF this] have "length vs = length (us @ a # vs)" by simp
    then show False by simp
  qed
  ultimately show ?case by auto
qed simp

lemma seg_drop: "seg f p as q \<Longrightarrow> i < length as \<Longrightarrow> seg f (Some (as ! i)) (drop i as) q"
proof (induction as arbitrary: p i)
  case (Cons a as)
  then show ?case by (cases i) auto
qed simp

lemma chain_hd: "chain f p as \<Longrightarrow> p = (case as of [] \<Rightarrow> None | a # _ \<Rightarrow> Some a)"
  by (cases as) auto

lemma chain_nth_next:
  assumes "chain f p as" "i < length as"
  shows "f (as ! i) = (if Suc i < length as then Some (as ! Suc i) else None)"
proof -
  from seg_drop [OF assms] assms(2) have "chain f (f (as ! i)) (drop (Suc i) as)"
    by (simp add: Cons_nth_drop_Suc [symmetric])
  then show ?thesis by (auto dest!: chain_hd simp: Cons_nth_drop_Suc [symmetric])
qed

section \<open>Walking along a field\<close>

definition follow :: "(nat \<Rightarrow> ptr) \<Rightarrow> ptr \<Rightarrow> ptr" where
  "follow f p = (case p of None \<Rightarrow> None | Some a \<Rightarrow> f a)"

lemma follow_simps [simp]: "follow f None = None" "follow f (Some a) = f a"
  by (simp_all add: follow_def)

abbreviation walk :: "(nat \<Rightarrow> ptr) \<Rightarrow> ptr \<Rightarrow> nat \<Rightarrow> ptr" where
  "walk f p n \<equiv> (follow f ^^ n) p"

lemma walk_None [simp]: "walk f None n = None"
  by (induction n) auto

lemma walk_add: "walk f p (m + n) = walk f (walk f p m) n"
  by (simp add: add.commute [of m] funpow_add)

lemma walk_chain: "chain f p as \<Longrightarrow> walk f p n = (if n < length as then Some (as ! n) else None)"
proof (induction n)
  case 0
  then show ?case by (cases as) auto
next
  case (Suc n)
  then show ?case using chain_nth_next [OF Suc.prems, of n] by auto
qed

lemma chain_of_walk: "walk f p n = None \<Longrightarrow> \<exists>as. chain f p as"
proof (induction n arbitrary: p)
  case (Suc n)
  show ?case
  proof (cases p)
    case (Some a)
    with Suc.prems have "walk f (f a) n = None" by (simp add: funpow_swap1)
    from Suc.IH [OF this] obtain as where "chain f (f a) as" ..
    with Some have "chain f p (a # as)" by simp
    then show ?thesis ..
  qed (auto intro: exI [of _ "[]"])
qed (auto intro: exI [of _ "[]"])

lemma chain_unlink:
  assumes "chain f p (us @ a # b # vs)"
  shows "chain (f(a := f b)) p (us @ a # vs)"
proof -
  from chain_distinct [OF assms] assms show ?thesis by (auto simp: seg_append)
qed

text \<open>Following a field from an allocated address: with finitely many addresses a walk repeats.\<close>

definition cyclic :: "(nat \<Rightarrow> ptr) \<Rightarrow> ptr \<Rightarrow> bool" where
  "cyclic f p \<longleftrightarrow> (\<exists>i j. i < j \<and> walk f p i = walk f p j \<and> walk f p i \<noteq> None)"

lemma walk_period:
  assumes "walk f p i = walk f p (i + l)" "i \<le> n"
  shows "walk f p (n + m * l) = walk f p n"
proof (induction m)
  case (Suc m)
  obtain k where k: "n + m * l = i + k" using \<open>i \<le> n\<close> le_Suc_ex by (metis add.assoc)
  have "walk f p (n + Suc m * l) = walk f p ((i + l) + k)" using k by (simp add: algebra_simps)
  also have "\<dots> = walk f p (i + k)" using assms(1) by (simp only: walk_add)
  finally show ?case using Suc k by simp
qed simp

lemma cyclic_meets:
  assumes "cyclic f p"
  shows "\<exists>n>0. walk f p (2 * n) = walk f p n"
proof -
  from assms obtain i j where "i < j" "walk f p i = walk f p j" by (auto simp: cyclic_def)
  then obtain l where l: "0 < l" "walk f p i = walk f p (i + l)" using less_imp_add_positive by metis
  let ?n = "Suc i * l"
  from l have "i \<le> ?n" by (metis Suc_leD le_square mult.commute mult_le_mono1 nat_mult_1 Suc_leI One_nat_def order.trans)
  from walk_period [OF l(2) this, of "Suc i"] have "walk f p (2 * ?n) = walk f p ?n"
    by (simp only: mult_2)
  with l show ?thesis by (intro exI [of _ ?n]) auto
qed

lemma chain_not_cyclic: "chain f p as \<Longrightarrow> \<not> cyclic f p"
  using chain_distinct [of f p as] by (auto simp: cyclic_def walk_chain distinct_conv_nth split: if_splits)

lemma cyclic_not_None: "cyclic f p \<Longrightarrow> walk f p n \<noteq> None"
  using chain_of_walk chain_not_cyclic by blast

text \<open>In a store with finitely many addresses a list ends or is cyclic.\<close>

lemma bounded_cyclic_or_chain:
  assumes bound: "\<And>n a. walk f p n = Some a \<Longrightarrow> a < (B :: nat)"
  shows "cyclic f p \<or> (\<exists>as. chain f p as)"
proof (cases "\<exists>n. walk f p n = None")
  case True
  then show ?thesis using chain_of_walk by blast
next
  case False
  have "range (\<lambda>n. the (walk f p n)) \<subseteq> {..<B}"
    using False bound by fastforce
  then have "\<not> inj (\<lambda>n. the (walk f p n))"
    using finite_subset [OF _ finite_lessThan] finite_imageD infinite_UNIV_nat by blast
  then obtain i j where "i < j" "the (walk f p i) = the (walk f p j)"
    by (auto simp: inj_on_def) (metis linorder_neqE_nat)
  with False show ?thesis unfolding cyclic_def by (metis option.expand)
qed

lemma walk_below:
  assumes "\<And>a b. a < B \<Longrightarrow> f a = Some b \<Longrightarrow> b < (B :: nat)" "\<And>a. p = Some a \<Longrightarrow> a < B"
  shows "walk f p n = Some a \<Longrightarrow> a < B"
proof (induction n arbitrary: a)
  case (Suc n)
  then show ?case using assms(1) by (cases "walk f p n") auto
qed (simp add: assms)

end
