(* ===== verification/LinkedList.thy ===== *)
theory LinkedList
  imports PointerLists
begin

text \<open>
  \<open>data-structures/linkedlist.go\<close>. The functions change \<open>Next\<close> fields in place and share nodes
  between their lists, so the model has an explicit store: a \<open>ListNode\<close> for every address, and
  the next address \<open>&ListNode{}\<close> returns. A function that follows pointers in a loop need not
  return on a cyclic list; it is a \<open>partial_function\<close> whose value \<open>None\<close> means that it does not
  return, and inside it a nil dereference is a panic. Values are only compared.
\<close>

section \<open>Nodes and the store\<close>

record ListNode =
  Val :: int
  Next :: ptr

record store =
  cell :: "nat \<Rightarrow> ListNode"
  brk :: nat

definition next_of :: "store \<Rightarrow> nat \<Rightarrow> ptr" where
  "next_of s a = Next (cell s a)"

definition val_of :: "store \<Rightarrow> nat \<Rightarrow> int" where
  "val_of s a = Val (cell s a)"

definition set_next :: "store \<Rightarrow> nat \<Rightarrow> ptr \<Rightarrow> store" where
  "set_next s a p = s\<lparr>cell := (cell s)(a := (cell s a)\<lparr>Next := p\<rparr>)\<rparr>"

definition new_node :: "store \<Rightarrow> ListNode \<Rightarrow> nat \<times> store" where
  "new_node s n = (brk s, s\<lparr>cell := (cell s)(brk s := n), brk := Suc (brk s)\<rparr>)"

lemma next_of_set_next [simp]: "next_of (set_next s a p) = (next_of s)(a := p)"
  by (auto simp: next_of_def set_next_def)

lemma val_of_set_next [simp]: "val_of (set_next s a p) = val_of s"
  by (auto simp: val_of_def set_next_def)

lemma brk_set_next [simp]: "brk (set_next s a p) = brk s"
  by (simp add: set_next_def)

lemma new_node_simps [simp]:
  "next_of (snd (new_node s n)) = (next_of s)(brk s := Next n)"
  "val_of (snd (new_node s n)) = (val_of s)(brk s := Val n)"
  "brk (snd (new_node s n)) = Suc (brk s)"
  "fst (new_node s n) = brk s"
  by (auto simp: next_of_def val_of_def new_node_def)

text \<open>Every list the caller holds lies below the next free address.\<close>

definition list_at :: "store \<Rightarrow> ptr \<Rightarrow> nat list \<Rightarrow> bool" where
  "list_at s p as \<longleftrightarrow> chain (next_of s) p as \<and> (\<forall>a\<in>set as. a < brk s)"

section \<open>Operations\<close>

partial_function (option) ReverseList_loop :: "store \<Rightarrow> ptr \<Rightarrow> ptr \<Rightarrow> (store \<times> ptr) option" where
  "ReverseList_loop s prev cur =
     (case cur of
        None \<Rightarrow> Some (s, prev)
      | Some c \<Rightarrow> ReverseList_loop (set_next s c prev) (Some c) (next_of s c))"

definition ReverseList :: "store \<Rightarrow> ptr \<Rightarrow> (store \<times> ptr) option" where
  "ReverseList s head = ReverseList_loop s None head"

partial_function (option) ReverseListRecursive :: "store \<Rightarrow> ptr \<Rightarrow> (store \<times> ptr) go option" where
  "ReverseListRecursive s head =
     (case head of
        None \<Rightarrow> Some (Ok (s, head))
      | Some a \<Rightarrow>
          (case next_of s a of
             None \<Rightarrow> Some (Ok (s, head))
           | Some b \<Rightarrow>
               Option.bind (ReverseListRecursive s (next_of s a)) (\<lambda>r.
                 Some (go_bind r (\<lambda>(s, newHead).
                   case next_of s a of
                     None \<Rightarrow> Panic NilDeref
                   | Some c \<Rightarrow> Ok (set_next (set_next s c head) a None, newHead))))))"

partial_function (option) HasCycle_loop :: "store \<Rightarrow> ptr \<Rightarrow> ptr \<Rightarrow> bool go option" where
  "HasCycle_loop s fast slow =
     (case fast of
        None \<Rightarrow> Some (Ok False)
      | Some f \<Rightarrow>
          (case next_of s f of
             None \<Rightarrow> Some (Ok False)
           | Some f' \<Rightarrow>
               (case slow of
                  None \<Rightarrow> Some (Panic NilDeref)
                | Some t \<Rightarrow>
                    if next_of s f' = next_of s t then Some (Ok True)
                    else HasCycle_loop s (next_of s f') (next_of s t))))"

definition HasCycle :: "store \<Rightarrow> ptr \<Rightarrow> bool go option" where
  "HasCycle s head = HasCycle_loop s head head"

partial_function (option) FindMiddle_loop :: "store \<Rightarrow> ptr \<Rightarrow> ptr \<Rightarrow> ptr go option" where
  "FindMiddle_loop s fast slow =
     (case fast of
        None \<Rightarrow> Some (Ok slow)
      | Some f \<Rightarrow>
          (case next_of s f of
             None \<Rightarrow> Some (Ok slow)
           | Some f' \<Rightarrow>
               (case slow of
                  None \<Rightarrow> Some (Panic NilDeref)
                | Some t \<Rightarrow> FindMiddle_loop s (next_of s f') (next_of s t))))"

definition FindMiddle :: "store \<Rightarrow> ptr \<Rightarrow> ptr go option" where
  "FindMiddle s head = FindMiddle_loop s head head"

partial_function (option) MergeTwoLists_loop ::
  "store \<Rightarrow> nat \<Rightarrow> ptr \<Rightarrow> ptr \<Rightarrow> store option" where
  "MergeTwoLists_loop s n l1 l2 =
     (case (l1, l2) of
        (Some a, Some b) \<Rightarrow>
          if val_of s a < val_of s b
          then MergeTwoLists_loop (set_next s n l1) a (next_of (set_next s n l1) a) l2
          else MergeTwoLists_loop (set_next s n l2) b l1 (next_of (set_next s n l2) b)
      | (Some a, None) \<Rightarrow> Some (set_next s n l1)
      | (None, Some b) \<Rightarrow> Some (set_next s n l2)
      | (None, None) \<Rightarrow> Some s)"

definition MergeTwoLists :: "store \<Rightarrow> ptr \<Rightarrow> ptr \<Rightarrow> (store \<times> ptr) option" where
  "MergeTwoLists s l1 l2 =
     (let (dummyHead, s) = new_node s \<lparr>Val = 0, Next = None\<rparr>
      in map_option (\<lambda>s. (s, next_of s dummyHead)) (MergeTwoLists_loop s dummyHead l1 l2))"

text \<open>
  \<open>RemoveNthFromEnd\<close>: the counted loop gives \<open>None\<close> where the code returns \<open>nil\<close> early; the
  second loop moves both pointers.
\<close>

fun RemoveNth_advance :: "store \<Rightarrow> nat \<Rightarrow> ptr \<Rightarrow> ptr option" where
  "RemoveNth_advance s 0 second = Some second"
| "RemoveNth_advance s (Suc k) second =
     (case second of None \<Rightarrow> None | Some a \<Rightarrow> RemoveNth_advance s k (next_of s a))"

partial_function (option) RemoveNth_loop :: "store \<Rightarrow> ptr \<Rightarrow> ptr \<Rightarrow> ptr go option" where
  "RemoveNth_loop s first second =
     (case second of
        None \<Rightarrow> Some (Ok first)
      | Some b \<Rightarrow>
          (case first of
             None \<Rightarrow> Some (Panic NilDeref)
           | Some a \<Rightarrow> RemoveNth_loop s (next_of s a) (next_of s b)))"

definition RemoveNth_unlink :: "store \<Rightarrow> nat \<Rightarrow> ptr \<Rightarrow> (store \<times> ptr) go" where
  "RemoveNth_unlink s dummy first =
     (case first of
        None \<Rightarrow> Panic NilDeref
      | Some a \<Rightarrow>
          (case next_of s a of
             None \<Rightarrow> Panic NilDeref
           | Some b \<Rightarrow> (let s = set_next s a (next_of s b) in Ok (s, next_of s dummy))))"

definition RemoveNthFromEnd :: "store \<Rightarrow> ptr \<Rightarrow> int \<Rightarrow> (store \<times> ptr) go option" where
  "RemoveNthFromEnd s head n =
     (let (dummy, s) = new_node s \<lparr>Val = 0, Next = head\<rparr>
      in case RemoveNth_advance s (nat (n + 1)) (Some dummy) of
           None \<Rightarrow> Some (Ok (s, None))
         | Some second \<Rightarrow>
             map_option (\<lambda>r. go_bind r (RemoveNth_unlink s dummy))
               (RemoveNth_loop s (Some dummy) second))"

partial_function (option) IsPalindrome_loop :: "store \<Rightarrow> ptr \<Rightarrow> ptr \<Rightarrow> bool option" where
  "IsPalindrome_loop s n m =
     (case (n, m) of
        (Some a, Some b) \<Rightarrow>
          if val_of s a \<noteq> val_of s b then Some False
          else IsPalindrome_loop s (next_of s a) (next_of s b)
      | _ \<Rightarrow> Some True)"

definition IsPalindrome :: "store \<Rightarrow> ptr \<Rightarrow> (store \<times> bool) go option" where
  "IsPalindrome s head =
     Option.bind (FindMiddle s head) (\<lambda>r.
       case r of
         Inl e \<Rightarrow> Some (Inl e)
       | Inr middle \<Rightarrow>
           Option.bind (ReverseList s middle) (\<lambda>(s, reverseSecondHalf).
             map_option (\<lambda>b. Ok (s, b)) (IsPalindrome_loop s head reverseSecondHalf)))"

text \<open>A store with the list 1, 2, 1 at the addresses 0, 1, 2, and the same nodes in a cycle.\<close>

definition demo_store :: store where
  "demo_store = \<lparr>cell = (\<lambda>a. if a = 0 then \<lparr>Val = 1, Next = Some 1\<rparr>
      else if a = 1 then \<lparr>Val = 2, Next = Some 2\<rparr> else \<lparr>Val = 1, Next = None\<rparr>), brk = 3\<rparr>"

definition demo_pair :: store where
  "demo_pair = \<lparr>cell = (\<lambda>a. if a = 0 then \<lparr>Val = 1, Next = Some 1\<rparr>
      else if a = 1 then \<lparr>Val = 4, Next = None\<rparr> else \<lparr>Val = 2, Next = None\<rparr>), brk = 3\<rparr>"

lemma demo_list: "list_at demo_store (Some 0) [0, 1, 2]"
  by (simp add: list_at_def next_of_def demo_store_def)

lemma demo_lists: "list_at demo_pair (Some 0) [0, 1]" "list_at demo_pair (Some 2) [2]"
  by (simp_all add: list_at_def next_of_def demo_pair_def)

section \<open>Equations by the shape of the pointers\<close>

lemma ReverseList_loop_simps [simp]:
  "ReverseList_loop s prev None = Some (s, prev)"
  "ReverseList_loop s prev (Some c) = ReverseList_loop (set_next s c prev) (Some c) (next_of s c)"
  by (simp_all add: ReverseList_loop.simps)

lemma FindMiddle_loop_simps [simp]:
  "FindMiddle_loop s None slow = Some (Ok slow)"
  "next_of s f = None \<Longrightarrow> FindMiddle_loop s (Some f) slow = Some (Ok slow)"
  "next_of s f = Some f' \<Longrightarrow>
   FindMiddle_loop s (Some f) (Some t) = FindMiddle_loop s (next_of s f') (next_of s t)"
  by (simp_all add: FindMiddle_loop.simps)

lemma HasCycle_loop_simps [simp]:
  "HasCycle_loop s None slow = Some (Ok False)"
  "next_of s f = None \<Longrightarrow> HasCycle_loop s (Some f) slow = Some (Ok False)"
  "next_of s f = Some f' \<Longrightarrow>
   HasCycle_loop s (Some f) (Some t) =
     (if next_of s f' = next_of s t then Some (Ok True)
      else HasCycle_loop s (next_of s f') (next_of s t))"
  by (simp_all add: HasCycle_loop.simps)

lemma MergeTwoLists_loop_simps [simp]:
  "MergeTwoLists_loop s n None None = Some s"
  "MergeTwoLists_loop s n (Some a) None = Some (set_next s n (Some a))"
  "MergeTwoLists_loop s n None (Some b) = Some (set_next s n (Some b))"
  "MergeTwoLists_loop s n (Some a) (Some b) =
     (if val_of s a < val_of s b
      then MergeTwoLists_loop (set_next s n (Some a)) a (((next_of s)(n := Some a)) a) (Some b)
      else MergeTwoLists_loop (set_next s n (Some b)) b (Some a) (((next_of s)(n := Some b)) b))"
  by (simp_all add: MergeTwoLists_loop.simps)

lemma RemoveNth_loop_simps [simp]:
  "RemoveNth_loop s first None = Some (Ok first)"
  "RemoveNth_loop s None (Some b) = Some (Panic NilDeref)"
  "RemoveNth_loop s (Some a) (Some b) = RemoveNth_loop s (next_of s a) (next_of s b)"
  by (simp_all add: RemoveNth_loop.simps)

lemma IsPalindrome_loop_simps [simp]:
  "IsPalindrome_loop s None m = Some True"
  "IsPalindrome_loop s n None = Some True"
  "IsPalindrome_loop s (Some a) (Some b) =
     (if val_of s a \<noteq> val_of s b then Some False
      else IsPalindrome_loop s (next_of s a) (next_of s b))"
  by (simp_all add: IsPalindrome_loop.simps split: option.splits)

section \<open>Reversal\<close>

lemma ReverseList_loop_chain:
  "chain (next_of s) cur as \<Longrightarrow> chain (next_of s) prev bs \<Longrightarrow> set as \<inter> set bs = {} \<Longrightarrow>
   \<exists>s' p. ReverseList_loop s prev cur = Some (s', p) \<and> chain (next_of s') p (rev as @ bs) \<and>
     val_of s' = val_of s \<and> brk s' = brk s \<and> (\<forall>a. a \<notin> set as \<longrightarrow> next_of s' a = next_of s a)"
proof (induction as arbitrary: s cur prev bs)
  case (Cons a as)
  let ?s = "set_next s a prev"
  from Cons.prems have "a \<notin> set as" using chain_distinct by fastforce
  with Cons.prems have "chain (next_of ?s) (next_of s a) as" "chain (next_of ?s) (Some a) (a # bs)"
    by auto
  from Cons.IH [OF this] Cons.prems \<open>a \<notin> set as\<close> show ?case
    by auto
qed simp

lemma ReverseListRecursive_chain:
  "chain (next_of s) head as \<Longrightarrow>
   \<exists>s' p. ReverseListRecursive s head = Some (Ok (s', p)) \<and> chain (next_of s') p (rev as) \<and>
     val_of s' = val_of s \<and> brk s' = brk s \<and> (\<forall>a. a \<notin> set as \<longrightarrow> next_of s' a = next_of s a)"
proof (induction as arbitrary: head rule: induct_list012)
  case (3 a b as)
  from chain_distinct [OF 3(3)] have "a \<notin> set (b # as)" by simp
  from 3(3) have "chain (next_of s) (Some b) (b # as)" by simp
  from 3(2) [OF this] obtain s' p where rec: "ReverseListRecursive s (Some b) = Some (Ok (s', p))"
    and c: "chain (next_of s') p (rev (b # as))" "val_of s' = val_of s" "brk s' = brk s"
    and frame: "\<forall>x. x \<notin> set (b # as) \<longrightarrow> next_of s' x = next_of s x"
    by blast
  let ?t = "set_next (set_next s' b (Some a)) a None"
  have "ReverseListRecursive s head = Some (Ok (?t, p))"
    using 3 rec frame \<open>a \<notin> set (b # as)\<close> by (subst ReverseListRecursive.simps) auto
  moreover have "chain (next_of ?t) p (rev (a # b # as))"
    using c \<open>a \<notin> set (b # as)\<close> chain_distinct [OF c(1)] by (auto simp: seg_append)
  ultimately show ?case using c frame by auto
qed (auto simp: ReverseListRecursive.simps)

definition reversed_list :: "store \<Rightarrow> nat list \<Rightarrow> store \<Rightarrow> ptr \<Rightarrow> bool" where
  "reversed_list s as s' p \<longleftrightarrow> list_at s' p (rev as) \<and> val_of s' = val_of s \<and> brk s' = brk s \<and>
     (\<forall>a. a \<notin> set as \<longrightarrow> next_of s' a = next_of s a)"

text \<open>
  C27: both \<open>ReverseList\<close> and \<open>ReverseListRecursive\<close> return on every list that ends, the recursive
  one without a nil dereference; the result is the list of the same nodes in reverse order, no value
  changes and no pointer outside the list changes.
\<close>

theorem ReverseList_reverses:
  assumes "list_at s head as"
  shows "(\<exists>s' p. ReverseList s head = Some (s', p) \<and> reversed_list s as s' p) \<and>
    (\<exists>s' p. ReverseListRecursive s head = Some (Ok (s', p)) \<and> reversed_list s as s' p)"
  using ReverseList_loop_chain [of s head as None "[]"] ReverseListRecursive_chain [of s head as] assms
  by (auto simp: ReverseList_def list_at_def reversed_list_def)

theorem ReverseList_reverses_witness:
  "\<exists>s' p. ReverseListRecursive demo_store (Some 0) = Some (Ok (s', p)) \<and> list_at s' p [2, 1, 0]"
  using ReverseList_reverses [OF demo_list] by (auto simp: reversed_list_def)

section \<open>Fast and slow pointers\<close>

lemma FindMiddle_loop_chain:
  "chain (next_of s) fast as \<Longrightarrow> chain (next_of s) slow bs \<Longrightarrow> length as \<le> length bs \<Longrightarrow>
   FindMiddle_loop s fast slow = Some (Ok (walk (next_of s) slow (length as div 2)))"
proof (induction as arbitrary: fast slow bs rule: induct_list012)
  case (3 a b as)
  then obtain t bs' where bs: "bs = t # bs'" by (cases bs) auto
  with 3 have "FindMiddle_loop s (next_of s b) (next_of s t) =
      Some (Ok (walk (next_of s) (next_of s t) (length as div 2)))"
    by (intro 3(1) [of _ _ bs']) auto
  with 3 bs show ?case by (auto simp: funpow_swap1)
qed auto

lemma FindMiddle_list:
  "list_at s head as \<Longrightarrow>
   FindMiddle s head = Some (Ok (if as = [] then None else Some (as ! (length as div 2))))"
  using FindMiddle_loop_chain [of s head as head as]
  by (auto simp: FindMiddle_def list_at_def walk_chain)

text \<open>
  \<open>FindMiddle\<close> returns the node at half the length, the second of two middle nodes, and nil
  on the empty list.
\<close>

theorem FindMiddle_middle:
  assumes "list_at s head as"
  shows "FindMiddle s head = Some (Ok (if as = [] then None else Some (as ! (length as div 2))))"
  using FindMiddle_list [OF assms] .

theorem FindMiddle_middle_witness: "FindMiddle demo_store (Some 0) = Some (Ok (Some 1))"
  using FindMiddle_middle [OF demo_list] by simp

text \<open>
  \<open>HasCycle\<close>. On a list that ends, the fast pointer stays strictly ahead of the slow one. On a
  cyclic list neither pointer is ever nil, and they meet at the least positive \<open>n\<close> for which the
  nodes at \<open>n\<close> and \<open>2 * n\<close> are the same.
\<close>

lemma HasCycle_loop_chain:
  "chain (next_of s) fast as \<Longrightarrow> chain (next_of s) slow bs \<Longrightarrow> length as \<le> length bs \<Longrightarrow>
   HasCycle_loop s fast slow = Some (Ok False)"
proof (induction as arbitrary: fast slow bs rule: induct_list012)
  case (3 a b as)
  then obtain t bs' where bs: "bs = t # bs'" by (cases bs) auto
  from 3(3,4) bs have c: "chain (next_of s) (next_of s b) as" "chain (next_of s) (next_of s t) bs'"
    by auto
  have "next_of s b \<noteq> next_of s t"
  proof
    assume "next_of s b = next_of s t"
    with c have "as = bs'" using chain_unique by metis
    with 3(5) bs show False by simp
  qed
  moreover have "HasCycle_loop s (next_of s b) (next_of s t) = Some (Ok False)"
    using c 3(5) bs by (intro 3(1) [of _ _ bs']) auto
  ultimately show ?case using 3(3,4) bs by auto
qed auto

lemma HasCycle_loop_cyclic:
  assumes cyc: "\<And>n. walk (next_of s) p n \<noteq> None" and meet: "walk (next_of s) p (2 * m) = walk (next_of s) p m"
  shows "k < m \<Longrightarrow> HasCycle_loop s (walk (next_of s) p (2 * k)) (walk (next_of s) p k) = Some (Ok True)"
proof (induction "m - k" arbitrary: k rule: less_induct)
  case less
  let ?w = "walk (next_of s) p"
  obtain f f' t where f: "?w (2 * k) = Some f" "?w (Suc (2 * k)) = Some f'" and t: "?w k = Some t"
    using cyc by (metis not_None_eq)
  have nx: "next_of s f = Some f'" "next_of s f' = ?w (2 * Suc k)" "next_of s t = ?w (Suc k)"
    using f t by auto
  have unfold: "HasCycle_loop s (?w (2 * k)) (?w k) =
      (if ?w (2 * Suc k) = ?w (Suc k) then Some (Ok True)
       else HasCycle_loop s (?w (2 * Suc k)) (?w (Suc k)))"
    unfolding f(1) t HasCycle_loop_simps(3) [OF nx(1)] nx(2,3) by (rule refl)
  show ?case
  proof (cases "?w (2 * Suc k) = ?w (Suc k)")
    case False
    with meet less.prems have "Suc k < m" by (metis Suc_lessI)
    then have "HasCycle_loop s (?w (2 * Suc k)) (?w (Suc k)) = Some (Ok True)"
      by (rule less.hyps [rotated]) (use \<open>Suc k < m\<close> in simp)
    with False show ?thesis unfolding unfold by simp
  qed (simp add: unfold)
qed

definition wf_store :: "store \<Rightarrow> ptr \<Rightarrow> bool" where
  "wf_store s p \<longleftrightarrow> (\<forall>a<brk s. \<forall>b. next_of s a = Some b \<longrightarrow> b < brk s) \<and> (\<forall>a. p = Some a \<longrightarrow> a < brk s)"

text \<open>
  C25: on any list in a store of finitely many nodes \<open>HasCycle\<close> returns without a nil dereference,
  and it answers whether some node is reached twice.
\<close>

theorem HasCycle_decides:
  assumes "wf_store s head"
  shows "HasCycle s head = Some (Ok (cyclic (next_of s) head))"
proof -
  have bound: "a < brk s" if "walk (next_of s) head n = Some a" for n a
    using that
    by (rule walk_below [of "brk s" "next_of s" head n, rotated 2]) (use assms in \<open>auto simp: wf_store_def\<close>)
  have "cyclic (next_of s) head \<or> (\<exists>as. chain (next_of s) head as)"
    by (rule bounded_cyclic_or_chain [of "next_of s" head "brk s"]) (rule bound)
  then show ?thesis
  proof (elim disjE exE)
    assume cyc: "cyclic (next_of s) head"
    from cyclic_meets [OF this] obtain m where
      "0 < m" "walk (next_of s) head (2 * m) = walk (next_of s) head m" by blast
    with HasCycle_loop_cyclic [of s head m 0] cyclic_not_None [OF cyc] cyc show ?thesis
      by (simp add: HasCycle_def)
  next
    fix as assume "chain (next_of s) head as"
    with HasCycle_loop_chain chain_not_cyclic show ?thesis by (auto simp: HasCycle_def)
  qed
qed

theorem HasCycle_decides_witness:
  "HasCycle (set_next demo_store 2 (Some 1)) (Some 0) = Some (Ok True)"
proof -
  let ?s = "set_next demo_store 2 (Some 1)"
  have "wf_store ?s (Some 0)"
    by (auto simp: wf_store_def next_of_def demo_store_def split: if_splits)
  moreover have "cyclic (next_of ?s) (Some 0)"
    unfolding cyclic_def
    by (intro exI [of _ 1] exI [of _ 3]) (simp add: next_of_def demo_store_def eval_nat_numeral)
  ultimately show ?thesis using HasCycle_decides [of ?s "Some 0"] by simp
qed

section \<open>Merging\<close>

text \<open>
  The order in which \<open>MergeTwoLists\<close> links the nodes: on equal values the node of the second list
  comes first.
\<close>

fun merge_nodes :: "(nat \<Rightarrow> int) \<Rightarrow> nat list \<Rightarrow> nat list \<Rightarrow> nat list" where
  "merge_nodes v (a # as) (b # bs) =
     (if v a < v b then a # merge_nodes v as (b # bs) else b # merge_nodes v (a # as) bs)"
| "merge_nodes v [] bs = bs"
| "merge_nodes v as [] = as"

lemma mset_merge_nodes: "mset (merge_nodes v as bs) = mset as + mset bs"
  by (induction v as bs rule: merge_nodes.induct) auto

lemma set_merge_nodes: "set (merge_nodes v as bs) = set as \<union> set bs"
  by (metis mset_merge_nodes set_mset_mset set_mset_union)

lemma sorted_merge_nodes:
  "sorted (map v as) \<Longrightarrow> sorted (map v bs) \<Longrightarrow> sorted (map v (merge_nodes v as bs))"
  by (induction v as bs rule: merge_nodes.induct) (auto simp: set_merge_nodes)

lemma MergeTwoLists_loop_chain:
  "seg (next_of s) (Some d) pre (Some n) \<Longrightarrow> chain (next_of s) l1 as \<Longrightarrow> chain (next_of s) l2 bs \<Longrightarrow>
   distinct (pre @ n # as @ bs) \<Longrightarrow> (as = [] \<Longrightarrow> bs = [] \<Longrightarrow> next_of s n = None) \<Longrightarrow>
   \<exists>s'. MergeTwoLists_loop s n l1 l2 = Some s' \<and> val_of s' = val_of s \<and> brk s' = brk s \<and>
     chain (next_of s') (Some d) (pre @ n # merge_nodes (val_of s) as bs)"
proof (induction "val_of s" as bs arbitrary: s pre n l1 l2 rule: merge_nodes.induct)
  case (1 a as b bs)
  from 1(4,5) have l: "l1 = Some a" "l2 = Some b" by auto
  show ?case
  proof (cases "val_of s a < val_of s b")
    case True
    let ?s = "set_next s n l1"
    from 1(3-7) l have "seg (next_of ?s) (Some d) (pre @ [n]) (Some a)"
      "chain (next_of ?s) (next_of ?s a) as" "chain (next_of ?s) l2 (b # bs)"
      by (auto simp: seg_append)
    from 1(1) [OF True _ this] 1(6) l True show ?thesis by auto
  next
    case False
    let ?s = "set_next s n l2"
    from 1(3-7) l have "seg (next_of ?s) (Some d) (pre @ [n]) (Some b)"
      "chain (next_of ?s) l1 (a # as)" "chain (next_of ?s) (next_of ?s b) bs"
      by (auto simp: seg_append)
    from 1(2) [OF False _ this] 1(6) l False show ?thesis by auto
  qed
next
  case (2 bs)
  then show ?case by (cases bs) (auto simp: seg_append)
next
  case (3 a as)
  then show ?case by (auto simp: seg_append)
qed

text \<open>
  C26: merging two sorted lists without a common node gives one sorted list of exactly the nodes of
  both.
\<close>

theorem MergeTwoLists_merges:
  assumes "list_at s l1 as" "list_at s l2 bs" "set as \<inter> set bs = {}"
    and "sorted (map (val_of s) as)" "sorted (map (val_of s) bs)"
  shows "\<exists>s' p cs. MergeTwoLists s l1 l2 = Some (s', p) \<and> list_at s' p cs \<and>
    mset cs = mset as + mset bs \<and> sorted (map (val_of s') cs) \<and> (\<forall>a\<in>set cs. val_of s' a = val_of s a)"
proof -
  obtain d t where new: "new_node s \<lparr>Val = 0, Next = None\<rparr> = (d, t)" by (cases "new_node s \<lparr>Val = 0, Next = None\<rparr>")
  then have d: "d = brk s" "next_of t = (next_of s)(d := None)" "val_of t = (val_of s)(d := 0)" "brk t = Suc d"
    using new_node_simps [of s "\<lparr>Val = 0, Next = None\<rparr>"] by auto
  have fresh: "d \<notin> set as" "d \<notin> set bs" using assms(1,2) d(1) by (auto simp: list_at_def)
  let ?cs = "merge_nodes (val_of t) as bs"
  have "\<exists>s'. MergeTwoLists_loop t d l1 l2 = Some s' \<and> val_of s' = val_of t \<and> brk s' = brk t \<and>
      chain (next_of s') (Some d) ([] @ d # ?cs)"
    using assms(1-3) fresh d chain_distinct
    by (intro MergeTwoLists_loop_chain) (auto simp: list_at_def)
  then obtain s' where s': "MergeTwoLists_loop t d l1 l2 = Some s'" "val_of s' = val_of t" "brk s' = brk t"
    "chain (next_of s') (next_of s' d) ?cs" by auto
  have "map (val_of t) as = map (val_of s) as" "map (val_of t) bs = map (val_of s) bs"
    using fresh d(3) by auto
  with assms(4,5) have "sorted (map (val_of t) ?cs)" by (intro sorted_merge_nodes) (simp_all only:)
  with s' d fresh assms(1,2) show ?thesis
    by (intro exI [of _ s'] exI [of _ "next_of s' d"] exI [of _ ?cs])
       (auto simp: MergeTwoLists_def new list_at_def mset_merge_nodes set_merge_nodes)
qed

theorem MergeTwoLists_merges_witness:
  "\<exists>s' p cs. MergeTwoLists demo_pair (Some 0) (Some 2) = Some (s', p) \<and> list_at s' p cs \<and>
    mset cs = {#0, 1, 2#} \<and> sorted (map (val_of s') cs)"
  using MergeTwoLists_merges [OF demo_lists] by (auto simp: val_of_def demo_pair_def add_mset_commute)

section \<open>Removing the n-th node from the end\<close>

lemma RemoveNth_advance_chain:
  "chain (next_of s) p cs \<Longrightarrow>
   RemoveNth_advance s k p = (if k \<le> length cs then Some (walk (next_of s) p k) else None)"
proof (induction k arbitrary: p cs)
  case (Suc k)
  show ?case
  proof (cases cs)
    case (Cons c cs')
    with Suc.prems Suc.IH [of "next_of s c" cs'] show ?thesis by (auto simp: funpow_swap1)
  qed (use Suc.prems in auto)
qed simp

lemma RemoveNth_loop_chain:
  "chain (next_of s) first cs \<Longrightarrow> chain (next_of s) second bs \<Longrightarrow> length bs \<le> length cs \<Longrightarrow>
   RemoveNth_loop s first second = Some (Ok (walk (next_of s) first (length bs)))"
proof (induction bs arbitrary: first second cs)
  case (Cons b bs)
  then obtain a cs' where "cs = a # cs'" by (cases cs) auto
  with Cons.prems Cons.IH [of "next_of s a" cs' "next_of s b"] show ?case
    by (auto simp: funpow_swap1)
qed simp

lemma chain_walk_drop: "chain f p cs \<Longrightarrow> chain f (walk f p k) (drop k cs)"
proof (induction k arbitrary: p cs)
  case (Suc k)
  then show ?case by (cases cs) (auto simp: funpow_swap1)
qed simp

text \<open>The new store with the dummy node in front of the list.\<close>

lemma RemoveNthFromEnd_dummy:
  assumes "list_at s head as"
  obtains t where "new_node s \<lparr>Val = 0, Next = head\<rparr> = (brk s, t)" "brk t = Suc (brk s)"
    "chain (next_of t) (Some (brk s)) (brk s # as)" "\<forall>a\<in>set as. val_of t a = val_of s a"
proof -
  obtain t where "new_node s \<lparr>Val = 0, Next = head\<rparr> = (brk s, t)"
    by (metis new_node_simps(4) prod.collapse)
  moreover have "brk s \<notin> set as" using assms by (auto simp: list_at_def)
  ultimately show thesis
    using that assms new_node_simps [of s "\<lparr>Val = 0, Next = head\<rparr>"] by (auto simp: list_at_def)
qed

text \<open>
  C28: for every \<open>n\<close> from one to the length, \<open>RemoveNthFromEnd\<close> unlinks exactly the n-th node from the
  end and keeps the order and the values of the others.
\<close>

theorem RemoveNthFromEnd_removes:
  assumes list: "list_at s head as" and n: "0 < n" "n \<le> length as"
  shows "\<exists>s' p. RemoveNthFromEnd s head (int n) = Some (Ok (s', p)) \<and>
    list_at s' p (take (length as - n) as @ drop (Suc (length as - n)) as) \<and>
    (\<forall>a\<in>set as. val_of s' a = val_of s a)"
proof -
  let ?d = "brk s" and ?m = "length as - n"
  obtain t where new: "new_node s \<lparr>Val = 0, Next = head\<rparr> = (?d, t)" "brk t = Suc ?d"
    and c: "chain (next_of t) (Some ?d) (?d # as)" and v: "\<forall>a\<in>set as. val_of t a = val_of s a"
    using list by (rule RemoveNthFromEnd_dummy)
  have "chain (next_of t) (walk (next_of t) (Some ?d) (Suc n)) (drop n as)"
    using chain_walk_drop [OF c, of "Suc n"] by simp
  from RemoveNth_loop_chain [OF c this] n
  have loop: "RemoveNth_loop t (Some ?d) (walk (next_of t) (Some ?d) (Suc n)) =
      Some (Ok (Some ((?d # as) ! ?m)))"
    using walk_chain [OF c, of ?m] by simp
  have advance: "RemoveNth_advance t (Suc n) (Some ?d) = Some (walk (next_of t) (Some ?d) (Suc n))"
    using n by (subst RemoveNth_advance_chain [OF c]) simp
  let ?a = "(?d # as) ! ?m" and ?b = "as ! ?m"
  have split: "?d # as = take ?m (?d # as) @ ?a # ?b # drop (Suc ?m) as"
    using id_take_nth_drop [of ?m "?d # as"] id_take_nth_drop [of ?m as] n
    by (metis Cons_nth_drop_Suc diff_less drop_Suc_Cons length_Cons less_SucI less_le_trans)
  with c have "chain (next_of t) (Some ?d) (take ?m (?d # as) @ ?a # ?b # drop (Suc ?m) as)" by metis
  from chain_unlink [OF this]
  have "chain ((next_of t)(?a := next_of t ?b)) (Some ?d) (take ?m (?d # as) @ ?a # drop (Suc ?m) as)" .
  moreover have "take ?m (?d # as) @ [?a] = ?d # take ?m as"
    using n by (simp flip: take_Suc_conv_app_nth add: take_Suc_Cons)
  ultimately have c': "chain ((next_of t)(?a := next_of t ?b)) (Some ?d) (?d # take ?m as @ drop (Suc ?m) as)"
    by (metis append.assoc append_Cons append_Nil)
  have "next_of t ?a = Some ?b"
    using chain_nth_next [OF c, of ?m] n by simp
  with loop advance c' v new list show ?thesis
    by (auto simp: RemoveNthFromEnd_def RemoveNth_unlink_def list_at_def nat_add_distrib
        dest: in_set_takeD in_set_dropD intro: less_SucI)
qed

theorem RemoveNthFromEnd_removes_witness:
  "\<exists>s' p. RemoveNthFromEnd demo_store (Some 0) 2 = Some (Ok (s', p)) \<and> list_at s' p [0, 2]"
  using RemoveNthFromEnd_removes [OF demo_list, of 2] by (auto simp: eval_nat_numeral)

text \<open>
  Outside that range the answer is not the list: an \<open>n\<close> above the length gives nil and an \<open>n\<close> of
  zero or less dereferences nil.
\<close>

theorem RemoveNthFromEnd_out_of_range:
  assumes list: "list_at s head as"
  shows "(int (length as) < n \<longrightarrow> (\<exists>s'. RemoveNthFromEnd s head n = Some (Ok (s', None)))) \<and>
    (n \<le> 0 \<longrightarrow> RemoveNthFromEnd s head n = Some (Panic NilDeref))"
proof -
  let ?d = "brk s"
  obtain t where new: "new_node s \<lparr>Val = 0, Next = head\<rparr> = (?d, t)"
    and c: "chain (next_of t) (Some ?d) (?d # as)"
    using list by (rule RemoveNthFromEnd_dummy)
  have "RemoveNth_advance t (nat (n + 1)) (Some ?d) = None" if "int (length as) < n"
    using that by (subst RemoveNth_advance_chain [OF c]) auto
  moreover have "RemoveNthFromEnd s head n = Some (Panic NilDeref)" if "n \<le> 0"
  proof (cases "n = 0")
    case True
    have "RemoveNth_loop t (Some ?d) (next_of t ?d) = Some (Ok (walk (next_of t) (Some ?d) (length as)))"
      using RemoveNth_loop_chain [OF c, of "next_of t ?d" as] c by simp
    moreover have "walk (next_of t) (Some ?d) (length as) = Some ((?d # as) ! length as)"
      using walk_chain [OF c, of "length as"] by simp
    moreover have "next_of t ((?d # as) ! length as) = None"
      using chain_nth_next [OF c, of "length as"] by simp
    ultimately show ?thesis
      using True new by (simp add: RemoveNthFromEnd_def RemoveNth_unlink_def)
  next
    case False
    with that have "nat (n + 1) = 0" by simp
    moreover have "RemoveNth_loop t (Some ?d) (Some ?d) = Some (Ok None)"
      using RemoveNth_loop_chain [OF c c] walk_chain [OF c, of "Suc (length as)"] by simp
    ultimately show ?thesis
      using new by (simp add: RemoveNthFromEnd_def RemoveNth_unlink_def)
  qed
  ultimately show ?thesis using new by (simp add: RemoveNthFromEnd_def)
qed

theorem RemoveNthFromEnd_out_of_range_witness:
  "(\<exists>s'. RemoveNthFromEnd demo_store (Some 0) 4 = Some (Ok (s', None))) \<and>
   RemoveNthFromEnd demo_store (Some 0) 0 = Some (Panic NilDeref)"
  using RemoveNthFromEnd_out_of_range [OF demo_list, of 4]
    RemoveNthFromEnd_out_of_range [OF demo_list, of 0] by auto

section \<open>Palindromes\<close>

lemma IsPalindrome_loop_chain:
  "chain (next_of s) n as \<Longrightarrow> chain (next_of s) m bs \<Longrightarrow>
   IsPalindrome_loop s n m = Some (\<forall>(a, b) \<in> set (zip as bs). val_of s a = val_of s b)"
proof (induction as arbitrary: n m bs)
  case (Cons a as)
  show ?case
  proof (cases bs)
    case (Cons b bs')
    with Cons.IH [of "next_of s a" "next_of s b" bs'] Cons.prems show ?thesis by auto
  qed (use Cons.prems in auto)
qed simp

lemma palindrome_halves:
  assumes "m = length xs div 2"
  shows "(\<forall>(x, y) \<in> set (zip (take (Suc m) xs) (rev (drop m xs))). x = y) \<longleftrightarrow> xs = rev xs"
    (is "?lhs \<longleftrightarrow> _")
proof
  let ?n = "length xs"
  assume ?lhs
  have half: "xs ! i = xs ! (?n - Suc i)" if "i < ?n - m" for i
  proof -
    from that assms have "(xs ! i, xs ! (?n - Suc i)) \<in> set (zip (take (Suc m) xs) (rev (drop m xs)))"
      by (auto simp: in_set_zip rev_nth intro!: exI [of _ i])
    with \<open>?lhs\<close> show ?thesis by auto
  qed
  show "xs = rev xs"
  proof (rule nth_equalityI)
    fix i assume "i < ?n"
    show "xs ! i = rev xs ! i"
    proof (cases "i < ?n - m")
      case False
      with \<open>i < ?n\<close> assms have "?n - Suc i < ?n - m" by linarith
      from half [OF this] \<open>i < ?n\<close> show ?thesis by (simp add: rev_nth)
    qed (use half \<open>i < ?n\<close> in \<open>simp add: rev_nth\<close>)
  qed simp
next
  assume "xs = rev xs"
  then have "xs ! i = rev xs ! i" for i by (rule arg_cong)
  then have pal: "xs ! i = xs ! (length xs - Suc i)" if "i < length xs" for i
    using that by (simp only: rev_nth)
  show ?lhs
  proof
    fix q assume "q \<in> set (zip (take (Suc m) xs) (rev (drop m xs)))"
    then obtain i where "i < length xs" "i < length xs - m" "i < Suc m"
      "fst q = xs ! i" "snd q = xs ! (m + (length xs - m - Suc i))"
      by (auto simp: in_set_zip rev_nth)
    with pal [of i] show "case q of (x, y) \<Rightarrow> x = y" by (simp add: split_beta)
  qed
qed

text \<open>
  C29: \<open>IsPalindrome\<close> answers whether the values read the same backwards, and it leaves the list
  cut after its middle node.
\<close>

theorem IsPalindrome_decides:
  assumes "list_at s head as"
  shows "\<exists>s'. IsPalindrome s head = Some (Ok (s', map (val_of s) as = rev (map (val_of s) as))) \<and>
    list_at s' head (take (Suc (length as div 2)) as)"
proof -
  let ?m = "length as div 2"
  let ?mid = "if as = [] then None else Some (as ! ?m)"
  from assms have c: "chain (next_of s) head as" by (simp add: list_at_def)
  have "chain (next_of s) ?mid (drop ?m as)"
    using chain_walk_drop [OF c, of ?m] walk_chain [OF c, of ?m] by auto
  from ReverseList_loop_chain [OF this, of None "[]"] obtain s' p where
    rev: "ReverseList s ?mid = Some (s', p)" "chain (next_of s') p (rev (drop ?m as))"
    and keep: "val_of s' = val_of s" "brk s' = brk s"
    and frame: "\<forall>a. a \<notin> set (drop ?m as) \<longrightarrow> next_of s' a = next_of s a"
    by (auto simp: ReverseList_def)
  have c': "chain (next_of s') head (take (Suc ?m) as)"
  proof (cases "as = []")
    case False
    then have m: "?m < length as" by (simp add: div_less_dividend)
    have "seg (next_of s) head (take ?m as) (Some (as ! ?m))"
      using c id_take_nth_drop [OF m] by (metis seg.simps(2) seg_append)
    moreover have "next_of s' a = next_of s a" if "a \<in> set (take ?m as)" for a
      using that frame chain_distinct [OF c] by (metis set_take_disj_set_drop_if_distinct disjoint_iff order_refl)
    ultimately have "seg (next_of s') head (take ?m as) (Some (as ! ?m))"
      using seg_cong by metis
    moreover have "next_of s' (as ! ?m) = None"
      using rev(2) m by (simp flip: Cons_nth_drop_Suc add: seg_append)
    ultimately show ?thesis using m by (simp add: take_Suc_conv_app_nth seg_append)
  qed (use c in simp)
  have "IsPalindrome_loop s' head p =
      Some (\<forall>(a, b) \<in> set (zip (take (Suc ?m) as) (rev (drop ?m as))). val_of s a = val_of s b)"
    using IsPalindrome_loop_chain [OF c' rev(2)] keep by simp
  also have "(\<forall>(a, b) \<in> set (zip (take (Suc ?m) as) (rev (drop ?m as))). val_of s a = val_of s b) \<longleftrightarrow>
      (\<forall>(x, y) \<in> set (zip (take (Suc ?m) (map (val_of s) as)) (rev (drop ?m (map (val_of s) as)))). x = y)"
    by (simp add: take_map drop_map rev_map zip_map_map split_beta)
  also have "\<dots> \<longleftrightarrow> map (val_of s) as = rev (map (val_of s) as)"
    by (rule palindrome_halves) simp
  finally show ?thesis
    using assms FindMiddle_list [OF assms] rev c' keep
    by (auto simp: IsPalindrome_def list_at_def dest: in_set_takeD)
qed

theorem IsPalindrome_decides_witness:
  "\<exists>s'. IsPalindrome demo_store (Some 0) = Some (Ok (s', True)) \<and> list_at s' (Some 0) [0, 1]"
  using IsPalindrome_decides [OF demo_list] by (auto simp: val_of_def demo_store_def)

end
