(* ===== verification/SearchTree.thy ===== *)
theory SearchTree
  imports GoPrelude
begin

text \<open>
  \<open>data-structures/bst.go\<close>. A node is reached through one pointer only and its children are
  replaced in place, so a subtree is a value: an operation that changes nodes returns the changed
  subtree. \<open>rand.Intn(2)\<close> is a sequence of numbers, \<open>coin k\<close> for the k-th call; the operations
  that draw return the number of calls made so far. Values are only compared.
\<close>

section \<open>State\<close>

datatype TreeNode = NilNode | TreeNode (Left: TreeNode) (Val: int) (Right: TreeNode)

record BST =
  root :: TreeNode

definition NewBST :: BST where
  "NewBST = \<lparr>root = NilNode\<rparr>"

section \<open>Operations\<close>

fun doInsert :: "TreeNode \<Rightarrow> int \<Rightarrow> TreeNode \<times> bool" where
  "doInsert NilNode val = (TreeNode NilNode val NilNode, True)"
| "doInsert (TreeNode l x r) val =
     (if val = x then (TreeNode l x r, False)
      else if val < x then
        (if l = NilNode then (TreeNode (TreeNode NilNode val NilNode) x r, True)
         else let (l', inserted) = doInsert l val in (TreeNode l' x r, inserted))
      else
        (if r = NilNode then (TreeNode l x (TreeNode NilNode val NilNode), True)
         else let (r', inserted) = doInsert r val in (TreeNode l x r', inserted)))"

definition BST_Insert :: "BST \<Rightarrow> int \<Rightarrow> bool \<times> BST" where
  "BST_Insert bst val = (let (n, inserted) = doInsert (root bst) val in (inserted, bst\<lparr>root := n\<rparr>))"

fun doSearch :: "TreeNode \<Rightarrow> int \<Rightarrow> bool" where
  "doSearch NilNode val = False"
| "doSearch (TreeNode l x r) val =
     (if x = val then True
      else if val < x then doSearch l val
      else if x < val then doSearch r val
      else False)"

definition BST_Search :: "BST \<Rightarrow> int \<Rightarrow> bool" where
  "BST_Search bst val = doSearch (root bst) val"

fun leftmost :: "TreeNode \<Rightarrow> TreeNode" where
  "leftmost NilNode = NilNode"
| "leftmost (TreeNode l x r) = (if l = NilNode then TreeNode l x r else leftmost l)"

fun rightmost :: "TreeNode \<Rightarrow> TreeNode" where
  "rightmost NilNode = NilNode"
| "rightmost (TreeNode l x r) = (if r = NilNode then TreeNode l x r else rightmost r)"

definition BST_successor :: "TreeNode \<Rightarrow> TreeNode" where
  "BST_successor n = (if n = NilNode \<or> Right n = NilNode then NilNode else leftmost (Right n))"

definition BST_predecessor :: "TreeNode \<Rightarrow> TreeNode" where
  "BST_predecessor n = (if n = NilNode \<or> Left n = NilNode then NilNode else rightmost (Left n))"

text \<open>
  \<open>hibbardDelete\<close> is called on a node that is not nil, given by its fields. Its recursive calls
  delete the value of the successor or the predecessor from a child.
\<close>

function hibbardDelete :: "(nat \<Rightarrow> nat) \<Rightarrow> nat \<Rightarrow> TreeNode \<Rightarrow> int \<Rightarrow> TreeNode \<Rightarrow> TreeNode \<times> nat"
  and deleteHelper :: "(nat \<Rightarrow> nat) \<Rightarrow> nat \<Rightarrow> TreeNode \<Rightarrow> int \<Rightarrow> TreeNode \<times> nat" where
  "hibbardDelete coin k l x r =
     (if coin k = 0 then
        (if r \<noteq> NilNode then
           (let suc = BST_successor (TreeNode l x r);
                (r', k') = deleteHelper coin (Suc k) r (Val suc)
            in (TreeNode l (Val suc) r', k'))
         else if l \<noteq> NilNode then
           (let pred = BST_predecessor (TreeNode l x r);
                (l', k') = deleteHelper coin (Suc k) l (Val pred)
            in (TreeNode l' (Val pred) r, k'))
         else (NilNode, Suc k))
      else
        (if l \<noteq> NilNode then
           (let pred = BST_predecessor (TreeNode l x r);
                (l', k') = deleteHelper coin (Suc k) l (Val pred)
            in (TreeNode l' (Val pred) r, k'))
         else if r \<noteq> NilNode then
           (let suc = BST_successor (TreeNode l x r);
                (r', k') = deleteHelper coin (Suc k) r (Val suc)
            in (TreeNode l (Val suc) r', k'))
         else (NilNode, Suc k)))"
| "deleteHelper coin k NilNode val = (NilNode, k)"
| "deleteHelper coin k (TreeNode l x r) val =
     (if val < x then let (l', k') = deleteHelper coin k l val in (TreeNode l' x r, k')
      else if val = x then
        (if l = NilNode \<and> r = NilNode then (NilNode, k)
         else if l = NilNode then (r, k)
         else if r = NilNode then (l, k)
         else hibbardDelete coin k l x r)
      else let (r', k') = deleteHelper coin k r val in (TreeNode l x r', k'))"
  by pat_completeness auto
termination
  by (relation "measure (\<lambda>a. case a of
        Inl (coin, k, l, x, r) \<Rightarrow> 2 * (size l + size r) + 1
      | Inr (coin, k, n, val) \<Rightarrow> 2 * size n)") auto

definition BST_Delete :: "(nat \<Rightarrow> nat) \<Rightarrow> nat \<Rightarrow> BST \<Rightarrow> int \<Rightarrow> bool \<times> BST \<times> nat" where
  "BST_Delete coin k bst val =
     (if \<not> BST_Search bst val then (False, bst, k)
      else let (n, k') = deleteHelper coin k (root bst) val in (True, bst\<lparr>root := n\<rparr>, k'))"

fun inOrderHelperRecursive :: "TreeNode \<Rightarrow> int list \<Rightarrow> int list" where
  "inOrderHelperRecursive NilNode result = result"
| "inOrderHelperRecursive (TreeNode l x r) result =
     (let result = (if l \<noteq> NilNode then inOrderHelperRecursive l result else result);
          result = result @ [x]
      in if r \<noteq> NilNode then inOrderHelperRecursive r result else result)"

definition BST_InOrder :: "BST \<Rightarrow> int list" where
  "BST_InOrder bst = inOrderHelperRecursive (root bst) []"

text \<open>The loop with an explicit stack; the top of the stack is the end of the list.\<close>

fun pushLeft :: "TreeNode list \<Rightarrow> TreeNode \<Rightarrow> TreeNode list" where
  "pushLeft stack NilNode = stack"
| "pushLeft stack (TreeNode l x r) = pushLeft (stack @ [TreeNode l x r]) l"

definition stack_nodes :: "TreeNode list \<Rightarrow> nat" where
  "stack_nodes stack = sum_list (map (\<lambda>n. Suc (size (Right n))) stack)"

lemma stack_nodes_simps [simp]:
  "stack_nodes [] = 0" "stack_nodes (xs @ ys) = stack_nodes xs + stack_nodes ys"
  "stack_nodes (n # xs) = Suc (size (Right n)) + stack_nodes xs"
  by (simp_all add: stack_nodes_def)

lemma stack_nodes_pushLeft: "stack_nodes (pushLeft stack n) = stack_nodes stack + size n"
  by (induction stack n rule: pushLeft.induct) auto

lemma pushLeft_Nil_iff: "pushLeft stack n = [] \<longleftrightarrow> stack = [] \<and> n = NilNode"
  by (induction stack n rule: pushLeft.induct) auto

function inOrder_stackLoop :: "TreeNode \<Rightarrow> TreeNode list \<Rightarrow> int list \<Rightarrow> int list" where
  "inOrder_stackLoop cur stack result =
     (if cur \<noteq> NilNode \<or> stack \<noteq> [] then
        let stack = pushLeft stack cur;
            cur = last stack;
            stack = butlast stack
        in inOrder_stackLoop (Right cur) stack (result @ [Val cur])
      else result)"
  by pat_completeness auto
termination
proof (relation "measure (\<lambda>(cur, stack, result). size cur + stack_nodes stack)", goal_cases)
  case (2 cur stack result stack' cur' stack'')
  then have "stack' \<noteq> []" by (auto simp: pushLeft_Nil_iff)
  then have "stack_nodes stack' = stack_nodes stack'' + Suc (size (Right cur'))"
    using 2(3,4) append_butlast_last_id [of stack'] stack_nodes_simps(2) [of stack'' "[cur']"] by simp
  with 2(2) show ?case by (simp add: stack_nodes_pushLeft)
qed simp

definition inOrderHelperStack :: "BST \<Rightarrow> TreeNode \<Rightarrow> int list" where
  "inOrderHelperStack bst n = inOrder_stackLoop (root bst) [] []"

fun increasing :: "int list \<Rightarrow> bool" where
  "increasing (x # y # xs) = (if y \<le> x then False else increasing (y # xs))"
| "increasing _ = True"

definition BST_isValidInOrder :: "BST \<Rightarrow> bool" where
  "BST_isValidInOrder bst = increasing (BST_InOrder bst)"

fun isValidHelper :: "TreeNode \<Rightarrow> int option \<Rightarrow> int option \<Rightarrow> bool" where
  "isValidHelper NilNode lo hi = True"
| "isValidHelper (TreeNode l x r) lo hi =
     (if (case lo of None \<Rightarrow> False | Some m \<Rightarrow> x \<le> m) \<or> (case hi of None \<Rightarrow> False | Some m \<Rightarrow> m \<le> x)
      then False
      else isValidHelper l lo (Some x) \<and> isValidHelper r (Some x) hi)"

definition BST_IsValid :: "BST \<Rightarrow> bool" where
  "BST_IsValid bst = isValidHelper (root bst) None None"

fun heightHelper :: "TreeNode \<Rightarrow> nat" where
  "heightHelper NilNode = 0"
| "heightHelper (TreeNode l x r) = 1 + max (heightHelper l) (heightHelper r)"

definition BST_Height :: "BST \<Rightarrow> nat" where
  "BST_Height bst = heightHelper (root bst)"

declare inOrder_stackLoop.simps [simp del] hibbardDelete.simps [simp del]

section \<open>The values of a tree and the search-tree order\<close>

fun tree_values :: "TreeNode \<Rightarrow> int list" where
  "tree_values NilNode = []"
| "tree_values (TreeNode l x r) = tree_values l @ x # tree_values r"

abbreviation ordered :: "TreeNode \<Rightarrow> bool" where
  "ordered t \<equiv> sorted_wrt (<) (tree_values t)"

lemma tree_values_Nil_iff [simp]: "tree_values t = [] \<longleftrightarrow> t = NilNode"
  by (cases t) auto

lemma length_tree_values [simp]: "length (tree_values t) = size t"
  by (induction t) auto

lemma ordered_simps [simp]:
  "sorted_wrt (<) (xs @ (x :: int) # ys) \<longleftrightarrow>
   sorted_wrt (<) xs \<and> sorted_wrt (<) ys \<and> (\<forall>y\<in>set xs. y < x) \<and> (\<forall>y\<in>set ys. x < y)"
  by (auto simp: sorted_wrt_append dest: less_trans)

lemma doInsert_values:
  "ordered t \<Longrightarrow> ordered (fst (doInsert t v)) \<and>
   set (tree_values (fst (doInsert t v))) = insert v (set (tree_values t)) \<and>
   snd (doInsert t v) = (v \<notin> set (tree_values t))"
proof (induction t)
  case (TreeNode l x r)
  then show ?case
    by (cases v x rule: linorder_cases) (auto simp: split_beta Let_def)
qed simp

lemma doSearch_values: "ordered t \<Longrightarrow> doSearch t v \<longleftrightarrow> v \<in> set (tree_values t)"
proof (induction t)
  case (TreeNode l x r)
  then show ?case by (cases v x rule: linorder_cases) auto
qed simp

lemma leftmost_values: "t \<noteq> NilNode \<Longrightarrow> Val (leftmost t) = hd (tree_values t)"
  by (induction t) (auto simp: hd_append)

lemma rightmost_values: "t \<noteq> NilNode \<Longrightarrow> Val (rightmost t) = last (tree_values t)"
  by (induction t) auto

text \<open>Removing a value from a strictly ascending list.\<close>

lemma filter_neq_hd: "xs \<noteq> [] \<Longrightarrow> sorted_wrt (<) xs \<Longrightarrow> filter (\<lambda>y. y \<noteq> hd xs) xs = tl (xs :: int list)"
  by (cases xs) (auto intro: filter_True)

lemma filter_neq_last: "xs \<noteq> [] \<Longrightarrow> sorted_wrt (<) xs \<Longrightarrow> filter (\<lambda>y. y \<noteq> last xs) xs = butlast (xs :: int list)"
  by (cases xs rule: rev_cases) (auto simp: sorted_wrt_append intro: filter_True)

lemma deleteHelper_values:
  "sorted_wrt (<) (tree_values l @ x # tree_values r) \<Longrightarrow> l \<noteq> NilNode \<or> r \<noteq> NilNode \<Longrightarrow>
   tree_values (fst (hibbardDelete coin k l x r)) = tree_values l @ tree_values r"
  "ordered t \<Longrightarrow> tree_values (fst (deleteHelper coin k t v)) = filter (\<lambda>y. y \<noteq> v) (tree_values t)"
proof (induction coin k l x r and coin k t v rule: hibbardDelete_deleteHelper.induct)
  case (1 coin k l x r)
  from 1(5) have "ordered l" "ordered r" by auto
  with 1 show ?case
    by (subst hibbardDelete.simps)
       (simp add: split_beta Let_def BST_successor_def BST_predecessor_def leftmost_values
        rightmost_values filter_neq_hd filter_neq_last)
next
  case (3 coin k l x r v)
  then have o: "ordered l" "ordered r" "\<forall>y\<in>set (tree_values l). y < x" "\<forall>y\<in>set (tree_values r). x < y"
    by auto
  then have keep: "filter (\<lambda>y. y \<noteq> v) (tree_values l) = tree_values l" if "x \<le> v"
    using that by (auto intro!: filter_True)
  from o have keep': "filter (\<lambda>y. y \<noteq> v) (tree_values r) = tree_values r" if "v \<le> x"
    using that by (auto intro!: filter_True)
  consider "v < x" | "v = x" | "x < v" by linarith
  then show ?case
    using 3 o keep keep' by cases (auto simp: split_beta Let_def)
qed simp

section \<open>Traversals, validity and height\<close>

lemma inOrderHelperRecursive_values: "inOrderHelperRecursive t result = result @ tree_values t"
  by (induction t arbitrary: result) (auto simp: Let_def)

lemma BST_InOrder_values: "BST_InOrder bst = tree_values (root bst)"
  by (simp add: BST_InOrder_def inOrderHelperRecursive_values)

text \<open>What the stack still has to deliver: its nodes from the top, each with its right subtree.\<close>

definition pending :: "TreeNode list \<Rightarrow> int list" where
  "pending stack = concat (map (\<lambda>n. Val n # tree_values (Right n)) (rev stack))"

lemma pending_pushLeft: "pending (pushLeft stack n) = tree_values n @ pending stack"
  by (induction stack n rule: pushLeft.induct) (auto simp: pending_def)

lemma pending_snoc: "pending (stack @ [n]) = Val n # tree_values (Right n) @ pending stack"
  by (simp add: pending_def)

lemma inOrder_stackLoop_values:
  "inOrder_stackLoop cur stack result = result @ tree_values cur @ pending stack"
proof (induction cur stack result rule: inOrder_stackLoop.induct)
  case (1 cur stack result)
  show ?case
  proof (cases "cur \<noteq> NilNode \<or> stack \<noteq> []")
    case True
    let ?st = "pushLeft stack cur"
    from True have "?st \<noteq> []" by (auto simp: pushLeft_Nil_iff)
    then have "tree_values cur @ pending stack =
        Val (last ?st) # tree_values (Right (last ?st)) @ pending (butlast ?st)"
      by (metis append_butlast_last_id pending_pushLeft pending_snoc)
    with True 1 [OF True refl refl refl] show ?thesis
      by (subst inOrder_stackLoop.simps) (simp add: Let_def)
  next
    case False
    then show ?thesis by (subst inOrder_stackLoop.simps) (simp add: pending_def)
  qed
qed

lemma increasing_sorted: "increasing xs \<longleftrightarrow> sorted_wrt (<) xs"
proof (induction xs rule: increasing.induct)
  case (1 x y xs)
  then show ?case by (auto dest: less_trans)
qed auto

lemma isValidHelper_values:
  "isValidHelper t lo hi \<longleftrightarrow> ordered t \<and>
    (\<forall>m. lo = Some m \<longrightarrow> (\<forall>y\<in>set (tree_values t). m < y)) \<and>
    (\<forall>m. hi = Some m \<longrightarrow> (\<forall>y\<in>set (tree_values t). y < m))"
proof (induction t arbitrary: lo hi)
  case (TreeNode l x r)
  show ?case
    by (auto simp: TreeNode.IH not_le split: option.splits dest: less_trans)
qed simp

lemma size_height: "size t < 2 ^ heightHelper t"
proof (induction t)
  case (TreeNode l x r)
  let ?m = "max (heightHelper l) (heightHelper r)"
  have "2 ^ heightHelper l \<le> (2::nat) ^ ?m" "2 ^ heightHelper r \<le> (2::nat) ^ ?m"
    by (auto intro: power_increasing)
  with TreeNode.IH have "size l < 2 ^ ?m" "size r < 2 ^ ?m" by linarith+
  then show ?case by simp
qed simp

lemma height_le_size: "heightHelper t \<le> size t"
  by (induction t) auto

section \<open>Correctness\<close>

lemma BST_IsValid_values: "BST_IsValid bst \<longleftrightarrow> ordered (root bst)"
  by (simp add: BST_IsValid_def isValidHelper_values)

text \<open>
  The two validity checks agree on every tree, whatever its shape: both accept exactly the trees
  whose values ascend strictly from left to right.
\<close>

lemma validity_checks_agree:
  "BST_IsValid bst = BST_isValidInOrder bst \<and> (BST_IsValid bst \<longleftrightarrow> ordered (root bst))"
  by (simp add: BST_IsValid_values BST_isValidInOrder_def increasing_sorted BST_InOrder_values)

text \<open>
  The traversal with an explicit stack ends and lists the same values as the recursive one, and
  the height is between the logarithm of the number of values and that number.
\<close>

lemma traversals_agree:
  "inOrderHelperStack bst n = BST_InOrder bst \<and>
   BST_Height bst \<le> length (BST_InOrder bst) \<and> length (BST_InOrder bst) < 2 ^ BST_Height bst"
  by (simp add: inOrderHelperStack_def inOrder_stackLoop_values BST_InOrder_values pending_def
      BST_Height_def size_height height_le_size)

text \<open>
  C33: the two ways the code has for one task agree on every tree, whatever its shape: both validity checks accept
  exactly the trees whose values ascend strictly from left to right, and the traversal with an explicit
  stack ends with the values of the recursive one. The height is between the logarithm of their number
  and that number.
\<close>

theorem tree_variants_agree:
  "BST_IsValid bst = BST_isValidInOrder bst \<and> (BST_IsValid bst \<longleftrightarrow> ordered (root bst)) \<and>
   inOrderHelperStack bst n = BST_InOrder bst \<and>
   BST_Height bst \<le> length (BST_InOrder bst) \<and> length (BST_InOrder bst) < 2 ^ BST_Height bst"
  using validity_checks_agree [of bst] traversals_agree [of bst n] by blast

text \<open>
  A sequence of calls on a tree, with the coin flips of the random number generator, against the
  specification: a finite set of integers, which draws no numbers.
\<close>

datatype set_call = CallInsert int | CallSearch int | CallDelete int | CallInOrder | CallIsValid

datatype set_out = Flag bool | Values "int list"

fun BST_step :: "(nat \<Rightarrow> nat) \<Rightarrow> BST \<times> nat \<Rightarrow> set_call \<Rightarrow> set_out \<times> BST \<times> nat" where
  "BST_step coin (bst, k) (CallInsert v) =
     (case BST_Insert bst v of (b, bst') \<Rightarrow> (Flag b, bst', k))"
| "BST_step coin (bst, k) (CallSearch v) = (Flag (BST_Search bst v), bst, k)"
| "BST_step coin (bst, k) (CallDelete v) =
     (case BST_Delete coin k bst v of (b, bst', k') \<Rightarrow> (Flag b, bst', k'))"
| "BST_step coin (bst, k) CallInOrder = (Values (BST_InOrder bst), bst, k)"
| "BST_step coin (bst, k) CallIsValid = (Flag (BST_IsValid bst), bst, k)"

fun set_step :: "int set \<Rightarrow> set_call \<Rightarrow> set_out \<times> int set" where
  "set_step A (CallInsert v) = (Flag (v \<notin> A), insert v A)"
| "set_step A (CallSearch v) = (Flag (v \<in> A), A)"
| "set_step A (CallDelete v) = (Flag (v \<in> A), A - {v})"
| "set_step A CallInOrder = (Values (sorted_list_of_set A), A)"
| "set_step A CallIsValid = (Flag True, A)"

definition tree_set :: "BST \<times> nat \<Rightarrow> int set \<Rightarrow> bool" where
  "tree_set s A \<longleftrightarrow> ordered (root (fst s)) \<and> A = set (tree_values (root (fst s)))"

lemma ordered_tree_values:
  "ordered t \<Longrightarrow> sorted_list_of_set (set (tree_values t)) = tree_values t"
  by (simp add: sorted_list_of_set.idem_if_sorted_distinct strict_sorted_iff)

interpretation tree: refines "BST_step coin" set_step tree_set "\<lambda>_. True" for coin
proof
  fix s :: "BST \<times> nat" and A p
  assume "tree_set s A"
  moreover obtain bst k where s: "s = (bst, k)" by (cases s)
  ultimately have o: "ordered (root bst)" and A: "A = set (tree_values (root bst))"
    by (auto simp: tree_set_def)
  note [simp] = s A tree_set_def BST_Insert_def BST_Search_def BST_Delete_def doSearch_values
    deleteHelper_values(2) BST_IsValid_values BST_InOrder_values ordered_tree_values split_beta Let_def
  show "fst (BST_step coin s p) = fst (set_step A p)"
    using o doInsert_values [OF o] by (cases p) auto
  show "tree_set (snd (BST_step coin s p)) (snd (set_step A p))"
    using o doInsert_values [OF o] by (cases p) (auto intro: sorted_wrt_filter)
qed

text \<open>
  C3: whatever the random numbers are, any sequence of inserts, searches, deletes, traversals and
  validity checks on a new tree answers as a set of integers does; the traversals list the set in
  ascending order and the tree is always valid.
\<close>

theorem tree_refines_set:
  "fst (run_ops (BST_step coin) (NewBST, 0) calls) = fst (run_ops set_step {} calls)"
  by (rule tree.run_outputs) (simp_all add: tree_set_def NewBST_def)

end
