(* ===== verification/WordTrie.thy ===== *)
theory WordTrie
  imports GoPrelude "HOL-Library.AList" "HOL-Library.Sublist"
begin

text \<open>
  \<open>data-structures/trie.go\<close>. A node's \<open>children\<close> map is an association list. A string is valid
  UTF-8: it is the list of the code points that \<open>range\<close> decodes from it and \<open>[]rune\<close> converts it to; its \<open>len\<close> is the
  number of bytes of their UTF-8 encoding, which the two delete functions use as if it were the
  number of code points. Nodes are reached through one pointer, so an operation that changes nodes
  returns the changed trie; an operation that panics after a change returns both.
\<close>

section \<open>Strings and iteration over a map\<close>

type_synonym rune = nat
type_synonym go_string = "rune list"

definition rune_len :: "rune \<Rightarrow> nat" where
  "rune_len r = (if r < 128 then 1 else if r < 2048 then 2 else if r < 65536 then 3 else 4)"

definition go_len :: "go_string \<Rightarrow> nat" where
  "go_len s = sum_list (map rune_len s)"

definition ascii :: "go_string \<Rightarrow> bool" where
  "ascii s \<longleftrightarrow> (\<forall>r\<in>set s. r < 128)"

lemma rune_len_pos: "1 \<le> rune_len r"
  by (simp add: rune_len_def)

lemma go_len_ge: "length s \<le> go_len s"
proof (induction s)
  case (Cons r s)
  then show ?case using rune_len_pos [of r] by (simp add: go_len_def)
qed simp

lemma go_len_ascii: "go_len s = length s \<longleftrightarrow> ascii s"
proof (induction s)
  case (Cons r s)
  show ?case
    using Cons go_len_ge [of s] by (auto simp: go_len_def ascii_def rune_len_def)
qed (simp add: go_len_def ascii_def)

text \<open>
  \<open>for k, v := range m\<close> visits the entries in an order that Go leaves open: any permutation of
  them. \<open>perm\<close> chooses it, and what is not a permutation is not a choice.
\<close>

definition go_range :: "('a list \<Rightarrow> 'a list) \<Rightarrow> 'a list \<Rightarrow> 'a list" where
  "go_range perm xs = (if mset (perm xs) = mset xs then perm xs else xs)"

lemma mset_go_range [simp]: "mset (go_range perm xs) = mset xs"
  by (simp add: go_range_def)

lemma set_go_range [simp]: "set (go_range perm xs) = set xs"
  by (metis mset_go_range set_mset_mset)

section \<open>State\<close>

datatype trie = TrieNode (children: "(rune \<times> trie) list") (isEnd: bool)

record Trie =
  troot :: trie

abbreviation child :: "trie \<Rightarrow> rune \<Rightarrow> trie option" where
  "child n r \<equiv> map_of (children n) r"

definition set_child :: "trie \<Rightarrow> rune \<Rightarrow> trie \<Rightarrow> trie" where
  "set_child n r c = TrieNode (AList.update r c (children n)) (isEnd n)"

definition del_child :: "trie \<Rightarrow> rune \<Rightarrow> trie" where
  "del_child n r = TrieNode (AList.delete r (children n)) (isEnd n)"

definition new_child :: trie where
  "new_child = TrieNode [] False"

definition NewTrie :: Trie where
  "NewTrie = \<lparr>troot = TrieNode [] False\<rparr>"

section \<open>Operations\<close>

fun insertHelper :: "go_string \<Rightarrow> trie \<Rightarrow> trie" where
  "insertHelper [] n = TrieNode (children n) True"
| "insertHelper (val # word) n =
     set_child n val (insertHelper word (case child n val of None \<Rightarrow> new_child | Some c \<Rightarrow> c))"

definition Trie_Insert :: "Trie \<Rightarrow> go_string \<Rightarrow> Trie" where
  "Trie_Insert t word = t\<lparr>troot := insertHelper word (troot t)\<rparr>"

fun searchFrom :: "go_string \<Rightarrow> trie \<Rightarrow> bool" where
  "searchFrom [] n = isEnd n"
| "searchFrom (val # word) n = (case child n val of None \<Rightarrow> False | Some c \<Rightarrow> searchFrom word c)"

definition Trie_Search :: "Trie \<Rightarrow> go_string \<Rightarrow> bool" where
  "Trie_Search t word = searchFrom word (troot t)"

fun findNode :: "go_string \<Rightarrow> trie \<Rightarrow> trie option" where
  "findNode [] n = Some n"
| "findNode (val # word) n = (case child n val of None \<Rightarrow> None | Some c \<Rightarrow> findNode word c)"

definition Trie_StartsWith :: "Trie \<Rightarrow> go_string \<Rightarrow> bool" where
  "Trie_StartsWith t pre = (case findNode pre (troot t) of None \<Rightarrow> False | Some n \<Rightarrow> True)"

text \<open>
  \<open>DeleteIterative\<close>: the path from the root to the node of the word, then the loop over the byte
  positions of the word from the last down. \<open>relink\<close> is what the pointers of the path do by
  themselves: the changed node \<open>n\<close> at depth \<open>d\<close> is still the child of the nodes above it.
\<close>

fun searchPath :: "go_string \<Rightarrow> trie \<Rightarrow> trie list option" where
  "searchPath [] n = Some [n]"
| "searchPath (val # word) n =
     (case child n val of None \<Rightarrow> None | Some c \<Rightarrow> map_option ((#) n) (searchPath word c))"

fun relink :: "go_string \<Rightarrow> trie list \<Rightarrow> nat \<Rightarrow> trie \<Rightarrow> trie" where
  "relink word path 0 n = n"
| "relink word path (Suc d) n = relink word path d (set_child (path ! d) (word ! d) n)"

fun deleteUp :: "go_string \<Rightarrow> trie list \<Rightarrow> nat \<Rightarrow> trie \<Rightarrow> trie \<times> bool go" where
  "deleteUp word path 0 n = (n, Ok True)"
| "deleteUp word path (Suc i) n =
     (if length word \<le> i then (relink word path (length word) n, Panic IndexOutOfRange)
      else if children n = [] \<and> \<not> isEnd n
      then deleteUp word path i (del_child (path ! i) (word ! i))
      else (relink word path (Suc i) n, Ok True))"

definition DeleteIterative :: "Trie \<Rightarrow> go_string \<Rightarrow> Trie \<times> bool go" where
  "DeleteIterative t word =
     (case searchPath word (troot t) of
        None \<Rightarrow> (t, Ok False)
      | Some path \<Rightarrow>
          (if \<not> isEnd (last path) then (t, Ok False)
           else case deleteUp word path (go_len word) (TrieNode (children (last path)) False) of
                  (n, r) \<Rightarrow> (t\<lparr>troot := n\<rparr>, r)))"

definition Trie_Delete :: "Trie \<Rightarrow> go_string \<Rightarrow> Trie \<times> bool go" where
  "Trie_Delete t word = DeleteIterative t word"

function DeleteRecursive :: "go_string \<Rightarrow> nat \<Rightarrow> trie \<Rightarrow> (trie \<times> bool \<times> bool) go" where
  "DeleteRecursive word pos n =
     (if go_len word < pos then Ok (n, False, False)
      else if go_len word = pos then
        (if \<not> isEnd n then Ok (n, False, False)
         else Ok (TrieNode (children n) False, True, children n = []))
      else if length word \<le> pos then Panic IndexOutOfRange
      else
        (case child n (word ! pos) of
           None \<Rightarrow> Ok (n, False, False)
         | Some c \<Rightarrow>
             go_bind (DeleteRecursive word (pos + 1) c) (\<lambda>(c', deleteWord, deleteChild).
               if \<not> deleteWord then Ok (n, False, False)
               else if deleteChild then
                 (let n = del_child n (word ! pos)
                  in Ok (n, True, children n = [] \<and> \<not> isEnd n))
               else Ok (set_child n (word ! pos) c', True, False))))"
  by pat_completeness auto
termination
  by (relation "measure (\<lambda>(word, pos, n). Suc (go_len word) - pos)") auto

declare DeleteRecursive.simps [simp del]

text \<open>
  \<open>findSuffixesDFS\<close> appends the words it finds to \<open>words\<close>; a word is the prefix followed by the
  code points on the way down.
\<close>

lemma entry_size: "(r, c) \<in> set (children n) \<Longrightarrow> size c < size n"
proof -
  assume "(r, c) \<in> set (children n)"
  then have "size c \<le> size_list (size_prod (\<lambda>x. 0) size) (children n)"
    by (rule size_list_estimation') simp
  then show ?thesis by (cases n) simp
qed

function findSuffixesDFS ::
  "((rune \<times> trie) list \<Rightarrow> (rune \<times> trie) list) \<Rightarrow> go_string \<Rightarrow> go_string \<Rightarrow> trie \<Rightarrow> go_string list" where
  "findSuffixesDFS perm pre suffixSoFar n =
     (if isEnd n then [pre @ suffixSoFar] else []) @
     concat (map (\<lambda>(r, c). findSuffixesDFS perm pre (suffixSoFar @ [r]) c) (go_range perm (children n)))"
  by pat_completeness auto
termination
proof (relation "measure (\<lambda>(perm, pre, suffix, n). size n)", goal_cases)
  case (2 perm pre suffix n rc r c)
  then show ?case by (auto simp: entry_size)
qed simp

declare findSuffixesDFS.simps [simp del]

definition FindAllWithPrefix ::
  "((rune \<times> trie) list \<Rightarrow> (rune \<times> trie) list) \<Rightarrow> Trie \<Rightarrow> go_string \<Rightarrow> go_string list" where
  "FindAllWithPrefix perm t pre =
     (case findNode pre (troot t) of
        None \<Rightarrow> []
      | Some n \<Rightarrow> findSuffixesDFS perm pre [] n)"

section \<open>The invariant and the words of a trie\<close>

text \<open>
  \<open>trim n\<close>: every node below \<open>n\<close> ends a word or has children, and the keys of a map are distinct.
  Then every child leads to a word.
\<close>

abbreviation dead :: "trie \<Rightarrow> bool" where
  "dead n \<equiv> children n = [] \<and> \<not> isEnd n"

function trim :: "trie \<Rightarrow> bool" where
  "trim n \<longleftrightarrow> distinct (map fst (children n)) \<and> (\<forall>rc\<in>set (children n). \<not> dead (snd rc) \<and> trim (snd rc))"
  by pat_completeness auto
termination
proof (relation "measure size", goal_cases)
  case (2 n rc)
  then show ?case using entry_size [of "fst rc" "snd rc" n] by simp
qed simp

declare trim.simps [simp del]

lemma trim_iff:
  "trim n \<longleftrightarrow> distinct (map fst (children n)) \<and> (\<forall>r c. child n r = Some c \<longrightarrow> \<not> dead c \<and> trim c)"
proof (cases "distinct (map fst (children n))")
  case True
  then show ?thesis
    by (subst trim.simps) (auto simp: map_of_eq_Some_iff)
next
  case False
  then show ?thesis by (subst trim.simps) simp
qed

lemma trim_child: "trim n \<Longrightarrow> child n r = Some c \<Longrightarrow> trim c \<and> \<not> dead c"
  by (auto simp: trim_iff [of n])

lemma child_size: "child n r = Some c \<Longrightarrow> size c < size n"
  by (auto dest: map_of_SomeD intro: entry_size)

lemma child_set_child [simp]: "child (set_child n r c) x = (if x = r then Some c else child n x)"
  by (simp add: set_child_def update_conv')

lemma child_del_child [simp]: "child (del_child n r) x = (if x = r then None else child n x)"
  by (simp add: del_child_def delete_conv')

lemma isEnd_child_simps [simp]:
  "isEnd (set_child n r c) = isEnd n" "isEnd (del_child n r) = isEnd n"
  by (simp_all add: set_child_def del_child_def)

lemma set_child_nonempty [simp]: "children (set_child n r c) \<noteq> []"
  by (metis child_set_child map_of_eq_None_iff empty_iff image_empty list.set(1) option.distinct(1))

lemma trim_set_child: "trim n \<Longrightarrow> trim c \<Longrightarrow> \<not> dead c \<Longrightarrow> trim (set_child n r c)"
  unfolding trim_iff [of n] trim_iff [of "set_child n r c"] child_set_child
  by (auto simp: set_child_def distinct_update)

lemma trim_del_child: "trim n \<Longrightarrow> trim (del_child n r)"
  unfolding trim_iff [of n] trim_iff [of "del_child n r"] child_del_child
  by (auto simp: del_child_def distinct_delete)

lemma trim_TrieNode: "trim n \<Longrightarrow> trim (TrieNode (children n) b)"
  unfolding trim_iff [of n] trim_iff [of "TrieNode (children n) b"] by simp

lemma trim_new_child [simp]: "trim new_child"
  by (subst trim.simps) (simp add: new_child_def)

lemma searchFrom_dead: "dead n \<Longrightarrow> \<not> searchFrom w n"
  by (cases w) auto

lemma trim_word: "trim n \<Longrightarrow> \<not> dead n \<Longrightarrow> \<exists>w. searchFrom w n"
proof (induction n rule: measure_induct_rule [of size])
  case (less n)
  show ?case
  proof (cases "isEnd n")
    case True
    then have "searchFrom [] n" by simp
    then show ?thesis ..
  next
    case False
    with less.prems obtain r c cs where "children n = (r, c) # cs" by (cases "children n") auto
    then have "child n r = Some c" by simp
    with less obtain w where "searchFrom w c" using child_size trim_child by blast
    with \<open>child n r = Some c\<close> have "searchFrom (r # w) n" by simp
    then show ?thesis ..
  qed
qed

section \<open>Insert, search and prefixes\<close>

lemma searchFrom_insertHelper: "searchFrom v (insertHelper w n) \<longleftrightarrow> v = w \<or> searchFrom v n"
proof (induction w arbitrary: v n)
  case Nil
  show ?case by (cases v) auto
next
  case (Cons r w)
  have "\<not> searchFrom u new_child" for u by (rule searchFrom_dead) (simp add: new_child_def)
  with Cons show ?case by (cases v) (auto split: option.splits)
qed

lemma insertHelper_trim: "trim n \<Longrightarrow> trim (insertHelper w n) \<and> \<not> dead (insertHelper w n)"
proof (induction w arbitrary: n)
  case (Cons r w)
  then show ?case
    using trim_child [OF Cons.prems] by (auto intro!: trim_set_child split: option.splits)
qed (simp add: trim_TrieNode)

lemma findNode_searchFrom: "findNode p n = Some m \<Longrightarrow> searchFrom (p @ w) n = searchFrom w m"
  by (induction p arbitrary: n) (auto split: option.splits)

lemma findNode_None: "findNode p n = None \<Longrightarrow> \<not> searchFrom (p @ w) n"
  by (induction p arbitrary: n) (auto split: option.splits)

lemma findNode_trim: "findNode p n = Some m \<Longrightarrow> trim n \<Longrightarrow> trim m \<and> (p \<noteq> [] \<longrightarrow> \<not> dead m)"
proof (induction p arbitrary: n)
  case (Cons r p)
  then obtain c where c: "child n r = Some c" "findNode p c = Some m" by (auto split: option.splits)
  with Cons.IH [OF c(2)] trim_child [OF Cons.prems(2) c(1)] show ?case
    by (cases p) auto
qed simp

lemma startsWith_words:
  assumes "trim n"
  shows "(findNode p n \<noteq> None) \<longleftrightarrow> p = [] \<or> (\<exists>w. searchFrom (p @ w) n)"
proof (cases "findNode p n")
  case None
  then have "p \<noteq> []" by auto
  with None findNode_None show ?thesis by auto
next
  case (Some m)
  with findNode_trim [OF Some assms] trim_word [of m] findNode_searchFrom [OF Some] show ?thesis by auto
qed

section \<open>Deletion\<close>

text \<open>What both deletions compute: the word is unmarked and the nodes that are dead by then go.\<close>

fun prune :: "go_string \<Rightarrow> trie \<Rightarrow> trie" where
  "prune [] n = TrieNode (children n) False"
| "prune (r # w) n =
     (case child n r of None \<Rightarrow> n
      | Some c \<Rightarrow> (if dead (prune w c) then del_child n r else set_child n r (prune w c)))"

lemma searchFrom_prune: "searchFrom v (prune w n) \<longleftrightarrow> v \<noteq> w \<and> searchFrom v n"
proof (induction w arbitrary: v n)
  case Nil
  show ?case by (cases v) auto
next
  case (Cons r w)
  show ?case
  proof (cases "child n r")
    case (Some c)
    have "\<not> searchFrom u (prune w c)" if "dead (prune w c)" for u
      using that by (rule searchFrom_dead)
    with Some Cons [of _ c] show ?thesis by (cases v) (auto split: option.splits)
  qed (cases v, auto)
qed

lemma prune_trim: "trim n \<Longrightarrow> trim (prune w n)"
proof (induction w arbitrary: n)
  case (Cons r w)
  then show ?case
    using trim_child [OF Cons.prems] by (auto intro: trim_set_child trim_del_child split: option.splits)
qed (simp add: trim_TrieNode)

lemma searchPath_length: "searchPath w n = Some path \<Longrightarrow> length path = Suc (length w) \<and> path ! 0 = n"
  by (induction w arbitrary: n path) (auto split: option.splits)

lemma searchFrom_searchPath:
  "searchFrom w n = (case searchPath w n of None \<Rightarrow> False | Some path \<Rightarrow> isEnd (last path))"
proof (induction w arbitrary: n)
  case (Cons r w)
  show ?case
  proof (cases "child n r")
    case (Some c)
    with searchPath_length [of w c] Cons [of c] show ?thesis by (auto split: option.splits)
  qed simp
qed simp

lemma relink_Cons:
  "relink (r # w) (n # path) (Suc d) m = set_child n r (relink w path d m)"
  by (induction d arbitrary: m) auto

lemma relink_Suc_nonempty: "children (relink w path (Suc d) m) \<noteq> []"
  by (induction d arbitrary: m) simp_all

text \<open>One more letter in front: the loop does one more step if everything below was deleted.\<close>

lemma deleteUp_Cons:
  "k \<le> length w \<Longrightarrow> deleteUp (r # w) (n # path) (Suc k) m =
     (let t = fst (deleteUp w path k m)
      in (if dead t then del_child n r else set_child n r t, Ok True))"
proof (induction k arbitrary: m)
  case (Suc k)
  show ?case
  proof (cases "dead m")
    case True
    with Suc Suc.IH [of "del_child (path ! k) (w ! k)"] show ?thesis by (simp add: Let_def)
  next
    case False
    with Suc.prems relink_Suc_nonempty [of w path k m] show ?thesis
      by (auto simp: Let_def relink_Cons [of r w n path "Suc k", simplified])
  qed
qed simp

lemma deleteUp_prune:
  "searchPath w n = Some path \<Longrightarrow>
   deleteUp w path (length w) (TrieNode (children (last path)) False) = (prune w n, Ok True)"
proof (induction w arbitrary: n path)
  case (Cons r w)
  then obtain c path' where c: "child n r = Some c" "searchPath w c = Some path'" "path = n # path'"
    by (auto split: option.splits)
  moreover from searchPath_length [OF c(2)] have "path' \<noteq> []" by auto
  moreover have "deleteUp (r # w) (n # path') (Suc (length w)) m =
      (let t = fst (deleteUp w path' (length w) m)
       in (if dead t then del_child n r else set_child n r t, Ok True))" for m
    by (rule deleteUp_Cons) simp
  ultimately show ?case
    using Cons.IH [OF c(2)] by (simp add: Let_def del: deleteUp.simps)
qed auto


text \<open>A word with a code point of several bytes makes both deletions index past its last rune.\<close>

lemma relink_words:
  "searchPath w n = Some path \<Longrightarrow>
   searchFrom v (relink w path (length w) (TrieNode (children (last path)) False)) \<longleftrightarrow>
     v \<noteq> w \<and> searchFrom v n"
proof (induction w arbitrary: n path v)
  case Nil
  then show ?case by (cases v) auto
next
  case (Cons r w)
  then obtain c path' where c: "child n r = Some c" "searchPath w c = Some path'" "path = n # path'"
    by (auto split: option.splits)
  with searchPath_length [OF c(2)] have "last path = last path'" by auto
  with Cons.IH [OF c(2)] c show ?case
    by (cases v) (auto simp: relink_Cons simp del: relink.simps split: option.splits)
qed

lemma deleteUp_panics:
  assumes "\<not> ascii w"
  shows "deleteUp w path (go_len w) m = (relink w path (length w) m, Panic IndexOutOfRange)"
proof -
  from assms go_len_ascii go_len_ge [of w] have "length w < go_len w" using le_neq_implies_less by metis
  then obtain i where "go_len w = Suc i" "length w \<le> i" by (cases "go_len w") auto
  then show ?thesis by simp
qed

lemma DeleteRecursive_panics:
  "\<not> ascii (u @ w) \<Longrightarrow> findNode w n \<noteq> None \<Longrightarrow>
   DeleteRecursive (u @ w) (length u) n = Panic IndexOutOfRange"
proof (induction w arbitrary: u n)
  case Nil
  then have "length u < go_len u"
    using go_len_ge [of u] go_len_ascii [of u] by simp
  then show ?case by (subst DeleteRecursive.simps) simp
next
  case (Cons r w)
  then obtain c where c: "child n r = Some c" "findNode w c \<noteq> None" by (auto split: option.splits)
  with Cons.IH [of "u @ [r]" c] Cons.prems(1)
  have IH: "DeleteRecursive (u @ r # w) (Suc (length u)) c = Panic IndexOutOfRange" by simp
  have "length (u @ r # w) \<le> go_len (u @ r # w)" by (rule go_len_ge)
  then show ?case by (subst DeleteRecursive.simps) (auto simp: c IH)
qed

section \<open>Collecting the words below a prefix\<close>

text \<open>The entries of a node are visited in some order, so the words below it are grouped by their first rune.\<close>

lemma concat_by_first_rune:
  assumes keys: "\<And>r c d. (r, c) \<in> set xs \<Longrightarrow> (r, d) \<in> set xs \<Longrightarrow> c = d" and "distinct xs"
    and f: "\<And>r c. (r, c) \<in> set xs \<Longrightarrow> set (f (r, c)) = {u @ r # w | w. searchFrom w c} \<and> distinct (f (r, c))"
  shows "distinct (concat (map f xs))"
    and "set (concat (map f xs)) = {u @ r # w | r c w. (r, c) \<in> set xs \<and> searchFrom w c}"
proof -
  show "distinct (concat (map f xs))"
    using \<open>distinct xs\<close>
  proof (rule distinct_concat_map)
    show "distinct (f x)" if "x \<in> set xs" for x
      using that f [of "fst x" "snd x"] by simp
  next
    fix x y assume xy: "x \<in> set xs" "y \<in> set xs" "x \<noteq> y"
    obtain r c q d where rc: "x = (r, c)" "y = (q, d)" by (cases x, cases y)
    with xy keys have "r \<noteq> q" by blast
    moreover from xy rc f have "set (f x) = {u @ r # w | w. searchFrom w c}"
      "set (f y) = {u @ q # w | w. searchFrom w d}" by auto
    ultimately show "set (f x) \<inter> set (f y) = {}" by auto
  qed
  have f': "x \<in> set (f (r, c)) \<longleftrightarrow> (\<exists>w. x = u @ r # w \<and> searchFrom w c)" if "(r, c) \<in> set xs" for x r c
    using f [OF that] by simp
  have "x \<in> set (concat (map f xs)) \<longleftrightarrow> (\<exists>r c. (r, c) \<in> set xs \<and> x \<in> set (f (r, c)))" for x by auto
  then show "set (concat (map f xs)) = {u @ r # w | r c w. (r, c) \<in> set xs \<and> searchFrom w c}"
    using f' by (intro set_eqI) blast
qed

lemma words_by_first_rune:
  "{u @ w | w. searchFrom w n} = (if isEnd n then {u} else {}) \<union>
     {u @ r # w | r c w. child n r = Some c \<and> searchFrom w c}"
proof -
  have "searchFrom w n \<longleftrightarrow> (w = [] \<and> isEnd n) \<or> (\<exists>r v c. w = r # v \<and> child n r = Some c \<and> searchFrom v c)" for w
    by (cases w) (auto split: option.splits)
  then show ?thesis by auto
qed

lemma findSuffixes_words:
  "trim n \<Longrightarrow> set (findSuffixesDFS perm pre suf n) = {(pre @ suf) @ w | w. searchFrom w n} \<and>
     distinct (findSuffixesDFS perm pre suf n)"
proof (induction n arbitrary: suf rule: measure_induct_rule [of size])
  case (less n)
  let ?f = "\<lambda>(r, c). findSuffixesDFS perm pre (suf @ [r]) c"
  let ?xs = "go_range perm (children n)"
  have entries: "(r, c) \<in> set ?xs \<longleftrightarrow> child n r = Some c" for r c
    using less.prems by (simp add: trim_iff [of n] map_of_eq_Some_iff)
  have "mset ?xs = mset (children n)" by simp
  moreover have "distinct (children n)"
    using less.prems by (simp add: trim_iff [of n] distinct_map)
  ultimately have xs: "distinct ?xs" by (metis mset_eq_imp_distinct_iff)
  have f: "set (?f (r, c)) = {(pre @ suf) @ r # w | w. searchFrom w c} \<and> distinct (?f (r, c))"
    if "(r, c) \<in> set ?xs" for r c
  proof -
    from that have c: "child n r = Some c" by (simp only: entries)
    with less.IH [of c "suf @ [r]"] trim_child [OF less.prems c] child_size [OF c] show ?thesis by simp
  qed
  have keys: "c = d" if "(r, c) \<in> set ?xs" "(r, d) \<in> set ?xs" for r c d
    using that by (simp only: entries option.inject)
  from concat_by_first_rune [OF keys xs f] show ?case
    unfolding entries words_by_first_rune [of "pre @ suf" n] by (subst (1 2) findSuffixesDFS.simps) auto
qed

section \<open>Correctness\<close>

text \<open>
  A sequence of calls on a trie against the specification, a set of words. \<open>FindAllWithPrefix\<close>
  returns its words in an order that depends on the iteration over the maps (the permutation in the
  call): its output is read as a bag.
\<close>

datatype word_call =
    CallInsertWord go_string
  | CallSearchWord go_string
  | CallStartsWith go_string
  | CallDeleteWord go_string
  | CallFindAll "(rune \<times> trie) list \<Rightarrow> (rune \<times> trie) list" go_string

datatype word_out = Inserted | Answer "bool go" | Words "go_string multiset"

fun Trie_step :: "Trie \<Rightarrow> word_call \<Rightarrow> word_out \<times> Trie" where
  "Trie_step t (CallInsertWord w) = (Inserted, Trie_Insert t w)"
| "Trie_step t (CallSearchWord w) = (Answer (Ok (Trie_Search t w)), t)"
| "Trie_step t (CallStartsWith p) = (Answer (Ok (Trie_StartsWith t p)), t)"
| "Trie_step t (CallDeleteWord w) = (case Trie_Delete t w of (t', r) \<Rightarrow> (Answer r, t'))"
| "Trie_step t (CallFindAll perm p) = (Words (mset (FindAllWithPrefix perm t p)), t)"

fun words_step :: "go_string set \<Rightarrow> word_call \<Rightarrow> word_out \<times> go_string set" where
  "words_step A (CallInsertWord w) = (Inserted, insert w A)"
| "words_step A (CallSearchWord w) = (Answer (Ok (w \<in> A)), A)"
| "words_step A (CallStartsWith p) = (Answer (Ok (p = [] \<or> (\<exists>w\<in>A. prefix p w))), A)"
| "words_step A (CallDeleteWord w) = (Answer (Ok (w \<in> A)), A - {w})"
| "words_step A (CallFindAll perm p) = (Words (mset_set {w \<in> A. prefix p w}), A)"

fun ascii_delete :: "word_call \<Rightarrow> bool" where
  "ascii_delete (CallDeleteWord w) = ascii w"
| "ascii_delete c = True"

definition trie_words :: "Trie \<Rightarrow> go_string set \<Rightarrow> bool" where
  "trie_words t A \<longleftrightarrow> trim (troot t) \<and> (\<forall>w. w \<in> A \<longleftrightarrow> searchFrom w (troot t))"

lemma FindAllWithPrefix_words:
  assumes "trim (troot t)"
  shows "set (FindAllWithPrefix perm t p) = {w. searchFrom w (troot t) \<and> prefix p w} \<and>
    distinct (FindAllWithPrefix perm t p)"
proof (cases "findNode p (troot t)")
  case None
  with findNode_None show ?thesis by (auto simp: FindAllWithPrefix_def prefix_def)
next
  case (Some m)
  with findNode_trim [OF Some assms] findSuffixes_words [of m perm p "[]"] findNode_searchFrom [OF Some]
  show ?thesis by (auto simp: FindAllWithPrefix_def prefix_def)
qed

lemma DeleteIterative_prune:
  "ascii w \<Longrightarrow> DeleteIterative t w =
     (if searchFrom w (troot t) then (t\<lparr>troot := prune w (troot t)\<rparr>, Ok True) else (t, Ok False))"
  using go_len_ascii [of w]
  by (auto simp: DeleteIterative_def searchFrom_searchPath deleteUp_prune split: option.splits)

interpretation trie: refines Trie_step words_step trie_words ascii_delete
proof
  fix t A and p :: word_call
  assume "trie_words t A" and ok: "ascii_delete p"
  then have tr: "trim (troot t)" and A: "A = {w. searchFrom w (troot t)}"
    by (auto simp: trie_words_def)
  have bag: "mset (FindAllWithPrefix perm t q) = mset_set {w \<in> A. prefix q w}" for perm q
    using FindAllWithPrefix_words [OF tr, of perm q] mset_set_set [of "FindAllWithPrefix perm t q"]
    by (simp add: A)
  have starts: "Trie_StartsWith t q \<longleftrightarrow> q = [] \<or> (\<exists>w\<in>A. prefix q w)" for q
    using startsWith_words [OF tr, of q] by (auto simp: Trie_StartsWith_def A prefix_def split: option.splits)
  note [simp] = Trie_Insert_def Trie_Search_def Trie_Delete_def DeleteIterative_prune trie_words_def
    searchFrom_prune prune_trim tr insertHelper_trim searchFrom_insertHelper starts bag
  show "fst (Trie_step t p) = fst (words_step A p)"
    using ok by (cases p) (auto simp: A)
  show "trie_words (snd (Trie_step t p)) (snd (words_step A p))"
    using ok by (cases p) (auto simp: A)
qed

text \<open>
  C6: any sequence of calls on a new trie whose deleted words are ASCII answers as a set of words
  does: searches and deletions by membership, prefix queries by the words with that prefix (and
  yes for the empty prefix), and \<open>FindAllWithPrefix\<close> each of those words once, in whatever order
  the maps are visited.
\<close>

theorem trie_refines_words:
  assumes "list_all ascii_delete calls"
  shows "fst (run_ops Trie_step NewTrie calls) = fst (run_ops words_step {} calls)"
proof (rule trie.run_outputs [OF _ assms])
  have new: "troot NewTrie = new_child" by (simp add: NewTrie_def new_child_def)
  have "\<not> searchFrom w new_child" for w by (rule searchFrom_dead) (simp add: new_child_def)
  then show "trie_words NewTrie {}" by (simp add: trie_words_def new)
qed

theorem trie_refines_words_witness:
  "fst (run_ops Trie_step NewTrie [CallInsertWord [99, 97], CallDeleteWord [99, 97], CallStartsWith [99]]) =
   [Inserted, Answer (Ok True), Answer (Ok False)]"
  using trie_refines_words [of "[CallInsertWord [99, 97], CallDeleteWord [99, 97], CallStartsWith [99]]"]
  by (simp add: ascii_def)

text \<open>
  Deleting a stored word with a code point of several bytes panics in the iterative function
  after the word has been unmarked, and in the recursive one; the code indexes the word's runes
  with byte positions.
\<close>

theorem trie_delete_panics:
  assumes "Trie_Search t w" and "\<not> ascii w"
  shows "snd (Trie_Delete t w) = Panic IndexOutOfRange \<and>
    (\<forall>v. Trie_Search (fst (Trie_Delete t w)) v \<longleftrightarrow> v \<noteq> w \<and> Trie_Search t v) \<and>
    DeleteRecursive w 0 (troot t) = Panic IndexOutOfRange"
proof -
  from assms(1) obtain path where path: "searchPath w (troot t) = Some path" "isEnd (last path)"
    by (auto simp: Trie_Search_def searchFrom_searchPath split: option.splits)
  have "findNode w (troot t) \<noteq> None"
    using assms(1) findNode_None [of w "troot t" "[]"] by (auto simp: Trie_Search_def)
  with DeleteRecursive_panics [of "[]" w "troot t"] assms(2) relink_words [OF path(1)] show ?thesis
    by (simp add: Trie_Delete_def DeleteIterative_def path deleteUp_panics Trie_Search_def)
qed

theorem trie_delete_panics_witness:
  "snd (Trie_Delete (Trie_Insert NewTrie [233]) [233]) = Panic IndexOutOfRange"
proof -
  have "Trie_Search (Trie_Insert NewTrie [233]) [233]"
    by (simp add: Trie_Search_def Trie_Insert_def searchFrom_insertHelper)
  moreover have "\<not> ascii [233]" by (simp add: ascii_def)
  ultimately show ?thesis using trie_delete_panics [of "Trie_Insert NewTrie [233]" "[233]"] by blast
qed



end
