(* ===== verification/LruCache.thy ===== *)
theory LruCache
  imports PointerLists "HOL-Library.AList"
begin

text \<open>
  \<open>data-structures/lru-cache.go\<close>: a hash map from keys to the nodes of a doubly linked list, the most
  recently used node at the head. The nodes are updated through pointers from the map and from both
  ends of the list, so the state holds a store of nodes and the next free address; the map is an
  association list from keys to addresses, whose length is Go's \<open>len\<close>.
\<close>

section \<open>State\<close>

record listNode =
  key :: int
  val :: int
  prev :: ptr
  nxt :: ptr

record LRUCache =
  capacity :: int
  cache :: "(int \<times> nat) list"
  head :: ptr
  tail :: ptr
  nodes :: "nat \<Rightarrow> listNode"
  free :: nat

definition NewLRUCache :: "int \<Rightarrow> LRUCache" where
  "NewLRUCache cap = \<lparr>capacity = cap, cache = [], head = None, tail = None,
     nodes = (\<lambda>a. \<lparr>key = 0, val = 0, prev = None, nxt = None\<rparr>), free = 0\<rparr>"

definition lru_next :: "LRUCache \<Rightarrow> nat \<Rightarrow> ptr" where
  "lru_next c a = nxt (nodes c a)"

definition lru_prev :: "LRUCache \<Rightarrow> nat \<Rightarrow> ptr" where
  "lru_prev c a = prev (nodes c a)"

definition lru_key :: "LRUCache \<Rightarrow> nat \<Rightarrow> int" where
  "lru_key c a = key (nodes c a)"

definition lru_val :: "LRUCache \<Rightarrow> nat \<Rightarrow> int" where
  "lru_val c a = val (nodes c a)"

definition put_next :: "LRUCache \<Rightarrow> nat \<Rightarrow> ptr \<Rightarrow> LRUCache" where
  "put_next c a p = c\<lparr>nodes := (nodes c)(a := (nodes c a)\<lparr>nxt := p\<rparr>)\<rparr>"

definition put_prev :: "LRUCache \<Rightarrow> nat \<Rightarrow> ptr \<Rightarrow> LRUCache" where
  "put_prev c a p = c\<lparr>nodes := (nodes c)(a := (nodes c a)\<lparr>prev := p\<rparr>)\<rparr>"

definition put_val :: "LRUCache \<Rightarrow> nat \<Rightarrow> int \<Rightarrow> LRUCache" where
  "put_val c a v = c\<lparr>nodes := (nodes c)(a := (nodes c a)\<lparr>val := v\<rparr>)\<rparr>"

section \<open>Operations\<close>

definition addHead :: "LRUCache \<Rightarrow> nat \<Rightarrow> LRUCache" where
  "addHead c n =
     (let c = put_prev c n None;
          c = put_next c n (head c);
          c = (case head c of None \<Rightarrow> c | Some h \<Rightarrow> put_prev c h (Some n));
          c = c\<lparr>head := Some n\<rparr>
      in if tail c = None then c\<lparr>tail := Some n\<rparr> else c)"

definition moveToHead :: "LRUCache \<Rightarrow> nat \<Rightarrow> LRUCache" where
  "moveToHead c n =
     (if head c = Some n then c
      else
        let c = (case lru_prev c n of None \<Rightarrow> c | Some p \<Rightarrow> put_next c p (lru_next c n));
            c = (case lru_next c n of None \<Rightarrow> c | Some x \<Rightarrow> put_prev c x (lru_prev c n));
            c = (if tail c = Some n then c\<lparr>tail := lru_prev c n\<rparr> else c);
            c = put_prev c n None;
            c = put_next c n (head c);
            c = (case head c of None \<Rightarrow> c | Some h \<Rightarrow> put_prev c h (Some n))
        in c\<lparr>head := Some n\<rparr>)"

definition popTail :: "LRUCache \<Rightarrow> ptr \<times> LRUCache" where
  "popTail c =
     (case tail c of
        None \<Rightarrow> (None, c)
      | Some n \<Rightarrow>
          (let c = (case lru_prev c n of Some p \<Rightarrow> put_next c p None | None \<Rightarrow> c\<lparr>head := None\<rparr>)
           in (Some n, c\<lparr>tail := lru_prev c n\<rparr>)))"

definition LRU_Get :: "LRUCache \<Rightarrow> int \<Rightarrow> int \<times> LRUCache" where
  "LRU_Get c k =
     (case map_of (cache c) k of
        None \<Rightarrow> (- 1, c)
      | Some n \<Rightarrow> (let c = moveToHead c n in (lru_val c n, c)))"

definition LRU_Put :: "LRUCache \<Rightarrow> int \<Rightarrow> int \<Rightarrow> LRUCache go" where
  "LRU_Put c k v =
     (case map_of (cache c) k of
        Some n \<Rightarrow> Ok (moveToHead (put_val c n v) n)
      | None \<Rightarrow>
          (let n = free c;
               c = c\<lparr>nodes := (nodes c)(n := \<lparr>key = k, val = v, prev = None, nxt = None\<rparr>),
                     free := Suc n\<rparr>;
               c = c\<lparr>cache := AList.update k n (cache c)\<rparr>;
               c = addHead c n
           in if capacity c < int (length (cache c)) then
                (case popTail c of
                   (None, c) \<Rightarrow> Panic NilDeref
                 | (Some t, c) \<Rightarrow> Ok (c\<lparr>cache := AList.delete (lru_key c t) (cache c)\<rparr>))
              else Ok c))"

section \<open>Fields after an update\<close>

lemma lru_put_simps [simp]:
  "lru_next (put_next c a p) = (lru_next c)(a := p)" "lru_prev (put_next c a p) = lru_prev c"
  "lru_next (put_prev c a p) = lru_next c" "lru_prev (put_prev c a p) = (lru_prev c)(a := p)"
  "lru_next (put_val c a v) = lru_next c" "lru_prev (put_val c a v) = lru_prev c"
  "lru_key (put_next c a p) = lru_key c" "lru_key (put_prev c a p) = lru_key c"
  "lru_key (put_val c a v) = lru_key c" "lru_val (put_val c a v) = (lru_val c)(a := v)"
  "lru_val (put_next c a p) = lru_val c" "lru_val (put_prev c a p) = lru_val c"
  by (auto simp: lru_next_def lru_prev_def lru_key_def lru_val_def put_next_def put_prev_def put_val_def)

lemma lru_frame_simps [simp]:
  "head (put_next c a p) = head c" "head (put_prev c a p) = head c" "head (put_val c a v) = head c"
  "tail (put_next c a p) = tail c" "tail (put_prev c a p) = tail c" "tail (put_val c a v) = tail c"
  "cache (put_next c a p) = cache c" "cache (put_prev c a p) = cache c" "cache (put_val c a v) = cache c"
  "free (put_next c a p) = free c" "free (put_prev c a p) = free c" "free (put_val c a v) = free c"
  "capacity (put_next c a p) = capacity c" "capacity (put_prev c a p) = capacity c"
  "capacity (put_val c a v) = capacity c"
  by (auto simp: put_next_def put_prev_def put_val_def)

lemma lru_field_simps [simp]:
  "lru_next (c\<lparr>head := p\<rparr>) = lru_next c" "lru_next (c\<lparr>tail := p\<rparr>) = lru_next c"
  "lru_prev (c\<lparr>head := p\<rparr>) = lru_prev c" "lru_prev (c\<lparr>tail := p\<rparr>) = lru_prev c"
  "lru_key (c\<lparr>head := p\<rparr>) = lru_key c" "lru_key (c\<lparr>tail := p\<rparr>) = lru_key c"
  "lru_val (c\<lparr>head := p\<rparr>) = lru_val c" "lru_val (c\<lparr>tail := p\<rparr>) = lru_val c"
  "lru_next (c\<lparr>cache := m\<rparr>) = lru_next c" "lru_prev (c\<lparr>cache := m\<rparr>) = lru_prev c"
  "lru_key (c\<lparr>cache := m\<rparr>) = lru_key c" "lru_val (c\<lparr>cache := m\<rparr>) = lru_val c"
  by (auto simp: lru_next_def lru_prev_def lru_key_def lru_val_def)

section \<open>Doubly linked segments\<close>

text \<open>
  \<open>dseg nx pv q as r\<close>: the nodes \<open>as\<close> are linked in both directions, the first one's \<open>prev\<close> is \<open>q\<close>
  and the last one's \<open>next\<close> is \<open>r\<close>.
\<close>

definition first_or :: "ptr \<Rightarrow> nat list \<Rightarrow> ptr" where
  "first_or r as = (case as of [] \<Rightarrow> r | a # _ \<Rightarrow> Some a)"

definition last_or :: "ptr \<Rightarrow> nat list \<Rightarrow> ptr" where
  "last_or q as = (if as = [] then q else Some (last as))"

lemma first_or_simps [simp]:
  "first_or r [] = r" "first_or r (a # as) = Some a" "first_or r (as @ bs) = first_or (first_or r bs) as"
  by (auto simp: first_or_def split: list.split)

lemma last_or_simps [simp]:
  "last_or q [] = q" "last_or q (a # as) = last_or (Some a) as" "last_or q (as @ bs) = last_or (last_or q as) bs"
  by (auto simp: last_or_def)

lemma last_or_Some [simp]:
  "last_or (Some a) as \<noteq> None" "n \<noteq> a \<Longrightarrow> n \<notin> set as \<Longrightarrow> last_or (Some a) as \<noteq> Some n"
  by (auto simp: last_or_def)

fun dseg :: "(nat \<Rightarrow> ptr) \<Rightarrow> (nat \<Rightarrow> ptr) \<Rightarrow> ptr \<Rightarrow> nat list \<Rightarrow> ptr \<Rightarrow> bool" where
  "dseg nx pv q [] r = True"
| "dseg nx pv q (a # as) r \<longleftrightarrow> pv a = q \<and> nx a = first_or r as \<and> dseg nx pv (Some a) as r"

lemma dseg_append [simp]:
  "dseg nx pv q (as @ bs) r \<longleftrightarrow> dseg nx pv q as (first_or r bs) \<and> dseg nx pv (last_or q as) bs r"
  by (induction as arbitrary: q) auto

lemma dseg_next_upd [simp]: "a \<notin> set as \<Longrightarrow> dseg (nx(a := p)) pv q as r = dseg nx pv q as r"
  by (induction as arbitrary: q) auto

lemma dseg_prev_upd [simp]: "a \<notin> set as \<Longrightarrow> dseg nx (pv(a := p)) q as r = dseg nx pv q as r"
  by (induction as arbitrary: q) auto

section \<open>The list operations\<close>

definition lru_list :: "LRUCache \<Rightarrow> nat list \<Rightarrow> bool" where
  "lru_list c as \<longleftrightarrow> dseg (lru_next c) (lru_prev c) None as None \<and> distinct as \<and>
     head c = first_or None as \<and> tail c = last_or None as"

lemma moveToHead_frame [simp]:
  "lru_key (moveToHead c n) = lru_key c" "lru_val (moveToHead c n) = lru_val c"
  "cache (moveToHead c n) = cache c" "free (moveToHead c n) = free c" "capacity (moveToHead c n) = capacity c"
  by (simp_all add: moveToHead_def Let_def split: option.splits)

lemma addHead_frame [simp]:
  "lru_key (addHead c n) = lru_key c" "lru_val (addHead c n) = lru_val c"
  "cache (addHead c n) = cache c" "free (addHead c n) = free c" "capacity (addHead c n) = capacity c"
  by (simp_all add: addHead_def Let_def split: option.splits)

lemma addHead_list: "lru_list c as \<Longrightarrow> n \<notin> set as \<Longrightarrow> lru_list (addHead c n) (n # as)"
  by (cases as) (auto simp: lru_list_def addHead_def Let_def simp del: not_None_eq)

lemma moveToHead_list:
  assumes "lru_list c (us @ n # vs)"
  shows "lru_list (moveToHead c n) (n # us @ vs)"
proof (cases us rule: rev_cases)
  case Nil
  with assms show ?thesis by (simp add: lru_list_def moveToHead_def)
next
  case (snoc us' u)
  show ?thesis
  proof (cases us')
    case Nil
    with assms snoc show ?thesis
      by (cases vs) (auto simp: lru_list_def moveToHead_def Let_def)
  next
    case (Cons h us'')
    with assms snoc show ?thesis
      by (cases vs) (auto simp: lru_list_def moveToHead_def Let_def)
  qed
qed

lemma popTail_list:
  assumes "lru_list c (as @ [n])"
  shows "fst (popTail c) = Some n \<and> lru_list (snd (popTail c)) as \<and> lru_key (snd (popTail c)) = lru_key c \<and>
    lru_val (snd (popTail c)) = lru_val c \<and> cache (snd (popTail c)) = cache c \<and>
    free (snd (popTail c)) = free c \<and> capacity (snd (popTail c)) = capacity c"
  using assms by (cases as rule: rev_cases) (auto simp: lru_list_def popTail_def Let_def)

section \<open>The cache and its specification\<close>

text \<open>
  The invariant adds the map: it holds exactly the nodes of the list, each under its key. The
  specification is the list of the entries, the most recently used first: a lookup moves its entry
  to the front, an insertion adds in front and drops the last entry above the capacity.
\<close>

definition lru_inv :: "LRUCache \<Rightarrow> nat list \<Rightarrow> bool" where
  "lru_inv c as \<longleftrightarrow> lru_list c as \<and> (\<forall>a\<in>set as. a < free c) \<and> distinct (map (lru_key c) as) \<and>
     distinct (map fst (cache c)) \<and> set (cache c) = (\<lambda>a. (lru_key c a, a)) ` set as"

definition lru_entries :: "LRUCache \<Rightarrow> nat list \<Rightarrow> (int \<times> int) list" where
  "lru_entries c as = map (\<lambda>a. (lru_key c a, lru_val c a)) as"

definition lru_rel :: "LRUCache \<Rightarrow> int \<times> (int \<times> int) list \<Rightarrow> bool" where
  "lru_rel c s \<longleftrightarrow> (\<exists>as. lru_inv c as \<and> s = (capacity c, lru_entries c as))"

definition use_entry :: "int \<Rightarrow> (int \<times> int) list \<Rightarrow> (int \<times> int) list" where
  "use_entry k es = filter (\<lambda>e. fst e \<noteq> k) es"

datatype lru_call = CallGet int | CallPut int int

datatype lru_out = Got int | Stored | Crashed go_panic

fun LRU_step :: "LRUCache \<Rightarrow> lru_call \<Rightarrow> lru_out \<times> LRUCache" where
  "LRU_step c (CallGet k) = (case LRU_Get c k of (v, c') \<Rightarrow> (Got v, c'))"
| "LRU_step c (CallPut k v) = (case LRU_Put c k v of Inl e \<Rightarrow> (Crashed e, c) | Inr c' \<Rightarrow> (Stored, c'))"

fun recency_step :: "int \<times> (int \<times> int) list \<Rightarrow> lru_call \<Rightarrow> lru_out \<times> int \<times> (int \<times> int) list" where
  "recency_step (cap, es) (CallGet k) =
     (case map_of es k of
        None \<Rightarrow> (Got (- 1), cap, es)
      | Some v \<Rightarrow> (Got v, cap, (k, v) # use_entry k es))"
| "recency_step (cap, es) (CallPut k v) =
     (let es' = (k, v) # use_entry k es
      in (Stored, cap, if map_of es k = None \<and> cap < int (length es') then butlast es' else es'))"

lemma lru_inv_length: "lru_inv c as \<Longrightarrow> length (cache c) = length as"
proof -
  assume inv: "lru_inv c as"
  then have "distinct (cache c)" "distinct as" by (auto simp: lru_inv_def lru_list_def distinct_map)
  moreover have "card (set (cache c)) = card (set as)"
    using inv by (simp add: lru_inv_def card_image inj_on_def)
  ultimately show ?thesis by (simp add: distinct_card)
qed

lemma lru_inv_map_of:
  "lru_inv c as \<Longrightarrow> map_of (cache c) k = Some a \<longleftrightarrow> a \<in> set as \<and> lru_key c a = k"
  by (auto simp: lru_inv_def map_of_eq_Some_iff)

lemma map_of_entries:
  "distinct (map (lru_key c) as) \<Longrightarrow> a \<in> set as \<Longrightarrow> map_of (lru_entries c as) (lru_key c a) = Some (lru_val c a)"
  by (induction as) (auto simp: lru_entries_def image_iff)

lemma map_of_entries_None:
  "map_of (lru_entries c as) k = None \<longleftrightarrow> k \<notin> lru_key c ` set as"
  by (induction as) (auto simp: lru_entries_def)

lemma use_entry_absent: "map_of es k = None \<Longrightarrow> use_entry k es = es"
  by (auto simp: use_entry_def map_of_eq_None_iff intro!: filter_True)

lemma use_entry_mid:
  "distinct (map (lru_key c) (us @ a # vs)) \<Longrightarrow>
   use_entry (lru_key c a) (lru_entries c (us @ a # vs)) = lru_entries c (us @ vs)"
proof -
  assume "distinct (map (lru_key c) (us @ a # vs))"
  then have "\<forall>e\<in>set (lru_entries c us) \<union> set (lru_entries c vs). fst e \<noteq> lru_key c a"
    by (auto simp: lru_entries_def) (metis image_eqI)+
  then have "use_entry (lru_key c a) (lru_entries c us) = lru_entries c us"
    and "use_entry (lru_key c a) (lru_entries c vs) = lru_entries c vs"
    by (simp_all add: use_entry_def)
  then show ?thesis by (simp add: use_entry_def lru_entries_def)
qed

lemma moveToHead_inv:
  "lru_inv c (us @ n # vs) \<Longrightarrow> lru_inv (moveToHead c n) (n # us @ vs)"
  using moveToHead_list by (auto simp: lru_inv_def)

text \<open>A lookup of a key that is present, with its node in the list.\<close>

lemma lru_inv_hit:
  assumes "lru_inv c as" "map_of (cache c) k = Some n"
  obtains us vs where "as = us @ n # vs" "lru_key c n = k" "lru_inv (moveToHead c n) (n # us @ vs)"
    "use_entry k (lru_entries c as) = lru_entries c (us @ vs)"
    "map_of (lru_entries c as) k = Some (lru_val c n)"
proof -
  from assms have n: "n \<in> set as" "lru_key c n = k" by (simp_all add: lru_inv_map_of)
  then obtain us vs where as: "as = us @ n # vs" by (auto simp: in_set_conv_decomp)
  have d: "distinct (map (lru_key c) as)" using assms(1) by (simp add: lru_inv_def)
  show thesis
    using that [OF as n(2)] moveToHead_inv [of c us n vs] assms(1) use_entry_mid [of c us n vs]
      map_of_entries [OF d n(1)] d n(2) as by simp
qed

lemma update_absent: "map_of al k = None \<Longrightarrow> AList.update k v al = al @ [(k, v)]"
  by (induction al) (auto split: if_splits)

text \<open>An insertion of a key that is absent: the new node's address is fresh.\<close>

definition fresh_node :: "LRUCache \<Rightarrow> int \<Rightarrow> int \<Rightarrow> LRUCache" where
  "fresh_node c k v =
     addHead (c\<lparr>nodes := (nodes c)(free c := \<lparr>key = k, val = v, prev = None, nxt = None\<rparr>),
                free := Suc (free c), cache := AList.update k (free c) (cache c)\<rparr>) (free c)"

lemma dseg_cong:
  "dseg nx pv q as r \<Longrightarrow> (\<And>a. a \<in> set as \<Longrightarrow> nx' a = nx a \<and> pv' a = pv a) \<Longrightarrow> dseg nx' pv' q as r"
  by (induction as arbitrary: q) auto

lemma fresh_node_inv:
  assumes inv: "lru_inv c as" and absent: "map_of (cache c) k = None"
  shows "lru_inv (fresh_node c k v) (free c # as)"
    and "lru_entries (fresh_node c k v) (free c # as) = (k, v) # lru_entries c as"
    and "capacity (fresh_node c k v) = capacity c"
proof -
  let ?c = "c\<lparr>nodes := (nodes c)(free c := \<lparr>key = k, val = v, prev = None, nxt = None\<rparr>),
                free := Suc (free c), cache := AList.update k (free c) (cache c)\<rparr>"
  have low: "a < free c" if "a \<in> set as" for a using inv that by (simp add: lru_inv_def)
  then have fresh: "free c \<notin> set as" by blast
  have keys: "lru_key (fresh_node c k v) = (lru_key c)(free c := k)"
    and vals: "lru_val (fresh_node c k v) = (lru_val c)(free c := v)"
    unfolding fresh_node_def addHead_frame by (auto simp: lru_key_def lru_val_def)
  have frees: "free (fresh_node c k v) = Suc (free c)"
    and caches: "cache (fresh_node c k v) = AList.update k (free c) (cache c)"
    by (simp_all add: fresh_node_def)
  have "dseg (lru_next ?c) (lru_prev ?c) None as None"
    by (rule dseg_cong [of "lru_next c" "lru_prev c"])
      (use inv low fresh in \<open>auto simp: lru_inv_def lru_list_def lru_next_def lru_prev_def\<close>)
  then have "lru_list ?c as" using inv by (simp add: lru_inv_def lru_list_def)
  then have l: "lru_list (fresh_node c k v) (free c # as)"
    unfolding fresh_node_def using fresh by (rule addHead_list)
  have other: "lru_key c a \<noteq> k" if "a \<in> set as" for a
    using lru_inv_map_of [OF inv, of k a] absent that by auto
  have app: "AList.update k (free c) (cache c) = cache c @ [(k, free c)]"
    using absent by (rule update_absent)
  have "k \<notin> fst ` set (cache c)" using absent by (simp add: map_of_eq_None_iff)
  moreover have "(\<lambda>a. (if a = free c then k else lru_key c a, a)) ` set as = (\<lambda>a. (lru_key c a, a)) ` set as"
    using fresh by (intro image_cong) auto
  ultimately show "lru_inv (fresh_node c k v) (free c # as)"
    using inv l fresh low other unfolding lru_inv_def
    by (auto simp: keys frees caches app less_Suc_eq simp del: image_image)
  show "lru_entries (fresh_node c k v) (free c # as) = (k, v) # lru_entries c as"
    using fresh by (auto simp: lru_entries_def keys vals)
  show "capacity (fresh_node c k v) = capacity c" by (simp add: fresh_node_def)
qed

text \<open>An eviction.\<close>

lemma evict_inv:
  assumes inv: "lru_inv c (as @ [t])"
  defines "c' \<equiv> (snd (popTail c))\<lparr>cache := AList.delete (lru_key c t) (cache c)\<rparr>"
  shows "lru_inv c' as" and "lru_entries c' as = butlast (lru_entries c (as @ [t]))"
    and "capacity c' = capacity c"
proof -
  have l: "lru_list c (as @ [t])" using inv by (simp add: lru_inv_def)
  note pop = popTail_list [OF l]
  have f: "lru_key c' = lru_key c" "lru_val c' = lru_val c" "capacity c' = capacity c" "free c' = free c"
    using pop by (simp_all add: c'_def)
  have l': "lru_list c' as" using pop by (simp add: c'_def lru_list_def)
  have m: "set (AList.delete (lru_key c t) (cache c)) = {p \<in> set (cache c). fst p \<noteq> lru_key c t}"
    by (auto simp: AList.delete_eq)
  have t: "lru_key c a \<noteq> lru_key c t" if "a \<in> set as" for a
    using inv that by (auto simp: lru_inv_def) (metis image_eqI)
  show "lru_inv c' as"
    using inv l' f m t unfolding lru_inv_def
    by (auto simp: c'_def AList.distinct_delete)
  show "lru_entries c' as = butlast (lru_entries c (as @ [t]))"
    by (simp add: lru_entries_def f)
  show "capacity c' = capacity c" by (fact f)
qed

section \<open>The operations implement the specification\<close>

lemma LRU_Get_step:
  assumes "lru_rel c s"
  shows "fst (LRU_step c (CallGet k)) = fst (recency_step s (CallGet k)) \<and>
    lru_rel (snd (LRU_step c (CallGet k))) (snd (recency_step s (CallGet k)))"
proof -
  from assms obtain as where inv: "lru_inv c as" and s: "s = (capacity c, lru_entries c as)"
    by (auto simp: lru_rel_def)
  show ?thesis
  proof (cases "map_of (cache c) k")
    case None
    then have "k \<notin> lru_key c ` set as" using lru_inv_map_of [OF inv, of k] by auto
    then have "map_of (lru_entries c as) k = None" by (simp add: map_of_entries_None)
    with None assms s show ?thesis by (simp add: LRU_Get_def)
  next
    case (Some n)
    then obtain us vs where h: "lru_key c n = k" "lru_inv (moveToHead c n) (n # us @ vs)"
      "use_entry k (lru_entries c as) = lru_entries c (us @ vs)"
      "map_of (lru_entries c as) k = Some (lru_val c n)"
      using lru_inv_hit [OF inv Some] by metis
    show ?thesis
      using h Some s by (auto simp: LRU_Get_def Let_def lru_rel_def lru_entries_def intro!: exI [of _ "n # us @ vs"])
  qed
qed

lemma put_val_inv: "lru_inv c as \<Longrightarrow> lru_inv (put_val c n v) as"
  by (simp add: lru_inv_def lru_list_def)

lemma LRU_Put_hit:
  assumes inv: "lru_inv c as" and hit: "map_of (cache c) k = Some n"
  shows "\<exists>d. LRU_Put c k v = Ok d \<and> lru_rel d (capacity c, (k, v) # use_entry k (lru_entries c as)) \<and>
    map_of (lru_entries c as) k \<noteq> None"
proof -
  obtain us vs where h: "as = us @ n # vs" "lru_key c n = k"
    "use_entry k (lru_entries c as) = lru_entries c (us @ vs)" "map_of (lru_entries c as) k = Some (lru_val c n)"
    using lru_inv_hit [OF inv hit] by metis
  let ?c = "moveToHead (put_val c n v) n"
  have i: "lru_inv ?c (n # us @ vs)" using put_val_inv [OF inv] moveToHead_inv h(1) by metis
  have "n \<notin> set (us @ vs)" using inv h(1) by (auto simp: lru_inv_def lru_list_def)
  then have "lru_entries ?c (n # us @ vs) = (k, v) # lru_entries c (us @ vs)"
    using h(2) by (auto simp: lru_entries_def)
  with i have "lru_rel ?c (capacity c, (k, v) # lru_entries c (us @ vs))"
    unfolding lru_rel_def by (auto intro!: exI [of _ "n # us @ vs"])
  moreover have "LRU_Put c k v = Ok ?c" using hit by (simp add: LRU_Put_def)
  ultimately show ?thesis using h(3,4) by simp
qed

lemma LRU_Put_miss:
  assumes inv: "lru_inv c as" and miss: "map_of (cache c) k = None"
  shows "LRU_Put c k v = (if capacity c < 1 + int (length as) then
      (case popTail (fresh_node c k v) of (None, d) \<Rightarrow> Panic NilDeref
       | (Some t, d) \<Rightarrow> Ok (d\<lparr>cache := AList.delete (lru_key d t) (cache d)\<rparr>))
     else Ok (fresh_node c k v))"
proof -
  note fn = fresh_node_inv [OF inv miss, of v]
  have "length (cache (fresh_node c k v)) = Suc (length as)" using lru_inv_length [OF fn(1)] by simp
  then show ?thesis using miss fn(3) by (simp add: LRU_Put_def fresh_node_def Let_def)
qed

lemma LRU_Put_insert:
  assumes inv: "lru_inv c as" and miss: "map_of (cache c) k = None" and "\<not> capacity c < 1 + int (length as)"
  shows "\<exists>d. LRU_Put c k v = Ok d \<and> lru_rel d (capacity c, (k, v) # lru_entries c as)"
proof -
  have "lru_rel (fresh_node c k v) (capacity c, (k, v) # lru_entries c as)"
    unfolding lru_rel_def using fresh_node_inv [OF inv miss, of v] by (auto intro!: exI [of _ "free c # as"])
  with assms show ?thesis by (simp add: LRU_Put_miss)
qed

lemma LRU_Put_evict:
  assumes inv: "lru_inv c as" and miss: "map_of (cache c) k = None" and full: "capacity c < 1 + int (length as)"
  shows "\<exists>d. LRU_Put c k v = Ok d \<and> lru_rel d (capacity c, butlast ((k, v) # lru_entries c as))"
proof -
  let ?c = "fresh_node c k v"
  note fn = fresh_node_inv [OF inv miss, of v]
  obtain bs t where bs: "free c # as = bs @ [t]" by (cases "free c # as" rule: rev_cases) auto
  note ev = evict_inv [OF fn(1) [unfolded bs]]
  have "lru_list ?c (bs @ [t])" using fn(1) bs by (simp add: lru_inv_def)
  note pop = popTail_list [OF this]
  let ?d = "(snd (popTail ?c))\<lparr>cache := AList.delete (lru_key ?c t) (cache ?c)\<rparr>"
  have "LRU_Put c k v = Ok ?d"
    using full pop by (cases "popTail ?c") (simp add: LRU_Put_miss [OF inv miss])
  moreover have "lru_rel ?d (capacity c, butlast ((k, v) # lru_entries c as))"
    unfolding lru_rel_def using ev fn(2,3) bs by (metis prod.collapse prod.inject)
  ultimately show ?thesis by blast
qed

lemma LRU_Put_step:
  assumes "lru_rel c s"
  shows "fst (LRU_step c (CallPut k v)) = fst (recency_step s (CallPut k v)) \<and>
    lru_rel (snd (LRU_step c (CallPut k v))) (snd (recency_step s (CallPut k v)))"
proof -
  from assms obtain as where inv: "lru_inv c as" and s: "s = (capacity c, lru_entries c as)"
    by (auto simp: lru_rel_def)
  have len: "length (lru_entries c as) = length as" by (simp add: lru_entries_def)
  show ?thesis
  proof (cases "map_of (cache c) k")
    case (Some n)
    from LRU_Put_hit [OF inv this, of v] s show ?thesis by (auto simp: Let_def)
  next
    case None
    then have "k \<notin> lru_key c ` set as" using lru_inv_map_of [OF inv, of k] by auto
    then have none: "map_of (lru_entries c as) k = None" by (simp add: map_of_entries_None)
    show ?thesis
    proof (cases "capacity c < 1 + int (length as)")
      case True
      from LRU_Put_evict [OF inv None True, of v] none s True show ?thesis
        by (auto simp: Let_def use_entry_absent len)
    next
      case False
      from LRU_Put_insert [OF inv None False, of v] none s False show ?thesis
        by (auto simp: Let_def use_entry_absent len)
    qed
  qed
qed

interpretation lru: refines LRU_step recency_step lru_rel "\<lambda>_. True"
proof
  fix c s and p :: lru_call
  assume "lru_rel c s"
  then show "fst (LRU_step c p) = fst (recency_step s p)"
    and "lru_rel (snd (LRU_step c p)) (snd (recency_step s p))"
    using LRU_Get_step LRU_Put_step by (cases p; blast)+
qed

lemma lru_rel_new: "lru_rel (NewLRUCache cap) (cap, [])"
  by (auto simp: lru_rel_def lru_inv_def lru_list_def NewLRUCache_def lru_entries_def intro!: exI [of _ "[]"])

text \<open>The specification never holds more entries than the capacity, nor a key twice.\<close>

definition bounded_entries :: "int \<times> (int \<times> int) list \<Rightarrow> bool" where
  "bounded_entries s \<longleftrightarrow> distinct (map fst (snd s)) \<and> int (length (snd s)) \<le> max 0 (fst s)"

lemma use_entry_distinct:
  "distinct (map fst es) \<Longrightarrow> distinct (map fst ((k, v) # use_entry k es))"
  by (auto simp: use_entry_def distinct_map_filter)

lemma use_entry_length:
  "map_of es k = Some w \<Longrightarrow> length (use_entry k es) < length es"
  unfolding use_entry_def by (rule length_filter_less [of "(k, w)"]) (auto dest: map_of_SomeD)

lemma recency_step_bounded:
  "bounded_entries s \<Longrightarrow> bounded_entries (snd (recency_step s p)) \<and> fst (snd (recency_step s p)) = fst s"
proof (induction s p rule: recency_step.induct)
  case (1 cap es k)
  then show ?case
    using use_entry_distinct [of es k] use_entry_length [of es k]
    by (force simp: bounded_entries_def split: option.splits)
next
  case (2 cap es k v)
  show ?case
  proof (cases "map_of es k")
    case None
    then show ?thesis
      using 2 use_entry_distinct [of es k v] use_entry_absent [OF None]
      by (auto simp: bounded_entries_def Let_def map_butlast simp del: butlast.simps intro!: distinct_butlast)
  next
    case (Some w)
    then show ?thesis
      using 2 use_entry_distinct [of es k v] use_entry_length [OF Some]
      by (auto simp: bounded_entries_def Let_def)
  qed
qed

lemma recency_run_bounded:
  "bounded_entries s \<Longrightarrow> bounded_entries (snd (run_ops recency_step s ps)) \<and>
   fst (snd (run_ops recency_step s ps)) = fst s"
proof (induction ps arbitrary: s)
  case (Cons p ps)
  then show ?case using recency_step_bounded [of s p]
    by (simp add: Let_def split_beta)
qed simp

lemma lru_rel_length: "lru_rel c s \<Longrightarrow> length (cache c) = length (snd s) \<and> capacity c = fst s"
  by (auto simp: lru_rel_def lru_entries_def lru_inv_length)

text \<open>
  C2: A cache made by \<open>NewLRUCache\<close> answers every sequence of \<open>Get\<close> and \<open>Put\<close> as the recency list
  does: a hit returns the value stored last and makes its entry the most recent, a miss returns -1, an
  insertion above the capacity drops the least recently used entry, and no call dereferences a nil
  tail. The map never keeps more entries than the capacity (none when it is not positive).
\<close>

theorem lru_refines_recency:
  "fst (run_ops LRU_step (NewLRUCache cap) ps) = fst (run_ops recency_step (cap, []) ps) \<and>
   int (length (cache (snd (run_ops LRU_step (NewLRUCache cap) ps)))) \<le> max 0 cap"
proof -
  have "bounded_entries (cap, [])" by (simp add: bounded_entries_def)
  from recency_run_bounded [OF this, of ps]
  have "int (length (snd (snd (run_ops recency_step (cap, []) ps)))) \<le> max 0 cap"
    by (metis bounded_entries_def fst_conv)
  then show ?thesis
    using lru.run_outputs [OF lru_rel_new, of ps cap]
      lru_rel_length [OF lru.run_invariant [OF lru_rel_new, of ps cap]]
    by simp
qed

end
