(* ===== verification/Sha256.thy ===== *)
theory Sha256
  imports GoPrelude "HOL-Library.Word"
begin

text \<open>
  Bytes, and Go's \<open>crypto/sha256.Sum256\<close> as the standard FIPS 180-4 defines it. The Merkle trees
  rely on nothing of it but that a digest has 32 bytes; the definition is executable.
\<close>

unbundle bit_operations_syntax

type_synonym byte = "8 word"
type_synonym bytes = "byte list"

text \<open>
  The constants are the first 32 bits of the fractional parts of cube and square roots of primes.
  \<open>int_root k n\<close> is the integer \<open>k\<close>-th root, one bit after the other.
\<close>

definition int_root :: "nat \<Rightarrow> int \<Rightarrow> int" where
  "int_root k n = foldl (\<lambda>r b. if (r + 2 ^ b) ^ k \<le> n then r + 2 ^ b else r) 0 (rev [0..<40])"

definition sha256_K :: "32 word list" where
  "sha256_K = map (\<lambda>p. of_int (int_root 3 (int p * 2 ^ 96))) (filter (\<lambda>p. list_all (\<lambda>q. p mod q \<noteq> 0) [2..<p]) [2..<312])"

definition sha256_H0 :: "32 word list" where
  "sha256_H0 = map (\<lambda>p. of_int (int_root 2 (p * 2 ^ 64))) [2, 3, 5, 7, 11, 13, 17, 19]"

text \<open>The low \<open>n\<close> bytes of a word, the most significant first.\<close>

definition be_bytes :: "nat \<Rightarrow> 'a::len word \<Rightarrow> bytes" where
  "be_bytes n w = map (\<lambda>i. ucast (drop_bit (8 * i) w)) (rev [0..<n])"

lemma length_be_bytes [simp]: "length (be_bytes n w) = n"
  by (simp add: be_bytes_def)

definition sha256_pad :: "bytes \<Rightarrow> bytes" where
  "sha256_pad msg =
     (let n = length msg
      in msg @ [0x80] @ replicate ((119 - n mod 64) mod 64) 0 @ be_bytes 8 (of_nat (8 * n) :: 64 word))"

fun be32 :: "bytes \<Rightarrow> 32 word list" where
  "be32 (a # b # c # d # bs) = (push_bit 24 (ucast a) OR push_bit 16 (ucast b) OR push_bit 8 (ucast c) OR ucast d) # be32 bs"
| "be32 _ = []"

text \<open>The message schedule keeps its last 16 words, the most recent first.\<close>

definition sha256_next :: "32 word list \<Rightarrow> 32 word" where
  "sha256_next ws =
     (let x = ws ! 1; y = ws ! 14
      in (word_rotr 17 x XOR word_rotr 19 x XOR drop_bit 10 x) + ws ! 6 +
         (word_rotr 7 y XOR word_rotr 18 y XOR drop_bit 3 y) + ws ! 15)"

fun sha256_schedule :: "nat \<Rightarrow> 32 word list \<Rightarrow> 32 word list" where
  "sha256_schedule 0 ws = rev ws"
| "sha256_schedule (Suc n) ws = sha256_schedule n (sha256_next ws # ws)"

definition sha256_round :: "32 word list \<Rightarrow> 32 word \<times> 32 word \<Rightarrow> 32 word list" where
  "sha256_round s kw =
     (let a = s ! 0; b = s ! 1; c = s ! 2; d = s ! 3; e = s ! 4; f = s ! 5; g = s ! 6; h = s ! 7;
          t1 = h + (word_rotr 6 e XOR word_rotr 11 e XOR word_rotr 25 e) +
               ((e AND f) XOR (NOT e AND g)) + fst kw + snd kw;
          t2 = (word_rotr 2 a XOR word_rotr 13 a XOR word_rotr 22 a) +
               ((a AND b) XOR (a AND c) XOR (b AND c))
      in [t1 + t2, a, b, c, d + t1, e, f, g])"

definition sha256_compress :: "32 word list \<Rightarrow> 32 word list \<Rightarrow> 32 word list" where
  "sha256_compress s block =
     map2 (+) s (foldl sha256_round s (zip sha256_K (sha256_schedule 48 (rev block))))"

fun sha256_blocks :: "nat \<Rightarrow> 32 word list \<Rightarrow> 32 word list \<Rightarrow> 32 word list" where
  "sha256_blocks 0 s ws = s"
| "sha256_blocks (Suc n) s ws = sha256_blocks n (sha256_compress s (take 16 ws)) (drop 16 ws)"

definition Sum256 :: "bytes \<Rightarrow> bytes" where
  "Sum256 msg =
     (let ws = be32 (sha256_pad msg)
      in concat (map (be_bytes 4) (sha256_blocks (length ws div 16) sha256_H0 ws)))"

lemma length_foldl_round: "length s = 8 \<Longrightarrow> length (foldl sha256_round s kws) = 8"
  by (induction kws arbitrary: s) (simp_all add: sha256_round_def Let_def)

lemma length_compress: "length s = 8 \<Longrightarrow> length (sha256_compress s block) = 8"
  by (simp add: sha256_compress_def length_foldl_round)

lemma length_blocks: "length s = 8 \<Longrightarrow> length (sha256_blocks n s ws) = 8"
  by (induction n arbitrary: s ws) (simp_all add: length_compress)

lemma length_concat_const: "(\<And>x. x \<in> set xs \<Longrightarrow> length (f x) = n) \<Longrightarrow> length (concat (map f xs)) = n * length xs"
  by (induction xs) auto

lemma length_Sum256 [simp]: "length (Sum256 msg) = 32"
proof -
  have "length (sha256_blocks n sha256_H0 ws) = 8" for n ws
    by (rule length_blocks) (simp add: sha256_H0_def)
  then show ?thesis
    unfolding Sum256_def Let_def by (subst length_concat_const [where n = 4]) simp_all
qed

end
