(* ===== verification/MerkleTrees.thy ===== *)
theory MerkleTrees
  imports PointerLists Sha256
begin

text \<open>
  The binary Merkle tree of \<open>data-structures/merkle.go\<close>. Nodes point to their children and to their
  parent and are compared by address, so a tree lives in a store of nodes with the next free
  address. A nil slice and an empty one are the same list here, which the code does not tell apart.
\<close>

section \<open>State\<close>

record MerkleNode =
  Hash :: bytes
  Left :: ptr
  Right :: ptr
  Parent :: ptr

record MerkleTree =
  root :: ptr
  leaves :: "nat list"

record MerkleProof =
  Siblings :: "bytes list"
  PathBits :: "bool list"
  LeafHash :: bytes
  RootHash :: bytes

record node_store =
  node :: "nat \<Rightarrow> MerkleNode"
  avail :: nat

datatype proof_error = IndexOutOfBounds | MalformedTree

definition alloc :: "node_store \<Rightarrow> MerkleNode \<Rightarrow> nat \<times> node_store" where
  "alloc s n = (avail s, \<lparr>node = (node s)(avail s := n), avail = Suc (avail s)\<rparr>)"

definition set_parent :: "node_store \<Rightarrow> nat \<Rightarrow> nat \<Rightarrow> node_store" where
  "set_parent s a p = s\<lparr>node := (node s)(a := (node s a)\<lparr>Parent := Some p\<rparr>)\<rparr>"

section \<open>Operations\<close>

definition hashPair :: "bytes \<Rightarrow> bytes \<Rightarrow> bytes" where
  "hashPair left right = Sum256 (left @ right)"

definition buildParent :: "node_store \<Rightarrow> nat \<Rightarrow> nat \<Rightarrow> nat \<times> node_store" where
  "buildParent s l r =
     (let (p, s) = alloc s \<lparr>Hash = hashPair (Hash (node s l)) (Hash (node s r)),
                            Left = Some l, Right = Some r, Parent = None\<rparr>
      in (p, set_parent (set_parent s l p) r p))"

fun buildParentLevel :: "node_store \<Rightarrow> nat list \<Rightarrow> nat list \<times> node_store" where
  "buildParentLevel s [] = ([], s)"
| "buildParentLevel s [l] = (let (p, s) = buildParent s l l in ([p], s))"
| "buildParentLevel s (l # r # children) =
     (let (p, s) = buildParent s l r; (ps, s) = buildParentLevel s children in (p # ps, s))"

lemma length_buildParentLevel [simp]: "length (fst (buildParentLevel s ns)) = (length ns + 1) div 2"
proof (induction s ns rule: buildParentLevel.induct)
  case (3 s l r children)
  then show ?case by (cases "buildParent s l r") (auto simp: split_beta)
qed (simp_all add: split_beta)

function buildLevels :: "node_store \<Rightarrow> nat list \<Rightarrow> nat list \<times> node_store" where
  "buildLevels s nextLevel =
     (if 1 < length nextLevel
      then buildLevels (snd (buildParentLevel s nextLevel)) (fst (buildParentLevel s nextLevel))
      else (nextLevel, s))"
  by pat_completeness auto
termination by (relation "measure (\<lambda>(s, ns). length ns)") auto

declare buildLevels.simps [simp del]

fun newLeaves :: "node_store \<Rightarrow> bytes list \<Rightarrow> nat list \<times> node_store" where
  "newLeaves s [] = ([], s)"
| "newLeaves s (b # data) =
     (let (a, s) = alloc s \<lparr>Hash = Sum256 b, Left = None, Right = None, Parent = None\<rparr>;
          (as, s) = newLeaves s data
      in (a # as, s))"

definition NewMerkleTree :: "node_store \<Rightarrow> bytes list \<Rightarrow> MerkleTree \<times> node_store" where
  "NewMerkleTree s data =
     (if data = [] then (\<lparr>root = None, leaves = []\<rparr>, s)
      else let (ls, s) = newLeaves s data
           in if length ls = 1 then (\<lparr>root = Some (ls ! 0), leaves = ls\<rparr>, s)
              else let (nextLevel, s) = buildParentLevel s ls;
                       (nextLevel, s) = buildLevels s nextLevel
                   in (\<lparr>root = Some (nextLevel ! 0), leaves = ls\<rparr>, s))"

definition MerkleTree_Root :: "node_store \<Rightarrow> MerkleTree \<Rightarrow> bytes" where
  "MerkleTree_Root s t = (case root t of None \<Rightarrow> [] | Some r \<Rightarrow> Hash (node s r))"

partial_function (option) GenerateProof_loop ::
    "node_store \<Rightarrow> nat \<Rightarrow> MerkleProof \<Rightarrow> MerkleProof go option" where
  "GenerateProof_loop s n proof =
     (case Parent (node s n) of
        None \<Rightarrow> Some (Ok proof)
      | Some p \<Rightarrow>
          (let siblingIsRight = (Left (node s p) = Some n)
           in case (if siblingIsRight then Right (node s p) else Left (node s p)) of
                None \<Rightarrow> Some (Panic NilDeref)
              | Some sib \<Rightarrow>
                  GenerateProof_loop s p (proof\<lparr>PathBits := PathBits proof @ [siblingIsRight],
                                                Siblings := Siblings proof @ [Hash (node s sib)]\<rparr>)))"

definition GenerateProof ::
    "node_store \<Rightarrow> MerkleTree \<Rightarrow> int \<Rightarrow> (proof_error + MerkleProof) go option" where
  "GenerateProof s t index =
     (if index < 0 \<or> int (length (leaves t)) \<le> index then Some (Ok (Inl IndexOutOfBounds))
      else case root t of
             None \<Rightarrow> Some (Ok (Inl MalformedTree))
           | Some r \<Rightarrow>
               (let leaf = leaves t ! nat index;
                    proof = \<lparr>Siblings = [], PathBits = [], LeafHash = Hash (node s leaf), RootHash = Hash (node s r)\<rparr>
                in map_option (\<lambda>m. go_bind m (\<lambda>p. Ok (Inr p))) (GenerateProof_loop s leaf proof)))"

fun recompute :: "bytes \<Rightarrow> bytes list \<Rightarrow> bool list \<Rightarrow> bytes" where
  "recompute hash (sib # sibs) (sibIsRight # bits) =
     recompute (if sibIsRight then hashPair hash sib else hashPair sib hash) sibs bits"
| "recompute hash _ _ = hash"

definition VerifyProof :: "MerkleProof option \<Rightarrow> bool" where
  "VerifyProof proof =
     (case proof of
        None \<Rightarrow> False
      | Some p \<Rightarrow>
          (if LeafHash p = [] \<or> RootHash p = [] \<or> length (Siblings p) \<noteq> length (PathBits p) then False
           else recompute (LeafHash p) (Siblings p) (PathBits p) = RootHash p))"

section \<open>Linked levels\<close>

text \<open>
  \<open>family s l r p\<close>: the node \<open>p\<close> is the parent of \<open>l\<close> and \<open>r\<close> (\<open>l = r\<close> for the last of an odd level).
  \<open>linked s ns ps\<close>: the level \<open>ps\<close> is above \<open>ns\<close>. \<open>tower s ns r\<close>: levels above \<open>ns\<close> up to the root \<open>r\<close>.
\<close>

definition family :: "node_store \<Rightarrow> nat \<Rightarrow> nat \<Rightarrow> nat \<Rightarrow> bool" where
  "family s l r p \<longleftrightarrow> Parent (node s l) = Some p \<and> Parent (node s r) = Some p \<and>
     Left (node s p) = Some l \<and> Right (node s p) = Some r \<and>
     Hash (node s p) = hashPair (Hash (node s l)) (Hash (node s r))"

fun linked :: "node_store \<Rightarrow> nat list \<Rightarrow> nat list \<Rightarrow> bool" where
  "linked s [] ps \<longleftrightarrow> ps = []"
| "linked s [l] ps \<longleftrightarrow> (\<exists>p. ps = [p] \<and> family s l l p)"
| "linked s (l # r # ns) ps \<longleftrightarrow> (\<exists>p qs. ps = p # qs \<and> l \<noteq> r \<and> family s l r p \<and> linked s ns qs)"

inductive tower :: "node_store \<Rightarrow> nat list \<Rightarrow> nat \<Rightarrow> bool" for s where
  top: "Parent (node s r) = None \<Longrightarrow> tower s [r] r"
| level: "1 < length ns \<Longrightarrow> linked s ns ps \<Longrightarrow> tower s ps r \<Longrightarrow> tower s ns r"

definition same_links :: "node_store \<Rightarrow> node_store \<Rightarrow> nat \<Rightarrow> bool" where
  "same_links s s' a \<longleftrightarrow> Hash (node s' a) = Hash (node s a) \<and> Left (node s' a) = Left (node s a) \<and>
     Right (node s' a) = Right (node s a)"

lemma linked_length: "linked s ns ps \<Longrightarrow> length ps = (length ns + 1) div 2"
  by (induction s ns ps rule: linked.induct) auto

lemma linked_mono:
  "linked s ns ps \<Longrightarrow> (\<And>a. a \<in> set ns \<union> set ps \<Longrightarrow> same_links s s' a) \<Longrightarrow>
   (\<And>a. a \<in> set ns \<Longrightarrow> Parent (node s' a) = Parent (node s a)) \<Longrightarrow> linked s' ns ps"
proof (induction s ns ps rule: linked.induct)
  case (3 s l r ns ps)
  from 3(2) obtain p qs where ps: "ps = p # qs" "l \<noteq> r" "family s l r p" "linked s ns qs" by auto
  have "linked s' ns qs" using 3(1) [OF ps(4)] 3(3,4) ps(1) by auto
  moreover have "family s' l r p" using ps(3) 3(3,4) ps(1) by (auto simp: family_def same_links_def)
  ultimately show ?case using ps by auto
qed (auto simp: family_def same_links_def)

text \<open>One level: what the new nodes are, and what stays.\<close>

lemma buildParentLevel_linked:
  "distinct ns \<Longrightarrow> (\<forall>a\<in>set ns. a < avail s) \<Longrightarrow> buildParentLevel s ns = (ps, s') \<Longrightarrow>
   linked s' ns ps \<and> ps = [avail s ..< avail s'] \<and> avail s \<le> avail s' \<and>
   (\<forall>a < avail s. same_links s s' a \<and> (a \<notin> set ns \<longrightarrow> Parent (node s' a) = Parent (node s a))) \<and>
   (\<forall>p\<in>set ps. Parent (node s' p) = None)"
proof (induction s ns arbitrary: ps s' rule: buildParentLevel.induct)
  case (3 s l r children)
  obtain p s1 where b: "buildParent s l r = (p, s1)" by fastforce
  obtain qs t where e: "buildParentLevel s1 children = (qs, t)" by fastforce
  then have rec: "buildParentLevel s1 children = (qs, s')" and ps: "ps = p # qs"
    using 3(4) b by auto
  have p: "p = avail s" "avail s1 = Suc (avail s)"
    using b by (auto simp: buildParent_def alloc_def set_parent_def)
  have s1: "same_links s s1 a" "a \<notin> {l, r} \<Longrightarrow> Parent (node s1 a) = Parent (node s a)" if "a < avail s" for a
    using b that by (auto simp: buildParent_def alloc_def set_parent_def same_links_def)
  have fam: "family s1 l r p" "Parent (node s1 p) = None"
    using b 3(3) by (auto simp: buildParent_def alloc_def set_parent_def family_def)
  have pre: "distinct children" "\<forall>a\<in>set children. a < avail s1" using 3(2,3) p(2) by auto
  have IH: "linked s' children qs" "qs = [avail s1 ..< avail s']" "avail s1 \<le> avail s'"
    "\<forall>a < avail s1. same_links s1 s' a \<and> (a \<notin> set children \<longrightarrow> Parent (node s' a) = Parent (node s1 a))"
    "\<forall>p\<in>set qs. Parent (node s' p) = None"
    using 3(1) [OF b [symmetric] refl pre rec] by blast+
  have ok: "l \<notin> set children" "r \<notin> set children" "p \<notin> set children" "l < avail s1" "r < avail s1" "p < avail s1"
    using 3(2,3) p by auto
  then have "family s' l r p" using fam IH(4) by (auto simp: family_def same_links_def)
  moreover have "Parent (node s' p) = None" using fam IH(4) ok by auto
  ultimately show ?case
    using IH s1 p ps 3(2) by (auto simp: same_links_def upt_conv_Cons less_Suc_eq)
qed (auto simp: buildParent_def alloc_def set_parent_def family_def same_links_def)

lemma tower_mono:
  "tower s ns r \<Longrightarrow> (\<And>a. Parent (node s' a) = Parent (node s a) \<and> same_links s s' a) \<Longrightarrow> tower s' ns r"
proof (induction rule: tower.induct)
  case (level ns ps r)
  then show ?case using linked_mono [of s ns ps s'] by (blast intro: tower.level)
qed (simp add: tower.top)

lemma buildLevels_tower:
  "ns \<noteq> [] \<Longrightarrow> distinct ns \<Longrightarrow> (\<forall>a\<in>set ns. a < avail s \<and> Parent (node s a) = None) \<Longrightarrow>
   \<exists>r s'. buildLevels s ns = ([r], s') \<and> tower s' ns r \<and>
     (\<forall>a < avail s. same_links s s' a \<and> (a \<notin> set ns \<longrightarrow> Parent (node s' a) = Parent (node s a)))"
proof (induction s ns rule: buildLevels.induct)
  case (1 s ns)
  show ?case
  proof (cases "1 < length ns")
    case False
    then obtain r where "ns = [r]" using 1(2) by (cases ns) auto
    with 1(4) show ?thesis by (auto simp: same_links_def buildLevels.simps [of s "[r]"] intro: tower.top)
  next
    case True
    obtain ps s1 where b: "buildParentLevel s ns = (ps, s1)" by fastforce
    have low: "\<forall>a\<in>set ns. a < avail s" using 1(4) by blast
    note lv = buildParentLevel_linked [OF 1(3) low b]
    have "ps \<noteq> []" using length_buildParentLevel [of s ns] b True by auto
    moreover have "distinct ps" "\<forall>a\<in>set ps. a < avail s1 \<and> Parent (node s1 a) = None" using lv by auto
    ultimately obtain r s' where rec: "buildLevels s1 ps = ([r], s')" "tower s' ps r"
      and frame: "\<forall>a < avail s1. same_links s1 s' a \<and> (a \<notin> set ps \<longrightarrow> Parent (node s' a) = Parent (node s1 a))"
      using 1(1) [OF True] unfolding b fst_conv snd_conv by blast
    have old: "a < avail s1" "a \<notin> set ps" if "a < avail s" for a using that lv by auto
    have "linked s' ns ps"
      using lv frame low old by (intro linked_mono [of s1 ns ps s']) auto
    with rec(2) True have t: "tower s' ns r" by (blast intro: tower.level)
    have "buildLevels s ns = ([r], s')" using True b rec(1) by (subst buildLevels.simps) simp
    with t show ?thesis using frame lv old by (intro exI [of _ r] exI [of _ s']) (auto simp: same_links_def)
  qed
qed

lemma newLeaves_fresh:
  "newLeaves s data = (ls, s') \<Longrightarrow>
   ls = [avail s ..< avail s + length data] \<and> avail s' = avail s + length data \<and>
   (\<forall>a < avail s. node s' a = node s a) \<and>
   (\<forall>a\<in>set ls. Parent (node s' a) = None) \<and> map (\<lambda>a. Hash (node s' a)) ls = map Sum256 data"
proof (induction s data arbitrary: ls s' rule: newLeaves.induct)
  case (2 s b data)
  obtain s1 where a: "alloc s \<lparr>Hash = Sum256 b, Left = None, Right = None, Parent = None\<rparr> = (avail s, s1)"
    "avail s1 = Suc (avail s)" "node s1 (avail s) = \<lparr>Hash = Sum256 b, Left = None, Right = None, Parent = None\<rparr>"
    "\<forall>x < avail s. node s1 x = node s x"
    by (auto simp: alloc_def)
  obtain as t where e: "newLeaves s1 data = (as, t)" by fastforce
  then have rec: "newLeaves s1 data = (as, s')" "ls = avail s # as"
    using 2(2) a(1) by auto
  have IH: "as = [avail s1 ..< avail s1 + length data] \<and> avail s' = avail s1 + length data \<and>
     (\<forall>a < avail s1. node s' a = node s1 a) \<and> (\<forall>a\<in>set as. Parent (node s' a) = None) \<and>
     map (\<lambda>a. Hash (node s' a)) as = map Sum256 data"
    using 2(1) [OF a(1) [symmetric] refl rec(1)] .
  have "node s' (avail s) = \<lparr>Hash = Sum256 b, Left = None, Right = None, Parent = None\<rparr>"
    using IH a(2,3) by simp
  moreover have "[avail s ..< avail s + length (b # data)] = avail s # [Suc (avail s) ..< Suc (avail s) + length data]"
    by (simp add: upt_conv_Cons del: upt_Suc)
  ultimately show ?case
    using IH a rec(2) by (auto simp del: upt_Suc)
qed simp

section \<open>The walk from a leaf to the root\<close>

text \<open>
  \<open>path_bits n i\<close>: on the way up from position \<open>i\<close> of a level of \<open>n\<close> nodes, whether the sibling is on
  the right. The bits are the binary digits of the index, negated, the least significant first.
\<close>

function path_bits :: "nat \<Rightarrow> nat \<Rightarrow> bool list" where
  "path_bits n i = (if n \<le> 1 then [] else even i # path_bits ((n + 1) div 2) (i div 2))"
  by pat_completeness auto
termination by (relation "measure (\<lambda>(n, i). n)") auto

declare path_bits.simps [simp del]

lemma path_bits_trivial [simp]: "path_bits (Suc 0) i = []" "path_bits 0 i = []"
  by (simp_all add: path_bits.simps)

lemma path_bits_nth: "j < length (path_bits n i) \<Longrightarrow> path_bits n i ! j = even (i div 2 ^ j)"
proof (induction n i arbitrary: j rule: path_bits.induct)
  case (1 n i)
  then show ?case
    by (cases j) (auto simp: path_bits.simps [of n i] div_mult2_eq split: if_splits)
qed

lemma path_bits_length: "0 < n \<Longrightarrow> n \<le> 2 ^ length (path_bits n i) \<and> 2 ^ length (path_bits n i) < 2 * n"
proof (induction n i rule: path_bits.induct)
  case (1 n i)
  show ?case
  proof (cases "n \<le> 1")
    case False
    let ?m = "(n + 1) div 2" and ?k = "length (path_bits ((n + 1) div 2) (i div 2))"
    have IH: "?m \<le> 2 ^ ?k" "2 ^ ?k < 2 * ?m" using 1(1) False by auto
    have "(2::nat) ^ ?k < n"
    proof (cases "?k = 0")
      case k: False
      then have "even ((2::nat) ^ ?k)" by simp
      with IH(2) show ?thesis by presburger
    qed (use False in simp)
    moreover have "n \<le> 2 * ?m" by presburger
    ultimately show ?thesis using False IH(1) by (simp add: path_bits.simps [of n i])
  qed (use 1(2) in \<open>simp add: path_bits.simps [of n i]\<close>)
qed

lemma linked_nth:
  "linked s ns ps \<Longrightarrow> i < length ns \<Longrightarrow>
   \<exists>sib. i div 2 < length ps \<and> Parent (node s (ns ! i)) = Some (ps ! (i div 2)) \<and>
     (if even i
      then Left (node s (ps ! (i div 2))) = Some (ns ! i) \<and> Right (node s (ps ! (i div 2))) = Some sib \<and>
        Hash (node s (ps ! (i div 2))) = hashPair (Hash (node s (ns ! i))) (Hash (node s sib))
      else Left (node s (ps ! (i div 2))) = Some sib \<and> sib \<noteq> ns ! i \<and>
        Hash (node s (ps ! (i div 2))) = hashPair (Hash (node s sib)) (Hash (node s (ns ! i))))"
proof (induction s ns ps arbitrary: i rule: linked.induct)
  case (3 s l r ns ps)
  from 3(2) obtain p qs where ps: "ps = p # qs" "l \<noteq> r" "family s l r p" "linked s ns qs" by auto
  consider "i = 0" | "i = 1" | j where "i = Suc (Suc j)" by (metis One_nat_def not0_implies_Suc)
  then show ?case
  proof cases
    case 3
    then show ?thesis using "3.IH" [OF ps(4), of j] "3.prems"(2) ps(1) by (cases "even j") simp_all
  qed (use ps in \<open>auto simp: family_def\<close>)
qed (auto simp: family_def)

lemma GenerateProof_loop_tower:
  "tower s ns r \<Longrightarrow> i < length ns \<Longrightarrow>
   \<exists>sibs. GenerateProof_loop s (ns ! i) pr =
       Some (Ok (pr\<lparr>PathBits := PathBits pr @ path_bits (length ns) i, Siblings := Siblings pr @ sibs\<rparr>)) \<and>
     length sibs = length (path_bits (length ns) i) \<and>
     recompute (Hash (node s (ns ! i))) sibs (path_bits (length ns) i) = Hash (node s r)"
proof (induction arbitrary: i pr rule: tower.induct)
  case (top r)
  then show ?case by (subst GenerateProof_loop.simps) simp
next
  case (level ns ps r)
  obtain sib where sib: "i div 2 < length ps" "Parent (node s (ns ! i)) = Some (ps ! (i div 2))"
     "if even i
      then Left (node s (ps ! (i div 2))) = Some (ns ! i) \<and> Right (node s (ps ! (i div 2))) = Some sib \<and>
        Hash (node s (ps ! (i div 2))) = hashPair (Hash (node s (ns ! i))) (Hash (node s sib))
      else Left (node s (ps ! (i div 2))) = Some sib \<and> sib \<noteq> ns ! i \<and>
        Hash (node s (ps ! (i div 2))) = hashPair (Hash (node s sib)) (Hash (node s (ns ! i)))"
    using linked_nth [OF level(2,5)] by blast
  let ?pr = "pr\<lparr>PathBits := PathBits pr @ [even i], Siblings := Siblings pr @ [Hash (node s sib)]\<rparr>"
  from level.IH [OF sib(1), of ?pr] obtain sibs where
    IH: "GenerateProof_loop s (ps ! (i div 2)) ?pr =
       Some (Ok (?pr\<lparr>PathBits := PathBits ?pr @ path_bits (length ps) (i div 2), Siblings := Siblings ?pr @ sibs\<rparr>))"
     "length sibs = length (path_bits (length ps) (i div 2))"
     "recompute (Hash (node s (ps ! (i div 2)))) sibs (path_bits (length ps) (i div 2)) = Hash (node s r)"
    by blast
  have bits: "path_bits (length ns) i = even i # path_bits (length ps) (i div 2)"
    using level(1) linked_length [OF level(2)] by (simp add: path_bits.simps [of "length ns"])
  have "GenerateProof_loop s (ns ! i) pr = GenerateProof_loop s (ps ! (i div 2)) ?pr"
    using sib by (subst GenerateProof_loop.simps) (auto simp: Let_def split: if_splits)
  then show ?case
    using IH sib(3) by (intro exI [of _ "Hash (node s sib) # sibs"]) (auto simp: bits split: if_splits)
qed

section \<open>The root as a function of the hashes\<close>

fun hash_level :: "bytes list \<Rightarrow> bytes list" where
  "hash_level [] = []"
| "hash_level [h] = [hashPair h h]"
| "hash_level (h # h' # hs) = hashPair h h' # hash_level hs"

lemma length_hash_level [simp]: "length (hash_level hs) = (length hs + 1) div 2"
  by (induction hs rule: hash_level.induct) auto

function merkle_root :: "bytes list \<Rightarrow> bytes" where
  "merkle_root hs = (if 1 < length hs then merkle_root (hash_level hs) else hd hs)"
  by pat_completeness auto
termination by (relation "measure length") auto

declare merkle_root.simps [simp del]

lemma linked_hashes:
  "linked s ns ps \<Longrightarrow> map (\<lambda>a. Hash (node s a)) ps = hash_level (map (\<lambda>a. Hash (node s a)) ns)"
  by (induction s ns ps rule: linked.induct) (auto simp: family_def)

lemma tower_root: "tower s ns r \<Longrightarrow> Hash (node s r) = merkle_root (map (\<lambda>a. Hash (node s a)) ns)"
proof (induction rule: tower.induct)
  case (level ns ps r)
  then show ?case by (subst merkle_root.simps) (simp add: linked_hashes)
qed (simp add: merkle_root.simps)

lemma NewMerkleTree_tower:
  assumes "data \<noteq> []" and "NewMerkleTree s data = (t, s')"
  shows "\<exists>r. root t = Some r \<and> tower s' (leaves t) r \<and> length (leaves t) = length data \<and>
    map (\<lambda>a. Hash (node s' a)) (leaves t) = map Sum256 data"
proof -
  obtain ls s1 where nl: "newLeaves s data = (ls, s1)" by fastforce
  note fresh = newLeaves_fresh [OF nl]
  then have ls: "ls \<noteq> []" "distinct ls" "length ls = length data" "\<forall>a\<in>set ls. a < avail s1"
    "\<forall>a\<in>set ls. Parent (node s1 a) = None" "map (\<lambda>a. Hash (node s1 a)) ls = map Sum256 data"
    using assms(1) by auto
  show ?thesis
  proof (cases "length ls = 1")
    case True
    then obtain a where "ls = [a]" by (metis One_nat_def length_0_conv length_Suc_conv)
    then show ?thesis using assms nl ls by (auto simp: NewMerkleTree_def intro: tower.top)
  next
    case False
    obtain r s2 where bl: "buildLevels s1 ls = ([r], s2)" "tower s2 ls r"
      and frame: "\<forall>a < avail s1. same_links s1 s2 a"
      using buildLevels_tower [OF ls(1,2)] ls(4,5) by blast
    have "t = \<lparr>root = Some r, leaves = ls\<rparr> \<and> s' = s2"
      using assms nl bl(1) False ls(1)
      by (subst (asm) buildLevels.simps) (auto simp: NewMerkleTree_def split_beta split: if_splits)
    moreover have "map (\<lambda>a. Hash (node s2 a)) ls = map (\<lambda>a. Hash (node s1 a)) ls"
      using frame ls(4) by (auto simp: same_links_def)
    ultimately show ?thesis using bl(2) ls(3,6) by auto
  qed
qed

lemma hash_level_lengths:
  "h \<in> set (hash_level hs) \<Longrightarrow> length h = 32"
  by (induction hs rule: hash_level.induct) (auto simp: hashPair_def)

lemma length_merkle_root:
  "hs \<noteq> [] \<Longrightarrow> \<forall>h\<in>set hs. length h = 32 \<Longrightarrow> length (merkle_root hs) = 32"
proof (induction hs rule: merkle_root.induct)
  case (1 hs)
  show ?case
  proof (cases "1 < length hs")
    case True
    then have "length (hash_level hs) \<noteq> 0" by simp
    then have "hash_level hs \<noteq> []" by (metis list.size(3))
    then show ?thesis
      using True 1(1) hash_level_lengths by (subst merkle_root.simps) auto
  next
    case False
    then show ?thesis using 1(2,3) by (subst merkle_root.simps) simp
  qed
qed

section \<open>What the tree promises\<close>

text \<open>
  C10: in the tree of any list of data, the proof generated for every index is one that \<open>VerifyProof\<close>
  accepts. Its leaf hash is the hash of that item, its root hash the root of the tree, its path bits
  are the binary digits of the index, and its length is the logarithm of the number of items, rounded
  up. The walk from the leaf ends, and an index outside the list is the error value.
\<close>

theorem merkle_proofs_verify:
  assumes "i < length data" and "NewMerkleTree s data = (t, s')"
  shows "(\<exists>p. GenerateProof s' t (int i) = Some (Ok (Inr p)) \<and> VerifyProof (Some p) \<and>
      LeafHash p = Sum256 (data ! i) \<and> RootHash p = MerkleTree_Root s' t \<and>
      PathBits p = map (\<lambda>j. even (i div 2 ^ j)) [0..<length (Siblings p)] \<and>
      length data \<le> 2 ^ length (Siblings p) \<and> 2 ^ length (Siblings p) < 2 * length data) \<and>
    (\<forall>index. (index < 0 \<or> int (length data) \<le> index) \<longrightarrow>
      GenerateProof s' t index = Some (Ok (Inl IndexOutOfBounds)))"
proof -
  from assms have ne: "data \<noteq> []" by auto
  obtain r where t: "root t = Some r" "tower s' (leaves t) r" "length (leaves t) = length data"
    "map (\<lambda>a. Hash (node s' a)) (leaves t) = map Sum256 data"
    using NewMerkleTree_tower [OF ne assms(2)] by blast
  let ?a = "leaves t ! i" and ?bits = "path_bits (length data) i"
  let ?pr = "\<lparr>Siblings = [], PathBits = [], LeafHash = Hash (node s' ?a), RootHash = Hash (node s' r)\<rparr>"
  have leaf: "Hash (node s' ?a) = Sum256 (data ! i)"
    using arg_cong [OF t(4), of "\<lambda>hs. hs ! i"] t(3) assms(1) by simp
  have "length (Hash (node s' r)) = 32"
    using tower_root [OF t(2)] t(4) ne length_merkle_root by simp
  then have nonempty: "Hash (node s' r) \<noteq> []" "Sum256 (data ! i) \<noteq> []"
    by (auto simp flip: length_greater_0_conv)
  obtain sibs where walk: "GenerateProof_loop s' ?a ?pr =
      Some (Ok (?pr\<lparr>PathBits := ?bits, Siblings := sibs\<rparr>))" "length sibs = length ?bits"
    "recompute (Hash (node s' ?a)) sibs ?bits = Hash (node s' r)"
    using GenerateProof_loop_tower [OF t(2), of i ?pr] assms(1) t(3) by auto
  let ?p = "?pr\<lparr>PathBits := ?bits, Siblings := sibs\<rparr>"
  have "GenerateProof s' t (int i) = Some (Ok (Inr ?p))"
    using walk(1) t(1,3) assms(1) by (simp add: GenerateProof_def Let_def)
  moreover have "VerifyProof (Some ?p)" using walk leaf nonempty by (simp add: VerifyProof_def)
  moreover have "?bits = map (\<lambda>j. even (i div 2 ^ j)) [0..<length sibs]"
    using walk(2) by (auto intro!: nth_equalityI simp: path_bits_nth)
  moreover have "length data \<le> 2 ^ length sibs \<and> 2 ^ length sibs < 2 * length data"
    using path_bits_length [of "length data" i] ne walk(2) by simp
  ultimately show ?thesis
    using leaf t(1,3) by (intro conjI exI [of _ ?p]) (simp_all add: MerkleTree_Root_def GenerateProof_def)
qed

definition no_nodes :: node_store where
  "no_nodes = \<lparr>node = (\<lambda>_. \<lparr>Hash = [], Left = None, Right = None, Parent = None\<rparr>), avail = 0\<rparr>"

theorem merkle_proofs_verify_witness:
  "\<exists>p. GenerateProof (snd (NewMerkleTree no_nodes [[1], [2], [3]])) (fst (NewMerkleTree no_nodes [[1], [2], [3]])) 2 =
     Some (Ok (Inr p)) \<and> VerifyProof (Some p) \<and> LeafHash p = Sum256 [3]"
  using merkle_proofs_verify [of 2 "[[1], [2], [3]]" no_nodes "fst (NewMerkleTree no_nodes [[1], [2], [3]])"
    "snd (NewMerkleTree no_nodes [[1], [2], [3]])"]
  by (auto simp: eval_nat_numeral)

lemma root_is_merkle_root:
  "data \<noteq> [] \<Longrightarrow>
   MerkleTree_Root (snd (NewMerkleTree s data)) (fst (NewMerkleTree s data)) = merkle_root (map Sum256 data)"
  using NewMerkleTree_tower [of data s "fst (NewMerkleTree s data)" "snd (NewMerkleTree s data)"]
  by (auto simp: MerkleTree_Root_def dest: tower_root)

lemma hash_level_duplicate: "odd (length hs) \<Longrightarrow> hash_level (hs @ [last hs]) = hash_level hs"
  by (induction hs rule: hash_level.induct) (auto split: if_splits)

lemma merkle_root_duplicate:
  assumes "odd (length hs)" and "1 < length hs"
  shows "merkle_root (hs @ [last hs]) = merkle_root hs"
proof -
  have "hs \<noteq> []" using assms(2) by auto
  then have "merkle_root (hs @ [last hs]) = merkle_root (hash_level (hs @ [last hs]))"
    by (subst merkle_root.simps) simp
  also have "\<dots> = merkle_root (hash_level hs)" using hash_level_duplicate [OF assms(1)] by simp
  also have "\<dots> = merkle_root hs" using assms(2) by (subst (2) merkle_root.simps) simp
  finally show ?thesis .
qed

text \<open>
  C30: the root is the hash of the data paired level by level, whatever else the store holds, and the tree of no
  data has no root. As the last node of an odd level is paired with itself, an odd number of items above
  one has the same root as the list with its last item repeated: the root does not determine the data.
\<close>

theorem merkle_root_by_levels:
  "MerkleTree_Root (snd (NewMerkleTree s data)) (fst (NewMerkleTree s data)) =
     (if data = [] then [] else merkle_root (map Sum256 data)) \<and>
   (odd (length data) \<longrightarrow> 1 < length data \<longrightarrow>
     MerkleTree_Root (snd (NewMerkleTree s (data @ [last data]))) (fst (NewMerkleTree s (data @ [last data]))) =
     MerkleTree_Root (snd (NewMerkleTree s data)) (fst (NewMerkleTree s data)))"
proof (cases "data = []")
  case True
  then show ?thesis by (simp add: NewMerkleTree_def MerkleTree_Root_def)
next
  case False
  then show ?thesis
    using merkle_root_duplicate [of "map Sum256 data"] by (simp add: root_is_merkle_root last_map)
qed

theorem merkle_root_by_levels_witness:
  "MerkleTree_Root (snd (NewMerkleTree no_nodes [[1], [2], [3], [3]])) (fst (NewMerkleTree no_nodes [[1], [2], [3], [3]])) =
   MerkleTree_Root (snd (NewMerkleTree no_nodes [[1], [2], [3]])) (fst (NewMerkleTree no_nodes [[1], [2], [3]]))"
  using merkle_root_by_levels [of no_nodes "[[1], [2], [3]]"] by simp

section \<open>What a verified proof binds\<close>

text \<open>
  \<open>collision\<close> recomputes two proofs with the same path in step and gives the first two inputs that
  have the same hash.
\<close>

fun collision :: "bytes \<Rightarrow> bytes \<Rightarrow> bytes list \<Rightarrow> bytes list \<Rightarrow> bool list \<Rightarrow> bytes \<times> bytes" where
  "collision h h' (sib # sibs) (sib' # sibs') (b # bits) =
     (let x = (if b then h @ sib else sib @ h); y = (if b then h' @ sib' else sib' @ h')
      in if Sum256 x = Sum256 y then (x, y) else collision (Sum256 x) (Sum256 y) sibs sibs' bits)"
| "collision h h' _ _ _ = (h, h')"

lemma collision_found:
  "length h = length h' \<Longrightarrow> h \<noteq> h' \<Longrightarrow> length sibs = length bits \<Longrightarrow> length sibs' = length bits \<Longrightarrow>
   recompute h sibs bits = recompute h' sibs' bits \<Longrightarrow>
   collision h h' sibs sibs' bits = (x, y) \<Longrightarrow> x \<noteq> y \<and> Sum256 x = Sum256 y"
proof (induction h h' sibs sibs' bits rule: collision.induct)
  case (1 h h' sib sibs sib' sibs' b bits)
  let ?x = "if b then h @ sib else sib @ h" and ?y = "if b then h' @ sib' else sib' @ h'"
  show ?case
  proof (cases "Sum256 ?x = Sum256 ?y")
    case True
    then have "(?x, ?y) = (x, y)" using 1(7) unfolding collision.simps Let_def by (simp only: if_True simp_thms)
    then have "x = ?x" "y = ?y" by auto
    moreover have "?x \<noteq> ?y" using 1(2,3) by auto
    ultimately show ?thesis using True by simp
  next
    case False
    have "collision (Sum256 ?x) (Sum256 ?y) sibs sibs' bits = (x, y)"
      using 1(7) False by (simp only: collision.simps Let_def if_False)
    moreover have "recompute (Sum256 ?x) sibs bits = recompute (Sum256 ?y) sibs' bits"
      using 1(6) by (auto simp: hashPair_def split: if_splits)
    ultimately show ?thesis
      using 1(1) [OF refl refl False] False 1(4,5) by simp
  qed
qed auto

text \<open>
  \<open>VerifyProof\<close> does not check the length of the leaf hash. A byte can move from the sibling to the leaf hash:
  both proofs are accepted, for the same root and the same position, and no collision is involved.
\<close>

lemma merkle_proof_shift:
  assumes "h \<noteq> []"
  shows "VerifyProof (Some \<lparr>Siblings = [b # s], PathBits = [True], LeafHash = h, RootHash = hashPair h (b # s)\<rparr>) \<and>
   VerifyProof (Some \<lparr>Siblings = [s], PathBits = [True], LeafHash = h @ [b], RootHash = hashPair h (b # s)\<rparr>)"
proof -
  have "hashPair h (b # s) \<noteq> []" by (metis hashPair_def length_Sum256 list.size(3) zero_neq_numeral)
  then show ?thesis using assms by (simp add: VerifyProof_def hashPair_def)
qed

text \<open>
  C19: two proofs with leaf hashes of the same length that \<open>VerifyProof\<close> accepts for the same root and the same
  position prove the same leaf hash, or the two proofs give a collision of the hash that is computed from
  them. The siblings may be any bytes.
\<close>

theorem merkle_proof_binding:
  assumes "VerifyProof (Some p)" and "VerifyProof (Some q)"
    and "RootHash p = RootHash q" and "PathBits p = PathBits q" and "length (LeafHash p) = length (LeafHash q)"
  shows "LeafHash p = LeafHash q \<or>
    (case collision (LeafHash p) (LeafHash q) (Siblings p) (Siblings q) (PathBits p) of
       (x, y) \<Rightarrow> \<not> x = y \<and> Sum256 x = Sum256 y)"
proof -
  obtain x y where xy: "collision (LeafHash p) (LeafHash q) (Siblings p) (Siblings q) (PathBits p) = (x, y)"
    by fastforce
  have "length (Siblings p) = length (PathBits p)" "length (Siblings q) = length (PathBits p)"
    "recompute (LeafHash p) (Siblings p) (PathBits p) = recompute (LeafHash q) (Siblings q) (PathBits p)"
    using assms(1-4) by (auto simp: VerifyProof_def split: if_splits)
  then show ?thesis
    using collision_found [OF assms(5) _ _ _ _ xy] by (auto simp: xy)
qed

theorem merkle_proof_binding_witness:
  "LeafHash \<lparr>Siblings = [[2]], PathBits = [True], LeafHash = [1], RootHash = hashPair [1] [2]\<rparr> = [1] \<and>
   (\<exists>p. VerifyProof (Some p) \<and> PathBits p = [True] \<and>
     (LeafHash p = LeafHash p \<or>
      (case collision (LeafHash p) (LeafHash p) (Siblings p) (Siblings p) (PathBits p) of
         (x, y) \<Rightarrow> \<not> x = y \<and> Sum256 x = Sum256 y)))"
proof -
  let ?p = "\<lparr>Siblings = [[2]], PathBits = [True], LeafHash = [1], RootHash = hashPair [1] [2]\<rparr>"
  have "hashPair [1] [2] \<noteq> []" by (metis hashPair_def length_Sum256 list.size(3) zero_neq_numeral)
  then have v: "VerifyProof (Some ?p)" by (simp add: VerifyProof_def)
  show ?thesis using merkle_proof_binding [OF v v] v by (auto intro!: exI [of _ ?p])
qed

end
