(* ===== verification/SparseMerkle.thy ===== *)
theory SparseMerkle
  imports MerkleTrees
begin

text \<open>
  The sparse Merkle tree of \<open>data-structures/merkle.go\<close>. One Go map holds both the raw values, under
  the key's own bytes, and the hashes of the nodes, under the text \<open>level:hexkey\<close> with the whole key
  in it, whatever the level.
\<close>

section \<open>State\<close>

record SparseMerkleTree =
  smt_root :: bytes
  depth :: int
  defaultHashes :: "bytes list"
  nodes :: "bytes \<Rightarrow> bytes option"

datatype smt_error = NilKey | InvalidKeyLength | NotFound

text \<open>\<open>fmt.Sprintf("%d:%x", level, key)\<close>, as the bytes of the string.\<close>

fun decimal :: "nat \<Rightarrow> bytes" where
  "decimal n = (if n < 10 then [of_nat (48 + n)] else decimal (n div 10) @ [of_nat (48 + n mod 10)])"

declare decimal.simps [simp del]

definition hex_digit :: "nat \<Rightarrow> byte" where
  "hex_digit d = (if d < 10 then of_nat (48 + d) else of_nat (87 + d))"

definition hex :: "bytes \<Rightarrow> bytes" where
  "hex bs = concat (map (\<lambda>b. [hex_digit (unat b div 16), hex_digit (unat b mod 16)]) bs)"

definition node_key :: "nat \<Rightarrow> bytes \<Rightarrow> bytes" where
  "node_key level key = decimal level @ [58] @ hex key"

section \<open>Operations\<close>

definition NewSparseMerkleTree :: "int \<Rightarrow> SparseMerkleTree go" where
  "NewSparseMerkleTree d =
     go_bind (go_make [] (d + 1)) (\<lambda>ds.
     go_bind (go_store ds 0 (Sum256 [])) (\<lambda>ds.
       let ds = foldl (\<lambda>ds i. ds[i := hashPair (ds ! (i - 1)) (ds ! (i - 1))]) ds [1..<Suc (nat d)]
       in go_bind (go_index ds d) (\<lambda>r.
            Ok \<lparr>smt_root = r, depth = d, defaultHashes = ds, nodes = (\<lambda>_. None)\<rparr>)))"

definition validateKey :: "SparseMerkleTree \<Rightarrow> bytes option \<Rightarrow> smt_error + bytes" where
  "validateKey t key =
     (case key of
        None \<Rightarrow> Inl NilKey
      | Some k \<Rightarrow> (if int (length k) = go_div (depth t + 7) 8 then Inr k else Inl InvalidKeyLength))"

definition isRightChild :: "bytes \<Rightarrow> nat \<Rightarrow> bool go" where
  "isRightChild key pos =
     go_bind (go_index key (int (pos div 8))) (\<lambda>b. Ok (b AND push_bit (7 - pos mod 8) 1 \<noteq> 0))"

definition getNodeHash :: "SparseMerkleTree \<Rightarrow> nat \<Rightarrow> bytes \<Rightarrow> bytes go" where
  "getNodeHash t level key =
     (case nodes t (node_key level key) of
        Some v \<Rightarrow> Ok v
      | None \<Rightarrow> go_index (defaultHashes t) (int level))"

definition setNodeHash :: "SparseMerkleTree \<Rightarrow> nat \<Rightarrow> bytes \<Rightarrow> bytes \<Rightarrow> SparseMerkleTree" where
  "setNodeHash t level key h = t\<lparr>nodes := (nodes t)(node_key level key := Some h)\<rparr>"

definition getSiblingHash :: "SparseMerkleTree \<Rightarrow> nat \<Rightarrow> bytes \<Rightarrow> bytes go" where
  "getSiblingHash t level key =
     (let bitPos = nat (depth t) - 1 - level; byteIdx = bitPos div 8; bitIdx = 7 - bitPos mod 8
      in go_bind (go_index key (int byteIdx)) (\<lambda>b.
           getNodeHash t level (key[byteIdx := b XOR push_bit bitIdx 1])))"

definition SMT_Get :: "SparseMerkleTree \<Rightarrow> bytes option \<Rightarrow> smt_error + bytes" where
  "SMT_Get t key =
     (case validateKey t key of
        Inl e \<Rightarrow> Inl e
      | Inr k \<Rightarrow> (case nodes t k of None \<Rightarrow> Inl NotFound | Some v \<Rightarrow> Inr v))"

text \<open>\<open>for i := range t.depth\<close> runs through the list of levels.\<close>

fun Set_loop :: "SparseMerkleTree \<Rightarrow> bytes \<Rightarrow> bytes \<Rightarrow> nat list \<Rightarrow> (SparseMerkleTree \<times> bytes) go" where
  "Set_loop t key computedHash [] = Ok (t, computedHash)"
| "Set_loop t key computedHash (i # levels) =
     go_bind (isRightChild key (nat (depth t) - 1 - i)) (\<lambda>isRight.
     go_bind (getSiblingHash t i key) (\<lambda>siblingHash.
       let newHash = (if isRight then hashPair siblingHash computedHash else hashPair computedHash siblingHash)
       in Set_loop (setNodeHash t (i + 1) key newHash) key newHash levels))"

definition SMT_Set :: "SparseMerkleTree \<Rightarrow> bytes option \<Rightarrow> bytes \<Rightarrow> (smt_error option \<times> SparseMerkleTree) go" where
  "SMT_Set t key v =
     (case validateKey t key of
        Inl e \<Rightarrow> Ok (Some e, t)
      | Inr k \<Rightarrow>
          (let t = t\<lparr>nodes := (nodes t)(k := Some v)\<rparr>;
               currentHash = Sum256 v;
               t = setNodeHash t 0 k currentHash
           in go_bind (Set_loop t k currentHash [0..<nat (depth t)]) (\<lambda>(t, computedHash).
                Ok (None, t\<lparr>smt_root := computedHash\<rparr>))))"

fun Proof_loop :: "SparseMerkleTree \<Rightarrow> bytes \<Rightarrow> MerkleProof \<Rightarrow> nat list \<Rightarrow> MerkleProof go" where
  "Proof_loop t key proof [] = Ok proof"
| "Proof_loop t key proof (level # levels) =
     go_bind (getSiblingHash t level key) (\<lambda>sib.
     go_bind (isRightChild key (nat (depth t) - 1 - level)) (\<lambda>isRight.
       Proof_loop t key (proof\<lparr>Siblings := Siblings proof @ [sib], PathBits := PathBits proof @ [\<not> isRight]\<rparr>) levels))"

definition SMT_GenerateProof :: "SparseMerkleTree \<Rightarrow> bytes option \<Rightarrow> (smt_error + MerkleProof) go" where
  "SMT_GenerateProof t key =
     (case validateKey t key of
        Inl e \<Rightarrow> Ok (Inl e)
      | Inr k \<Rightarrow>
          go_bind (getNodeHash t 0 k) (\<lambda>leafHash.
          go_bind (Proof_loop t k \<lparr>Siblings = [], PathBits = [], LeafHash = leafHash, RootHash = smt_root t\<rparr>
                     [0..<nat (depth t)]) (\<lambda>p. Ok (Inr p))))"

section \<open>The names of the nodes\<close>

lemma unat_digit: "n < 10 \<Longrightarrow> unat (of_nat (48 + n) :: byte) = 48 + n"
  by (simp only: unat_of_nat) simp

lemma decimal_value: "foldl (\<lambda>acc b. 10 * acc + (unat b - 48)) 0 (decimal n) = n"
proof (induction n rule: decimal.induct)
  case (1 n)
  show ?case
  proof (cases "n < 10")
    case True
    then show ?thesis using unat_digit [OF True] by (subst decimal.simps) simp
  next
    case False
    then show ?thesis
      using 1 [OF False] unat_digit [of "n mod 10"]
      by (subst decimal.simps) (simp add: mult.commute)
  qed
qed

lemma decimal_inject: "decimal m = decimal n \<longleftrightarrow> m = n"
  using decimal_value by metis

lemma hex_digit_inject: "d < 16 \<Longrightarrow> e < 16 \<Longrightarrow> hex_digit d = hex_digit e \<Longrightarrow> d = e"
proof -
  assume de: "d < 16" "e < 16" and eq: "hex_digit d = hex_digit e"
  have u: "unat (hex_digit k) = (if k < 10 then 48 + k else 87 + k)" if "k < 16" for k
    using that by (simp only: hex_digit_def unat_of_nat split: if_splits) simp
  show "d = e" using arg_cong [OF eq, of unat] u de by (auto split: if_splits)
qed

lemma length_hex [simp]: "length (hex bs) = 2 * length bs"
  by (induction bs) (auto simp: hex_def)

lemma hex_inject: "hex as = hex bs \<longleftrightarrow> as = bs"
proof (induction as arbitrary: bs)
  case Nil
  then show ?case by (cases bs) (auto simp: hex_def)
next
  case (Cons a as)
  show ?case
  proof (cases bs)
    case (Cons b bs')
    have "a = b" if "hex_digit (unat a div 16) = hex_digit (unat b div 16)"
      "hex_digit (unat a mod 16) = hex_digit (unat b mod 16)"
    proof -
      have "unat a < 256" "unat b < 256" by (rule order_less_le_trans [OF unsigned_less], simp)+
      then have "unat a div 16 = unat b div 16" "unat a mod 16 = unat b mod 16"
        using that by (auto intro!: hex_digit_inject)
      then show "a = b" by (metis div_mult_mod_eq word_unat_eq_iff)
    qed
    moreover have "hex (x # xs) = hex_digit (unat x div 16) # hex_digit (unat x mod 16) # hex xs" for x xs
      by (simp add: hex_def)
    ultimately show ?thesis using Cons.IH [of bs'] Cons by auto
  qed (simp add: hex_def)
qed

lemma node_key_inject: "length k = length k' \<Longrightarrow> node_key i k = node_key j k' \<longleftrightarrow> i = j \<and> k = k'"
  using append_eq_append_conv [of "hex k" "hex k'"]
  by (auto simp: node_key_def decimal_inject hex_inject)

lemma node_key_not_raw: "length k = length k' \<Longrightarrow> node_key i k \<noteq> k'"
  by (auto simp: node_key_def)

section \<open>The operations on a valid key\<close>

definition flip_key :: "bytes \<Rightarrow> nat \<Rightarrow> bytes" where
  "flip_key k pos = k[pos div 8 := k ! (pos div 8) XOR push_bit (7 - pos mod 8) 1]"

definition right_at :: "bytes \<Rightarrow> nat \<Rightarrow> bool" where
  "right_at k pos \<longleftrightarrow> k ! (pos div 8) AND push_bit (7 - pos mod 8) 1 \<noteq> 0"

definition hash_at :: "SparseMerkleTree \<Rightarrow> nat \<Rightarrow> bytes \<Rightarrow> bytes" where
  "hash_at t i k = (case nodes t (node_key i k) of Some v \<Rightarrow> v | None \<Rightarrow> defaultHashes t ! i)"

definition sibling_hashes :: "SparseMerkleTree \<Rightarrow> bytes \<Rightarrow> nat list \<Rightarrow> bytes list" where
  "sibling_hashes t k levels = map (\<lambda>i. hash_at t i (flip_key k (nat (depth t) - 1 - i))) levels"

definition sibling_sides :: "nat \<Rightarrow> bytes \<Rightarrow> nat list \<Rightarrow> bool list" where
  "sibling_sides d k levels = map (\<lambda>i. \<not> right_at k (d - 1 - i)) levels"

lemma length_siblings [simp]:
  "length (sibling_hashes t k levels) = length levels" "length (sibling_sides d k levels) = length levels"
  by (simp_all add: sibling_hashes_def sibling_sides_def)

definition smt_wf :: "SparseMerkleTree \<Rightarrow> bool" where
  "smt_wf t \<longleftrightarrow> 0 \<le> depth t \<and> length (defaultHashes t) = Suc (nat (depth t))"

definition valid_key :: "int \<Rightarrow> bytes \<Rightarrow> bool" where
  "valid_key d k \<longleftrightarrow> int (length k) = go_div (d + 7) 8"

lemma validateKey_valid: "valid_key (depth t) k \<Longrightarrow> validateKey t (Some k) = Inr k"
  by (simp add: validateKey_def valid_key_def)

lemma valid_key_position:
  "0 \<le> d \<Longrightarrow> valid_key d k \<Longrightarrow> i < nat d \<Longrightarrow> (nat d - 1 - i) div 8 < length k"
  by (simp add: valid_key_def go_div_nonneg)

lemma length_flip [simp]: "length (flip_key k pos) = length k"
  by (simp add: flip_key_def)

lemma flip_differs: "pos div 8 < length k \<Longrightarrow> flip_key k pos \<noteq> k"
proof
  assume pos: "pos div 8 < length k" and "flip_key k pos = k"
  then have e: "k ! (pos div 8) XOR push_bit (7 - pos mod 8) 1 = k ! (pos div 8)"
    by (metis flip_key_def nth_list_update_eq)
  have "7 - pos mod 8 < 8" by simp
  then show False
    using arg_cong [OF e, of "\<lambda>w. bit w (7 - pos mod 8)"] by (simp add: bit_simps)
qed

lemma isRightChild_Ok: "pos div 8 < length k \<Longrightarrow> isRightChild k pos = Ok (right_at k pos)"
  by (simp add: isRightChild_def right_at_def)

lemma getNodeHash_Ok: "smt_wf t \<Longrightarrow> i \<le> nat (depth t) \<Longrightarrow> getNodeHash t i k = Ok (hash_at t i k)"
  by (auto simp: getNodeHash_def hash_at_def smt_wf_def split: option.split)

lemma getSiblingHash_Ok:
  "smt_wf t \<Longrightarrow> valid_key (depth t) k \<Longrightarrow> i < nat (depth t) \<Longrightarrow>
   getSiblingHash t i k = Ok (hash_at t i (flip_key k (nat (depth t) - 1 - i)))"
  using valid_key_position [of "depth t" k i]
  by (simp add: getSiblingHash_def Let_def getNodeHash_Ok flip_key_def smt_wf_def)

lemma setNodeHash_simps [simp]:
  "depth (setNodeHash t i k h) = depth t" "defaultHashes (setNodeHash t i k h) = defaultHashes t"
  "smt_root (setNodeHash t i k h) = smt_root t"
  "nodes (setNodeHash t i k h) = (nodes t)(node_key i k := Some h)"
  by (simp_all add: setNodeHash_def)

lemma hash_at_cong:
  "(\<And>i. nodes t' (node_key i k) = nodes t (node_key i k)) \<Longrightarrow> defaultHashes t' = defaultHashes t \<Longrightarrow>
   hash_at t' i k = hash_at t i k"
  by (simp add: hash_at_def split: option.split)

text \<open>A write under the key's own path changes no sibling.\<close>

lemma sibling_hashes_own:
  assumes "\<And>k' i. length k' = length k \<Longrightarrow> k' \<noteq> k \<Longrightarrow> nodes t' (node_key i k') = nodes t (node_key i k')"
    and "depth t' = depth t" "defaultHashes t' = defaultHashes t" "smt_wf t" "valid_key (depth t) k"
    and "\<forall>i\<in>set levels. i < nat (depth t)"
  shows "sibling_hashes t' k levels = sibling_hashes t k levels"
  unfolding sibling_hashes_def
proof (intro map_cong refl)
  fix i assume "i \<in> set levels"
  with assms(4-6) have "flip_key k (nat (depth t) - 1 - i) \<noteq> k"
    by (intro flip_differs valid_key_position) (auto simp: smt_wf_def)
  then show "hash_at t' i (flip_key k (nat (depth t') - 1 - i)) = hash_at t i (flip_key k (nat (depth t) - 1 - i))"
    using assms(1-3) by (auto intro: hash_at_cong)
qed

lemma Set_loop_Ok:
  "smt_wf t \<Longrightarrow> valid_key (depth t) k \<Longrightarrow> \<forall>i\<in>set levels. i < nat (depth t) \<Longrightarrow>
   \<exists>t'. Set_loop t k h levels =
       Ok (t', recompute h (sibling_hashes t k levels) (sibling_sides (nat (depth t)) k levels)) \<and>
     depth t' = depth t \<and> defaultHashes t' = defaultHashes t \<and> smt_root t' = smt_root t \<and>
     (\<forall>x. (\<forall>i\<in>set levels. x \<noteq> node_key (Suc i) k) \<longrightarrow> nodes t' x = nodes t x)"
proof (induction levels arbitrary: t h)
  case Nil
  then show ?case by (simp add: sibling_hashes_def sibling_sides_def)
next
  case (Cons i levels)
  let ?pos = "nat (depth t) - 1 - i"
  have i: "i < nat (depth t)" "?pos div 8 < length k"
    using Cons.prems valid_key_position [of "depth t" k i] by (auto simp: smt_wf_def)
  let ?sib = "hash_at t i (flip_key k ?pos)"
  let ?new = "if right_at k ?pos then hashPair ?sib h else hashPair h ?sib"
  let ?t = "setNodeHash t (i + 1) k ?new"
  have step: "Set_loop t k h (i # levels) = Set_loop ?t k ?new levels"
    using Cons.prems i by (simp add: isRightChild_Ok getSiblingHash_Ok Let_def)
  have wf: "smt_wf ?t" "valid_key (depth ?t) k" "\<forall>i\<in>set levels. i < nat (depth ?t)"
    using Cons.prems by (simp_all add: smt_wf_def)
  have "sibling_hashes ?t k levels = sibling_hashes t k levels"
    using Cons.prems by (intro sibling_hashes_own) (auto simp: node_key_inject)
  with Cons.IH [OF wf, of ?new] obtain t' where
    "Set_loop ?t k ?new levels =
       Ok (t', recompute ?new (sibling_hashes t k levels) (sibling_sides (nat (depth t)) k levels))"
    "depth t' = depth t" "defaultHashes t' = defaultHashes t" "smt_root t' = smt_root t"
    "\<forall>x. (\<forall>i\<in>set levels. x \<noteq> node_key (Suc i) k) \<longrightarrow> nodes t' x = nodes ?t x"
    by auto
  then show ?case
    unfolding step by (intro exI [of _ t']) (auto simp: sibling_hashes_def sibling_sides_def)
qed

lemma Proof_loop_Ok:
  "smt_wf t \<Longrightarrow> valid_key (depth t) k \<Longrightarrow> \<forall>i\<in>set levels. i < nat (depth t) \<Longrightarrow>
   Proof_loop t k p levels = Ok (p\<lparr>Siblings := Siblings p @ sibling_hashes t k levels,
                                  PathBits := PathBits p @ sibling_sides (nat (depth t)) k levels\<rparr>)"
proof (induction levels arbitrary: p)
  case (Cons i levels)
  then have "(nat (depth t) - 1 - i) div 8 < length k"
    using valid_key_position [of "depth t" k i] by (auto simp: smt_wf_def)
  with Cons show ?case
    by (simp add: isRightChild_Ok getSiblingHash_Ok sibling_hashes_def sibling_sides_def)
qed (simp add: sibling_hashes_def sibling_sides_def)

text \<open>The state after a \<open>Set\<close> of a valid key.\<close>

lemma SMT_Set_Ok:
  assumes "smt_wf t" "valid_key (depth t) k"
  shows "\<exists>t'. SMT_Set t (Some k) v = Ok (None, t') \<and> depth t' = depth t \<and> defaultHashes t' = defaultHashes t \<and>
     smt_root t' = recompute (Sum256 v) (sibling_hashes t k [0..<nat (depth t)])
                     (sibling_sides (nat (depth t)) k [0..<nat (depth t)]) \<and>
     nodes t' k = Some v \<and> nodes t' (node_key 0 k) = Some (Sum256 v) \<and>
     (\<forall>x. x \<noteq> k \<and> (\<forall>i. x \<noteq> node_key i k) \<longrightarrow> nodes t' x = nodes t x)"
proof -
  let ?t = "setNodeHash (t\<lparr>nodes := (nodes t)(k := Some v)\<rparr>) 0 k (Sum256 v)"
  let ?levels = "[0..<nat (depth t)]"
  have wf: "smt_wf ?t" "valid_key (depth ?t) k" "\<forall>i\<in>set ?levels. i < nat (depth ?t)"
    using assms by (simp_all add: smt_wf_def)
  have sib: "sibling_hashes ?t k ?levels = sibling_hashes t k ?levels"
    using assms by (intro sibling_hashes_own) (auto simp: node_key_inject node_key_not_raw)
  from Set_loop_Ok [OF wf, of "Sum256 v"] sib obtain t' where t':
    "Set_loop ?t k (Sum256 v) ?levels =
       Ok (t', recompute (Sum256 v) (sibling_hashes t k ?levels) (sibling_sides (nat (depth t)) k ?levels))"
    "depth t' = depth t" "defaultHashes t' = defaultHashes t"
    "\<forall>x. (\<forall>i\<in>set ?levels. x \<noteq> node_key (Suc i) k) \<longrightarrow> nodes t' x = nodes ?t x"
    by auto
  have "k \<noteq> node_key i k" for i by (metis node_key_not_raw)
  with t' have "nodes t' k = Some v" "nodes t' (node_key 0 k) = Some (Sum256 v)"
    "\<forall>x. x \<noteq> k \<and> (\<forall>i. x \<noteq> node_key i k) \<longrightarrow> nodes t' x = nodes t x"
    by (auto simp: node_key_inject)
  with t' assms(2) show ?thesis
    by (intro exI [of _ "t'\<lparr>smt_root := recompute (Sum256 v) (sibling_hashes t k ?levels)
                     (sibling_sides (nat (depth t)) k ?levels)\<rparr>"])
      (simp add: SMT_Set_def validateKey_valid)
qed

section \<open>A new tree\<close>

fun empty_hash :: "nat \<Rightarrow> bytes" where
  "empty_hash 0 = Sum256 []"
| "empty_hash (Suc i) = hashPair (empty_hash i) (empty_hash i)"

lemma default_hashes_loop:
  "m \<le> n \<Longrightarrow> length (foldl (\<lambda>ds i. ds[i := hashPair (ds ! (i - 1)) (ds ! (i - 1))])
      ((replicate (Suc n) [])[0 := Sum256 []]) [1..<Suc m]) = Suc n \<and>
   (\<forall>i\<le>m. foldl (\<lambda>ds i. ds[i := hashPair (ds ! (i - 1)) (ds ! (i - 1))])
      ((replicate (Suc n) [])[0 := Sum256 []]) [1..<Suc m] ! i = empty_hash i)"
proof (induction m)
  case (Suc m)
  then show ?case by (auto simp: nth_list_update le_Suc_eq)
qed simp

lemma NewSparseMerkleTree_Ok:
  assumes "0 \<le> d"
  shows "\<exists>t. NewSparseMerkleTree d = Ok t \<and> depth t = d \<and> smt_wf t \<and> nodes t = (\<lambda>_. None) \<and>
    (\<forall>i\<le>nat d. defaultHashes t ! i = empty_hash i) \<and> smt_root t = empty_hash (nat d)"
proof -
  obtain n where d: "d = int n" using assms nonneg_int_cases by blast
  let ?ds = "foldl (\<lambda>ds i. ds[i := hashPair (ds ! (i - 1)) (ds ! (i - 1))])
      ((replicate (Suc n) [])[0 := Sum256 []]) [1..<Suc n]"
  obtain ds where ds: "?ds = ds" by blast
  note loop = default_hashes_loop [of n n, unfolded ds]
  have "go_make ([] :: bytes) (d + 1) = Ok (replicate (Suc n) [])"
    by (simp add: go_make_def d nat_add_distrib)
  moreover have "go_store (replicate (Suc n) []) 0 (Sum256 []) = Ok ((replicate (Suc n) [])[0 := Sum256 []])"
    by (simp add: go_store_def)
  moreover have "go_index ds d = Ok (empty_hash n)"
    using loop by (simp only: d) (metis go_index_Ok lessI order_refl)
  ultimately have "NewSparseMerkleTree d =
      Ok \<lparr>smt_root = empty_hash n, depth = d, defaultHashes = ds, nodes = (\<lambda>_. None)\<rparr>"
    unfolding NewSparseMerkleTree_def by (simp only: go_bind.simps Let_def d nat_int ds)
  then show ?thesis using loop by (simp add: smt_wf_def d)
qed

lemma NewSparseMerkleTree_negative:
  "d < 0 \<Longrightarrow> NewSparseMerkleTree d = (if d = - 1 then Panic IndexOutOfRange else Panic MakeNegative)"
  by (auto simp: NewSparseMerkleTree_def go_make_def go_store_def)

section \<open>The values: a finite map\<close>

datatype smt_call = CallSet "bytes option" bytes | CallGet "bytes option"

datatype smt_out = SetDone "smt_error option" | Got "smt_error + bytes" | Crashed go_panic

fun SMT_step :: "SparseMerkleTree \<Rightarrow> smt_call \<Rightarrow> smt_out \<times> SparseMerkleTree" where
  "SMT_step t (CallSet key v) =
     (case SMT_Set t key v of Inl e \<Rightarrow> (Crashed e, t) | Inr (e, t') \<Rightarrow> (SetDone e, t'))"
| "SMT_step t (CallGet key) = (Got (SMT_Get t key), t)"

fun key_error :: "int \<Rightarrow> bytes option \<Rightarrow> smt_error option" where
  "key_error d None = Some NilKey"
| "key_error d (Some k) = (if valid_key d k then None else Some InvalidKeyLength)"

fun kv_step :: "int \<times> (bytes \<Rightarrow> bytes option) \<Rightarrow> smt_call \<Rightarrow> smt_out \<times> int \<times> (bytes \<Rightarrow> bytes option)" where
  "kv_step (d, m) (CallSet key v) =
     (case key_error d key of
        Some e \<Rightarrow> (SetDone (Some e), d, m)
      | None \<Rightarrow> (SetDone None, d, m(the key := Some v)))"
| "kv_step (d, m) (CallGet key) =
     (case key_error d key of
        Some e \<Rightarrow> (Got (Inl e), d, m)
      | None \<Rightarrow> (Got (case m (the key) of None \<Rightarrow> Inl NotFound | Some v \<Rightarrow> Inr v), d, m))"

definition smt_rel :: "SparseMerkleTree \<Rightarrow> int \<times> (bytes \<Rightarrow> bytes option) \<Rightarrow> bool" where
  "smt_rel t s \<longleftrightarrow> smt_wf t \<and> depth t = fst s \<and> (\<forall>k. valid_key (fst s) k \<longrightarrow> nodes t k = snd s k)"

lemma validateKey_error:
  "validateKey t key = (case key_error (depth t) key of Some e \<Rightarrow> Inl e | None \<Rightarrow> Inr (the key))"
  by (cases key) (auto simp: validateKey_def valid_key_def)

lemma SMT_Set_related:
  assumes "smt_rel t (d, m)" "valid_key d k"
  shows "\<exists>t'. SMT_Set t (Some k) v = Ok (None, t') \<and> smt_rel t' (d, m(k := Some v))"
proof -
  from assms have t: "smt_wf t" "depth t = d" "\<forall>k. valid_key d k \<longrightarrow> nodes t k = m k"
    by (simp_all add: smt_rel_def)
  obtain t' where t': "SMT_Set t (Some k) v = Ok (None, t')" "depth t' = d"
    "defaultHashes t' = defaultHashes t" "nodes t' k = Some v"
    "\<forall>x. x \<noteq> k \<and> (\<forall>i. x \<noteq> node_key i k) \<longrightarrow> nodes t' x = nodes t x"
    using SMT_Set_Ok [of t k v] t(1,2) assms(2) by auto
  have "nodes t' x = nodes t x" if "valid_key d x" "x \<noteq> k" for x
  proof -
    have "length x = length k" using that(1) assms(2) by (simp add: valid_key_def)
    then have "x \<noteq> node_key i k" for i by (metis node_key_not_raw)
    with t'(5) that(2) show ?thesis by blast
  qed
  then have "smt_rel t' (d, m(k := Some v))"
    using t t' by (auto simp: smt_rel_def smt_wf_def)
  with t'(1) show ?thesis by blast
qed

interpretation smt: refines SMT_step kv_step smt_rel "\<lambda>_. True"
proof
  fix t s and p :: smt_call
  assume rel: "smt_rel t s"
  obtain d m where s: "s = (d, m)" by fastforce
  have d: "depth t = d" using rel s by (simp add: smt_rel_def)
  have "fst (SMT_step t p) = fst (kv_step s p) \<and> smt_rel (snd (SMT_step t p)) (snd (kv_step s p))"
  proof (cases p)
    case (CallSet key v)
    show ?thesis
    proof (cases "key_error d key")
      case None
      then obtain k where k: "key = Some k" "valid_key d k" by (cases key) (auto split: if_splits)
      then show ?thesis using SMT_Set_related [of t d m k v] rel s CallSet by auto
    next
      case (Some e)
      then show ?thesis using rel s CallSet d by (simp add: SMT_Set_def validateKey_error)
    qed
  next
    case (CallGet key)
    show ?thesis
    proof (cases "key_error d key")
      case None
      then obtain k where k: "key = Some k" "valid_key d k" by (cases key) (auto split: if_splits)
      then have "nodes t k = m k" using rel s by (simp add: smt_rel_def)
      with k show ?thesis using rel s CallGet d by (simp add: SMT_Get_def validateKey_valid)
    next
      case (Some e)
      then show ?thesis using rel s CallGet d by (simp add: SMT_Get_def validateKey_error)
    qed
  qed
  then show "fst (SMT_step t p) = fst (kv_step s p)" "smt_rel (snd (SMT_step t p)) (snd (kv_step s p))"
    by blast+
qed

lemma NewSparseMerkleTree_related:
  "NewSparseMerkleTree d = Ok t \<Longrightarrow> smt_rel t (d, \<lambda>_. None)"
  using NewSparseMerkleTree_Ok [of d] NewSparseMerkleTree_negative [of d]
  by (cases "0 \<le> d") (auto simp: smt_rel_def split: if_splits)

text \<open>
  C13: \<open>Get\<close> and \<open>Set\<close> on a new tree answer every sequence of calls as a finite map from the keys of the
  one valid length, with the error of an invalid key; the hashes kept in the same Go map never shadow
  a value, and no call panics.
\<close>

theorem sparse_refines_map:
  assumes "NewSparseMerkleTree d = Ok t"
  shows "fst (run_ops SMT_step t ps) = fst (run_ops kv_step (d, \<lambda>_. None) ps)"
  using smt.run_outputs [OF NewSparseMerkleTree_related [OF assms], of ps] by simp

theorem sparse_refines_map_witness:
  "\<exists>t. NewSparseMerkleTree 8 = Ok t \<and>
     fst (run_ops SMT_step t [CallSet (Some [7]) [1], CallGet (Some [7]), CallGet (Some [8]), CallGet None]) =
       [SetDone None, Got (Inr [1]), Got (Inl NotFound), Got (Inl NilKey)]"
proof -
  obtain t where t: "NewSparseMerkleTree 8 = Ok t" using NewSparseMerkleTree_Ok [of 8] by auto
  show ?thesis
    using t sparse_refines_map [OF t, of "[CallSet (Some [7]) [1], CallGet (Some [7]), CallGet (Some [8]), CallGet None]"]
    by (auto simp: valid_key_def go_div_def)
qed

section \<open>The proofs\<close>

lemma SMT_GenerateProof_Ok:
  "smt_wf t \<Longrightarrow> valid_key (depth t) k \<Longrightarrow>
   SMT_GenerateProof t (Some k) =
     Ok (Inr \<lparr>Siblings = sibling_hashes t k [0..<nat (depth t)],
              PathBits = sibling_sides (nat (depth t)) k [0..<nat (depth t)],
              LeafHash = hash_at t 0 k, RootHash = smt_root t\<rparr>)"
  by (simp add: SMT_GenerateProof_def validateKey_valid getNodeHash_Ok Proof_loop_Ok)

lemma length_recompute: "length h = 32 \<Longrightarrow> length (recompute h sibs bits) = 32"
  by (induction h sibs bits rule: recompute.induct) (auto simp: hashPair_def)

lemma run_from_new:
  assumes "NewSparseMerkleTree d = Ok t0"
  shows "smt_wf (snd (run_ops SMT_step t0 ps)) \<and> depth (snd (run_ops SMT_step t0 ps)) = d"
proof -
  have "fst (snd (run_ops kv_step (d, m) ps)) = d" for m
  proof (induction ps arbitrary: m)
    case (Cons p ps)
    have "fst (snd (kv_step (d, m) p)) = d" by (cases p) (auto split: option.split)
    with Cons show ?case by (simp add: Let_def split_beta) (metis prod.collapse)
  qed simp
  then show ?thesis
    using smt.run_invariant [OF NewSparseMerkleTree_related [OF assms], of ps] by (simp add: smt_rel_def)
qed

text \<open>One \<open>Set\<close> and what it leaves alone: the siblings of every other key that is not one flipped bit away.\<close>

definition set_to :: "SparseMerkleTree \<Rightarrow> bytes \<Rightarrow> bytes \<Rightarrow> SparseMerkleTree \<Rightarrow> bool" where
  "set_to t k v t' \<longleftrightarrow> SMT_Set t (Some k) v = Ok (None, t') \<and> smt_wf t' \<and> depth t' = depth t \<and>
     defaultHashes t' = defaultHashes t \<and>
     smt_root t' = recompute (Sum256 v) (sibling_hashes t k [0..<nat (depth t)])
                     (sibling_sides (nat (depth t)) k [0..<nat (depth t)]) \<and>
     nodes t' (node_key 0 k) = Some (Sum256 v) \<and>
     (\<forall>x. x \<noteq> k \<and> (\<forall>i. x \<noteq> node_key i k) \<longrightarrow> nodes t' x = nodes t x)"

lemma set_to_exists: "smt_wf t \<Longrightarrow> valid_key (depth t) k \<Longrightarrow> \<exists>t'. set_to t k v t'"
  using SMT_Set_Ok [of t k v] by (auto simp: set_to_def smt_wf_def)

lemma set_to_other:
  "set_to t k v t' \<Longrightarrow> length k' = length k \<Longrightarrow> k' \<noteq> k \<Longrightarrow> nodes t' (node_key i k') = nodes t (node_key i k')"
  unfolding set_to_def by (metis node_key_inject node_key_not_raw)

lemma set_to_siblings:
  assumes set: "set_to t k v t'" and "length k' = length k" and flips: "\<And>i. i < nat (depth t) \<Longrightarrow> flip_key k' i \<noteq> k"
  shows "sibling_hashes t' k' [0..<nat (depth t)] = sibling_hashes t k' [0..<nat (depth t)]"
  unfolding sibling_hashes_def
proof (intro map_cong refl)
  have eq: "depth t' = depth t" "defaultHashes t' = defaultHashes t" using set by (auto simp: set_to_def)
  fix i assume "i \<in> set [0..<nat (depth t)]"
  then have "flip_key k' (nat (depth t) - 1 - i) \<noteq> k" by (intro flips) auto
  then show "hash_at t' i (flip_key k' (nat (depth t') - 1 - i)) = hash_at t i (flip_key k' (nat (depth t) - 1 - i))"
    using set_to_other [OF set] assms(2) eq by (auto intro: hash_at_cong)
qed

lemma flip_differs_valid: "smt_wf t \<Longrightarrow> valid_key (depth t) k \<Longrightarrow> i < nat (depth t) \<Longrightarrow> flip_key k i \<noteq> k"
  using flip_differs [of i k] valid_key_position [of "depth t" k "nat (depth t) - 1 - i"] by (auto simp: smt_wf_def)

text \<open>The generated proof verifies exactly if the hash at the leaf and the siblings give the root.\<close>

lemma generated_proof:
  assumes "smt_wf t" and "valid_key (depth t) k" and "length (hash_at t 0 k) = 32" and "length (smt_root t) = 32"
  shows "\<exists>p. SMT_GenerateProof t (Some k) = Ok (Inr p) \<and> LeafHash p = hash_at t 0 k \<and> RootHash p = smt_root t \<and>
    length (Siblings p) = nat (depth t) \<and>
    (VerifyProof (Some p) \<longleftrightarrow> recompute (hash_at t 0 k) (sibling_hashes t k [0..<nat (depth t)])
       (sibling_sides (nat (depth t)) k [0..<nat (depth t)]) = smt_root t)"
proof -
  have "hash_at t 0 k \<noteq> []" "smt_root t \<noteq> []" using assms(3,4) by (simp_all flip: length_greater_0_conv)
  then show ?thesis using SMT_GenerateProof_Ok [OF assms(1,2)] by (auto simp: VerifyProof_def)
qed

text \<open>
  C16: after any sequence of calls, setting a valid key and generating its proof gives a proof that
  \<open>VerifyProof\<close> accepts, with the hash of the value at its leaf, the tree's root, and one sibling for
  each level.
\<close>

theorem sparse_proof_after_set:
  assumes "NewSparseMerkleTree d = Ok t0" and "valid_key d k"
  shows "\<exists>t' p. SMT_Set (snd (run_ops SMT_step t0 ps)) (Some k) v = Ok (None, t') \<and>
    SMT_GenerateProof t' (Some k) = Ok (Inr p) \<and> VerifyProof (Some p) \<and>
    LeafHash p = Sum256 v \<and> RootHash p = smt_root t' \<and> length (Siblings p) = nat d"
proof -
  let ?t = "snd (run_ops SMT_step t0 ps)"
  have wf: "smt_wf ?t" "depth ?t = d" using run_from_new [OF assms(1)] by auto
  obtain t' where t': "set_to ?t k v t'" using set_to_exists wf assms(2) by blast
  then have facts: "SMT_Set ?t (Some k) v = Ok (None, t')" "smt_wf t'" "depth t' = d" "hash_at t' 0 k = Sum256 v"
    "smt_root t' = recompute (Sum256 v) (sibling_hashes ?t k [0..<nat d]) (sibling_sides (nat d) k [0..<nat d])"
    using wf(2) by (auto simp: set_to_def hash_at_def)
  have "sibling_hashes t' k [0..<nat d] = sibling_hashes ?t k [0..<nat d]"
    using set_to_siblings [OF t' refl flip_differs_valid [OF wf(1)]] wf(2) assms(2) by simp
  then show ?thesis
    using generated_proof [OF facts(2), of k] facts assms(2) length_recompute by fastforce
qed

theorem sparse_proof_after_set_witness:
  "\<exists>t0 t' p. NewSparseMerkleTree 8 = Ok t0 \<and>
     SMT_Set (snd (run_ops SMT_step t0 [CallSet (Some [1]) [1]])) (Some [7]) [2] = Ok (None, t') \<and>
     SMT_GenerateProof t' (Some [7]) = Ok (Inr p) \<and> VerifyProof (Some p)"
proof -
  obtain t where t: "NewSparseMerkleTree 8 = Ok t" using NewSparseMerkleTree_Ok [of 8] by auto
  have "valid_key 8 [7]" by (simp add: valid_key_def go_div_def)
  from sparse_proof_after_set [OF t this, of "[CallSet (Some [1]) [1]]" "[2]"] t show ?thesis by blast
qed

lemma recompute_empty:
  "length bits = m \<Longrightarrow> recompute (empty_hash j) (map empty_hash [j..<j + m]) bits = empty_hash (j + m)"
proof (induction m arbitrary: j bits)
  case (Suc m)
  then obtain b bs where bits: "bits = b # bs" "length bs = m" by (cases bits) auto
  have "[j..<j + Suc m] = j # [Suc j..<Suc j + m]" by (simp add: upt_conv_Cons del: upt_Suc)
  then show ?case using Suc.IH [OF bits(2), of "Suc j"] bits(1) by simp
qed simp

text \<open>
  A new tree proves the absence of every valid key: the generated proof verifies against the root of
  the empty tree with the hash of the empty value at its leaf. A tree of negative depth panics.
\<close>

theorem sparse_new_proves_absence:
  "(if d < 0 then \<exists>e. NewSparseMerkleTree d = Panic e
    else \<exists>t. NewSparseMerkleTree d = Ok t \<and>
      \<not> (\<exists>k. valid_key d k \<and> \<not> (\<exists>p. SMT_GenerateProof t (Some k) = Ok (Inr p) \<and> VerifyProof (Some p) \<and>
        LeafHash p = Sum256 [] \<and> RootHash p = smt_root t)))"
proof (cases "d < 0")
  case False
  then obtain t where t: "NewSparseMerkleTree d = Ok t" "depth t = d" "smt_wf t" "nodes t = (\<lambda>_. None)"
    "\<forall>i\<le>nat d. defaultHashes t ! i = empty_hash i" "smt_root t = empty_hash (nat d)"
    using NewSparseMerkleTree_Ok [of d] by auto
  have "\<exists>p. SMT_GenerateProof t (Some k) = Ok (Inr p) \<and> VerifyProof (Some p) \<and>
        LeafHash p = Sum256 [] \<and> RootHash p = smt_root t" if "valid_key d k" for k
  proof -
    let ?sides = "sibling_sides (nat d) k [0..<nat d]"
    have sib: "sibling_hashes t k [0..<nat d] = map empty_hash [0..<0 + nat d]"
      using t by (auto simp: sibling_hashes_def hash_at_def)
    have "recompute (Sum256 []) (sibling_hashes t k [0..<nat d]) ?sides = empty_hash (nat d)"
      unfolding sib using recompute_empty [of ?sides "nat d" 0] by simp
    moreover have "hash_at t 0 k = Sum256 []" using t(4,5) by (simp add: hash_at_def)
    moreover have "length (empty_hash n) = 32" for n by (cases n) (simp_all add: hashPair_def)
    then have "Sum256 [] \<noteq> []" "empty_hash n \<noteq> []" for n
      by (simp_all flip: length_greater_0_conv)
    ultimately show ?thesis
      using that t(2,3,6) by (simp add: SMT_GenerateProof_Ok VerifyProof_def)
  qed
  with False t(1) show ?thesis by auto
qed (simp add: NewSparseMerkleTree_negative)

lemma flip_flip: "pos div 8 < length k \<Longrightarrow> flip_key (flip_key k pos) pos = k"
  by (simp add: flip_key_def xor.assoc)

lemma flip_flip_valid: "smt_wf t \<Longrightarrow> valid_key (depth t) k \<Longrightarrow> i < nat (depth t) \<Longrightarrow> flip_key (flip_key k i) i = k"
  using flip_flip [of i k] valid_key_position [of "depth t" k "nat (depth t) - 1 - i"] by (auto simp: smt_wf_def)

text \<open>
  The siblings are looked up under the key with one bit flipped, so a value set under a key that
  differs in more than one bit is never found on another key's path.
\<close>

text \<open>
  C31: set a key and then a second one that is not the first with a single bit flipped: the root no
  longer depends on the first value at all, it is the root of the tree in which only the second key was
  set; the proof generated for the first key verifies only if both roots happen to be equal.
\<close>

theorem sparse_root_forgets:
  assumes "NewSparseMerkleTree d = Ok t0" and "valid_key d k1" and "valid_key d k2"
    and "k1 \<noteq> k2" and "\<forall>pos<nat d. flip_key k2 pos \<noteq> k1"
  shows "\<exists>t1 t2 t2' p. SMT_Set t0 (Some k1) v1 = Ok (None, t1) \<and> SMT_Set t1 (Some k2) v2 = Ok (None, t2) \<and>
    SMT_Set t0 (Some k2) v2 = Ok (None, t2') \<and> smt_root t2 = smt_root t2' \<and>
    SMT_GenerateProof t2 (Some k1) = Ok (Inr p) \<and> LeafHash p = Sum256 v1 \<and>
    (VerifyProof (Some p) \<longleftrightarrow> smt_root t1 = smt_root t2)"
proof -
  let ?levels = "[0..<nat d]" and ?sides = "\<lambda>k. sibling_sides (nat d) k [0..<nat d]"
  have t0: "smt_wf t0" "depth t0 = d" using run_from_new [OF assms(1), of "[]"] by auto
  have len: "length k1 = length k2" using assms(2,3) by (simp add: valid_key_def)
  have flips: "flip_key k1 i \<noteq> k2" if "i < nat d" for i
    using that assms(5) flip_flip_valid [OF t0(1), of k1 i] assms(2) t0(2) by metis
  obtain t1 where t1: "set_to t0 k1 v1 t1" using set_to_exists t0 assms(2) by blast
  then have wf1: "smt_wf t1" "depth t1 = d" using t0 by (simp_all add: set_to_def)
  obtain t2 where t2: "set_to t1 k2 v2 t2" using set_to_exists wf1 assms(3) by blast
  then have wf2: "smt_wf t2" "depth t2 = d" using wf1 by (simp_all add: set_to_def)
  obtain t2' where t2': "set_to t0 k2 v2 t2'" using set_to_exists t0 assms(3) by blast
  have "sibling_hashes t1 k2 ?levels = sibling_hashes t0 k2 ?levels"
    using set_to_siblings [OF t1] len assms(5) t0(2) by simp
  then have roots: "smt_root t2 = smt_root t2'" using t2 t2' t0(2) wf1(2) by (simp add: set_to_def)
  have "sibling_hashes t2 k1 ?levels = sibling_hashes t1 k1 ?levels" "sibling_hashes t1 k1 ?levels = sibling_hashes t0 k1 ?levels"
    using set_to_siblings [OF t2] set_to_siblings [OF t1] len flips wf1(2) t0 flip_differs_valid [OF t0(1)] assms(2) by simp_all
  then have root1: "smt_root t1 = recompute (Sum256 v1) (sibling_hashes t2 k1 ?levels) (?sides k1)"
    using t1 t0(2) by (simp add: set_to_def)
  have leaf: "hash_at t2 0 k1 = Sum256 v1"
    using set_to_other [OF t2, of k1 0] len assms(4) t1 by (simp add: hash_at_def set_to_def)
  have "length (smt_root t2) = 32" using t2 length_recompute by (simp add: set_to_def)
  then obtain p where p: "SMT_GenerateProof t2 (Some k1) = Ok (Inr p)" "LeafHash p = Sum256 v1"
    "VerifyProof (Some p) \<longleftrightarrow> smt_root t1 = smt_root t2"
    using generated_proof [OF wf2(1), of k1] wf2(2) assms(2) leaf root1 by auto
  show ?thesis
    by (intro exI [of _ t1] exI [of _ t2] exI [of _ t2'] exI [of _ p])
      (use t1 t2 t2' roots p in \<open>simp add: set_to_def\<close>)
qed

theorem sparse_root_forgets_witness:
  "\<exists>t0 t1 t2 t2'. NewSparseMerkleTree 8 = Ok t0 \<and> SMT_Set t0 (Some [0]) [1] = Ok (None, t1) \<and>
     SMT_Set t1 (Some [3]) [2] = Ok (None, t2) \<and> SMT_Set t0 (Some [3]) [2] = Ok (None, t2') \<and>
     smt_root t2 = smt_root t2'"
proof -
  obtain t where t: "NewSparseMerkleTree 8 = Ok t" using NewSparseMerkleTree_Ok [of 8] by auto
  have valid: "valid_key 8 [0]" "valid_key 8 [3]" by (simp_all add: valid_key_def go_div_def)
  have "\<forall>pos\<in>set [0..<8]. flip_key [3] pos \<noteq> [0]" by code_simp
  then have "\<forall>pos<nat 8. flip_key [3] pos \<noteq> [0]" by auto
  from sparse_root_forgets [OF t valid _ this, of "[1]" "[2]"] t show ?thesis by fastforce
qed

end
