(* ===== verification/MachineInts.thy ===== *)
theory MachineInts
  imports GoPrelude "HOL-Library.Word"
begin

text \<open>
  Go's \<open>int64\<close> as integers: sums, products and differences that may leave the range are wrapped to 64
  bits in two's complement.
\<close>

definition wrap64 :: "int \<Rightarrow> int" where
  "wrap64 x = sint (of_int x :: 64 word)"

lemma wrap64_id [simp]: "- (2 ^ 63) \<le> x \<Longrightarrow> x < 2 ^ 63 \<Longrightarrow> wrap64 x = x"
  by (simp add: wrap64_def sint_sbintrunc' signed_take_bit_int_eq_self_iff)

lemma wrap64_add: "wrap64 (a + wrap64 b) = wrap64 (a + b)"
  by (simp add: wrap64_def)

definition MaxInt64 :: int where
  "MaxInt64 = 2 ^ 63 - 1"

text \<open>\<open>time.Since\<close> is the difference of two readings of the clock in nanoseconds; it saturates.\<close>

definition time_Since :: "int \<Rightarrow> int \<Rightarrow> int" where
  "time_Since now t = max (- MaxInt64 - 1) (min MaxInt64 (now - t))"

lemma time_Since_mono: "c \<le> c' \<Longrightarrow> t' \<le> t \<Longrightarrow> time_Since c t \<le> time_Since c' t'"
  by (auto simp: time_Since_def)

lemma time_Since_nonneg: "t \<le> c \<Longrightarrow> 0 \<le> time_Since c t" "t \<le> c \<Longrightarrow> time_Since c t \<le> c - t"
  by (auto simp: time_Since_def MaxInt64_def)

end
