(* ===== verification/RlpCodec.thy ===== *)
theory RlpCodec
  imports Sha256 MachineInts
begin

text \<open>
  The RLP encoder and decoder of \<open>algorithms/serialization.go\<close>. Bytes are 8-bit words, a
  \<open>uint64\<close> is a 64-bit word and Go's \<open>int\<close> is an integer; sums in which a decoded 64-bit length
  occurs are wrapped to 64 bits, all other positions are below the length of a slice.

  A slice expression may reach beyond the length of its operand into the spare capacity, so the
  decoder has the bytes between length and capacity as its second argument.

  RLP is also given as a grammar, \<open>rlp_item\<close>. The decoder reads all of it and the encoder writes into it; the round
  trip is the composition.
\<close>

section \<open>Values\<close>

text \<open>The dynamic values that the encoder takes and the decoder gives; \<open>Other\<close> is any other type.\<close>

datatype go_value =
    NilValue
  | Bytes bytes
  | Str bytes
  | U64 "64 word"
  | Byte byte
  | Items "go_value list"
  | Other

datatype rlp_error = UnsupportedType | EmptyData | OffsetOutOfBounds

section \<open>Encoding\<close>

text \<open>The loop stops at the last of the eight bytes.\<close>

fun strip_zeros :: "bytes \<Rightarrow> bytes" where
  "strip_zeros (b # c # buf) = (if b = 0 then strip_zeros (c # buf) else b # c # buf)"
| "strip_zeros buf = buf"

definition encodeBigEndian :: "64 word \<Rightarrow> bytes" where
  "encodeBigEndian n = strip_zeros (be_bytes 8 n)"

definition RLPEncodeString :: "bytes \<Rightarrow> bytes" where
  "RLPEncodeString data =
     (let dataLen = length data
      in if dataLen = 1 \<and> data ! 0 \<le> 0x7f then data
         else if dataLen \<le> 55 then [0x80 + of_nat dataLen] @ data
         else let lenBytes = encodeBigEndian (of_nat dataLen)
              in ([0xb7 + of_nat (length lenBytes)] @ lenBytes) @ data)"

definition RLPEncodeList :: "bytes list \<Rightarrow> bytes" where
  "RLPEncodeList items =
     (let result = concat items; payloadLen = length result
      in if payloadLen \<le> 55 then [0xc0 + of_nat payloadLen] @ result
         else let lenBytes = encodeBigEndian (of_nat payloadLen)
              in ([0xf7 + of_nat (length lenBytes)] @ lenBytes) @ result)"

definition RLPEncodeUint64 :: "64 word \<Rightarrow> bytes" where
  "RLPEncodeUint64 n =
     (if n = 0 then [0x80]
      else if n \<le> 127 then [ucast n]
      else RLPEncodeString (encodeBigEndian n))"

fun RLPEncode :: "go_value \<Rightarrow> rlp_error + bytes"
  and RLPEncode_items :: "go_value list \<Rightarrow> rlp_error + bytes list" where
  "RLPEncode (Bytes v) = Inr (RLPEncodeString v)"
| "RLPEncode (Str v) = Inr (RLPEncodeString v)"
| "RLPEncode (U64 n) = Inr (RLPEncodeUint64 n)"
| "RLPEncode (Items vs) =
     (case RLPEncode_items vs of Inl e \<Rightarrow> Inl e | Inr es \<Rightarrow> Inr (RLPEncodeList es))"
| "RLPEncode NilValue = Inr [0x80]"
| "RLPEncode (Byte b) = Inl UnsupportedType"
| "RLPEncode Other = Inl UnsupportedType"
| "RLPEncode_items [] = Inr []"
| "RLPEncode_items (v # vs) =
     (case RLPEncode v of
        Inl e \<Rightarrow> Inl e
      | Inr e \<Rightarrow> (case RLPEncode_items vs of Inl err \<Rightarrow> Inl err | Inr es \<Rightarrow> Inr (e # es)))"

section \<open>Decoding\<close>

definition be_value :: "bytes \<Rightarrow> 64 word" where
  "be_value buf = foldl (\<lambda>w b. push_bit 8 w OR ucast b) 0 buf"

definition decodeBigEndian :: "bytes \<Rightarrow> int go" where
  "decodeBigEndian lenBytes =
     (if 8 < length lenBytes then Panic SliceOutOfRange
      else Ok (sint (be_value (replicate (8 - length lenBytes) 0 @ lenBytes))))"

definition as_list :: "int \<Rightarrow> (rlp_error + go_value list) go option \<Rightarrow> (rlp_error + go_value \<times> int) go option" where
  "as_list consumed r =
     map_option (\<lambda>m. go_bind m (\<lambda>x. Ok (case x of Inl e \<Rightarrow> Inl e | Inr items \<Rightarrow> Inr (Items items, consumed)))) r"

text \<open>
  The decoder and the loop over a list's items have fuel; \<open>None\<close> is a run that needs more. A list
  whose length bytes say a negative number makes the position go backwards, so the loop may not end.
\<close>

fun rlpDecodeItem :: "nat \<Rightarrow> bytes \<Rightarrow> bytes \<Rightarrow> int \<Rightarrow> (rlp_error + go_value \<times> int) go option"
  and rlpDecode_items ::
    "nat \<Rightarrow> bytes \<Rightarrow> bytes \<Rightarrow> int \<Rightarrow> int \<Rightarrow> go_value list \<Rightarrow> (rlp_error + go_value list) go option" where
  "rlpDecodeItem 0 data spare offset = None"
| "rlpDecodeItem (Suc fuel) data spare offset =
     (if data = [] then Some (Ok (Inl EmptyData))
      else if int (length data) \<le> offset then Some (Ok (Inl OffsetOutOfBounds))
      else case go_index data offset of
        Inl e \<Rightarrow> Some (Panic e)
      | Inr key \<Rightarrow>
          if key = 0x80 then Some (Ok (Inr (Str [], 1)))
          else if key = 0xc0 then Some (Ok (Inr (Bytes [], 1)))
          else if key \<le> 0x7f then Some (Ok (Inr (Byte key, 1)))
          else if key \<le> 0xb7 then
            (let dataLen = int (unat (key - 0x80))
             in Some (go_bind (go_slice (data @ spare) (offset + 1) (offset + 1 + dataLen)) (\<lambda>d.
                  Ok (Inr (Bytes d, dataLen + 1)))))
          else if key \<le> 0xbf then
            (let numLenBytes = int (unat (key - 0xb7))
             in Some (go_bind (go_slice (data @ spare) (offset + 1) (offset + 1 + numLenBytes)) (\<lambda>lenBytes.
                  go_bind (decodeBigEndian lenBytes) (\<lambda>dataLen.
                  let dataStart = offset + 1 + numLenBytes;
                      totalConsumed = wrap64 (1 + numLenBytes + dataLen)
                  in go_bind (go_slice (data @ spare) dataStart (wrap64 (dataStart + dataLen))) (\<lambda>d.
                       Ok (Inr (Bytes d, totalConsumed)))))))
          else if key \<le> 0xf7 then
            (let payloadLen = int (unat (key - 0xc0))
             in as_list (1 + payloadLen)
                  (rlpDecode_items fuel data spare (offset + 1) (offset + 1 + payloadLen) []))
          else
            (let numLenBytes = int (unat (key - 0xf7))
             in case go_bind (go_slice (data @ spare) (offset + 1) (offset + 1 + numLenBytes)) decodeBigEndian of
                  Inl e \<Rightarrow> Some (Panic e)
                | Inr payloadLen \<Rightarrow>
                    (let pos = offset + 1 + numLenBytes; endPos = wrap64 (pos + payloadLen)
                     in as_list (wrap64 (1 + numLenBytes + payloadLen))
                          (rlpDecode_items fuel data spare pos endPos []))))"
| "rlpDecode_items 0 data spare pos endPos items = None"
| "rlpDecode_items (Suc fuel) data spare pos endPos items =
     (if pos < endPos
      then case rlpDecodeItem fuel data spare pos of
             None \<Rightarrow> None
           | Some (Inl e) \<Rightarrow> Some (Panic e)
           | Some (Inr (Inl e)) \<Rightarrow> Some (Ok (Inl e))
           | Some (Inr (Inr (item, consumed))) \<Rightarrow>
               rlpDecode_items fuel data spare (wrap64 (pos + consumed)) endPos (items @ [item])
      else Some (Ok (Inr items)))"

definition RLPDecode :: "nat \<Rightarrow> bytes \<Rightarrow> bytes \<Rightarrow> (rlp_error + go_value) go option" where
  "RLPDecode fuel data spare =
     map_option (\<lambda>m. go_bind m (\<lambda>x. Ok (map_sum id fst x))) (rlpDecodeItem fuel data spare 0)"

section \<open>Big-endian lengths\<close>

lemma strip_zeros_length: "buf \<noteq> [] \<Longrightarrow> strip_zeros buf \<noteq> [] \<and> length (strip_zeros buf) \<le> length buf"
  by (induction buf rule: strip_zeros.induct) auto

lemma length_encodeBigEndian: "1 \<le> length (encodeBigEndian n) \<and> length (encodeBigEndian n) \<le> 8"
proof -
  have "be_bytes 8 n \<noteq> []" by (metis length_be_bytes list.size(3) zero_neq_numeral)
  from strip_zeros_length [OF this] show ?thesis
    by (auto simp: encodeBigEndian_def Suc_le_eq)
qed

lemma strip_zeros_pad: "replicate (length buf - length (strip_zeros buf)) 0 @ strip_zeros buf = buf"
proof (induction buf rule: strip_zeros.induct)
  case (1 b c buf)
  have "length (strip_zeros (c # buf)) \<le> length (c # buf)" using strip_zeros_length [of "c # buf"] by simp
  with 1 show ?case by (auto simp: Suc_diff_le)
qed auto

lemma be_bytes_Suc: "be_bytes (Suc k) n = ucast (drop_bit (8 * k) n) # be_bytes k n"
  by (simp add: be_bytes_def)

lemma foldl_be_bytes:
  "foldl (\<lambda>w b. push_bit 8 w OR ucast b) w (be_bytes k n) = push_bit (8 * k) w OR take_bit (8 * k) (n :: 64 word)"
proof (induction k arbitrary: w)
  case (Suc k)
  show ?case
    unfolding be_bytes_Suc foldl.simps Suc.IH
    by (rule bit_word_eqI) (auto simp: bit_simps ac_simps)
qed (simp add: be_bytes_def)

lemma be_value_be_bytes: "be_value (be_bytes 8 n) = n"
  unfolding be_value_def foldl_be_bytes by (simp add: take_bit_word_eq_self)

lemma decode_encodeBigEndian: "decodeBigEndian (encodeBigEndian n) = Ok (sint n)"
  using strip_zeros_pad [of "be_bytes 8 n"] length_encodeBigEndian [of n]
  by (simp add: decodeBigEndian_def encodeBigEndian_def be_value_be_bytes)

text \<open>
  The number that length bytes stand for, most significant first and with any number of leading zeros; in the
  decoder it is a signed 64-bit integer.
\<close>

definition big_endian :: "bytes \<Rightarrow> nat" where
  "big_endian lb = foldl (\<lambda>n b. 256 * n + unat b) 0 lb"

definition announces :: "bytes \<Rightarrow> nat \<Rightarrow> bool" where
  "announces lb n \<longleftrightarrow> 1 \<le> length lb \<and> length lb \<le> 8 \<and> big_endian lb = n"

lemma foldl_be_value:
  "foldl (\<lambda>w b. push_bit 8 w OR ucast b) (of_nat m) lb = (of_nat (foldl (\<lambda>n b. 256 * n + unat b) m (lb :: bytes)) :: 64 word)"
proof (induction lb arbitrary: m)
  case (Cons b lb)
  have "push_bit 8 (of_nat m :: 64 word) OR ucast b = push_bit 8 (of_nat m) + ucast b"
    by (rule disjunctive_add_eq_or [symmetric], rule bit_word_eqI) (auto simp: bit_simps dest: bit_imp_le_length)
  also have "\<dots> = of_nat (256 * m + unat b)" by (simp add: push_bit_eq_mult ac_simps of_nat_unat)
  finally show ?case using Cons.IH [of "256 * m + unat b"] by simp
qed simp

lemma be_value_big_endian: "be_value lb = of_nat (big_endian lb)"
  using foldl_be_value [of 0 lb] by (simp add: be_value_def big_endian_def)

lemma big_endian_pad: "big_endian (replicate k 0 @ lb) = big_endian lb"
  by (induction k) (simp_all add: big_endian_def)

lemma foldl_big_endian_less:
  "foldl (\<lambda>n b. 256 * n + unat b) m lb < (m + 1) * 256 ^ length (lb :: bytes)"
proof (induction lb arbitrary: m)
  case (Cons b lb)
  have "unat b < 256" using unsigned_less [of b, where ?'a = nat] by simp
  then have "(256 * m + unat b + 1) * 256 ^ length lb \<le> ((m + 1) * 256) * 256 ^ length lb" by (intro mult_right_mono) auto
  from less_le_trans [OF Cons.IH this] show ?case by (simp add: algebra_simps)
qed simp

lemma announces_less: "announces lb n \<Longrightarrow> n < 2 ^ 64"
proof -
  assume a: "announces lb n"
  then have "n < 256 ^ length lb" using foldl_big_endian_less [of 0 lb] by (simp add: announces_def big_endian_def)
  also have "\<dots> \<le> 256 ^ 8" using a by (intro power_increasing) (auto simp: announces_def)
  finally show ?thesis by simp
qed

lemma decode_announced: "announces lb n \<Longrightarrow> decodeBigEndian lb = Ok (wrap64 (int n))"
  by (simp add: announces_def decodeBigEndian_def big_endian_pad be_value_big_endian wrap64_def)

lemma announces_encode: "announces (encodeBigEndian n) (unat n)"
proof -
  have "announces (encodeBigEndian n) (big_endian (encodeBigEndian n))"
    using length_encodeBigEndian [of n] by (simp add: announces_def)
  moreover have "of_nat (big_endian (encodeBigEndian n)) = n"
  proof -
    have "big_endian (encodeBigEndian n) = big_endian (be_bytes 8 n)"
      using big_endian_pad strip_zeros_pad [of "be_bytes 8 n"] by (metis encodeBigEndian_def)
    then show ?thesis using be_value_be_bytes [of n] by (simp add: be_value_big_endian)
  qed
  from arg_cong [OF this, of unat] have "big_endian (encodeBigEndian n) = unat n"
    using announces_less [OF calculation] by (simp add: unat_of_nat)
  ultimately show ?thesis by simp
qed

section \<open>The prefix byte\<close>

lemma prefix_tests:
  assumes "unat (key :: byte) = m"
  shows "key = 0x80 \<longleftrightarrow> m = 128" "key = 0xc0 \<longleftrightarrow> m = 192" "key \<le> 0x7f \<longleftrightarrow> m \<le> 127"
    "key \<le> 0xb7 \<longleftrightarrow> m \<le> 183" "key \<le> 0xbf \<longleftrightarrow> m \<le> 191" "key \<le> 0xf7 \<longleftrightarrow> m \<le> 247"
  using assms by (auto simp: word_le_nat_alt word_unat_eq_iff)

lemma prefix_length_nat:
  "unat (key :: byte) = unat c + n \<Longrightarrow> unat (key - c) = n"
proof -
  assume key: "unat key = unat c + n"
  then have "c \<le> key" by (simp add: word_le_nat_alt)
  then show "unat (key - c) = n" using key by (simp add: unat_sub)
qed

lemma prefix_length:
  "unat (key :: byte) = unat c + n \<Longrightarrow> uint (key - c) = int n"
  using prefix_length_nat by (metis uint_nat)

lemma prefix_value: "unat c + n < 256 \<Longrightarrow> unat (c + of_nat n :: byte) = unat c + n"
  by (simp add: unat_word_ariths unat_of_nat)

lemma go_index_prefix [simp]: "go_index (pre @ key # rest) (int (length pre)) = Ok key"
  using go_index_Ok [of "length pre" "pre @ key # rest"] by simp

lemma go_slice_mid:
  "zs = as @ xs @ bs \<Longrightarrow> lo = int (length as) \<Longrightarrow> hi = lo + int (length xs) \<Longrightarrow> go_slice zs lo hi = Ok xs"
  by (simp add: go_slice_def)

text \<open>One item, by its prefix.\<close>

lemma go_index_OkD: "go_index data offset = Ok key \<Longrightarrow> data \<noteq> [] \<and> \<not> int (length data) \<le> offset"
  by (auto simp: go_index_def split: if_splits)

lemma item_byte:
  assumes "go_index data offset = Ok key" and "unat key \<le> 127"
  shows "rlpDecodeItem (Suc fuel) data spare offset = Some (Ok (Inr (Byte key, 1)))"
  using assms go_index_OkD [OF assms(1)] prefix_tests [OF refl, of key] by simp

lemma item_empty_string:
  assumes "go_index data offset = Ok key" and "unat key = 128"
  shows "rlpDecodeItem (Suc fuel) data spare offset = Some (Ok (Inr (Str [], 1)))"
  using assms go_index_OkD [OF assms(1)] prefix_tests [OF assms(2)] by simp

lemma item_empty_list:
  assumes "go_index data offset = Ok key" and "unat key = 192"
  shows "rlpDecodeItem (Suc fuel) data spare offset = Some (Ok (Inr (Bytes [], 1)))"
  using assms go_index_OkD [OF assms(1)] prefix_tests [OF assms(2)] by simp

lemma item_short_string:
  assumes "go_index data offset = Ok key" and "unat key = 128 + n" and "0 < n" and "n \<le> 55"
  shows "rlpDecodeItem (Suc fuel) data spare offset =
    Some (go_bind (go_slice (data @ spare) (offset + 1) (offset + 1 + int n)) (\<lambda>d. Ok (Inr (Bytes d, int n + 1))))"
  using assms go_index_OkD [OF assms(1)] prefix_tests [OF assms(2)] prefix_length [of key "0x80" n]
  by (simp add: Let_def)

lemma item_long_string:
  assumes "go_index data offset = Ok key" and "unat key = 183 + n" and "0 < n" and "n \<le> 8"
  shows "rlpDecodeItem (Suc fuel) data spare offset =
    Some (go_bind (go_slice (data @ spare) (offset + 1) (offset + 1 + int n)) (\<lambda>lenBytes.
      go_bind (decodeBigEndian lenBytes) (\<lambda>dataLen.
      go_bind (go_slice (data @ spare) (offset + 1 + int n) (wrap64 (offset + 1 + int n + dataLen))) (\<lambda>d.
        Ok (Inr (Bytes d, wrap64 (1 + int n + dataLen)))))))"
  using assms go_index_OkD [OF assms(1)] prefix_tests [OF assms(2)] prefix_length [of key "0xb7" n]
  by (simp add: Let_def)

lemma item_short_list:
  assumes "go_index data offset = Ok key" and "unat key = 192 + n" and "0 < n" and "n \<le> 55"
  shows "rlpDecodeItem (Suc fuel) data spare offset =
    as_list (1 + int n) (rlpDecode_items fuel data spare (offset + 1) (offset + 1 + int n) [])"
  using assms go_index_OkD [OF assms(1)] prefix_tests [OF assms(2)] prefix_length [of key "0xc0" n]
  by (simp add: Let_def)

lemma item_long_list:
  assumes "go_index data offset = Ok key" and "unat key = 247 + n" and "0 < n" and "n \<le> 8"
    and "go_bind (go_slice (data @ spare) (offset + 1) (offset + 1 + int n)) decodeBigEndian = Ok payloadLen"
  shows "rlpDecodeItem (Suc fuel) data spare offset =
    as_list (wrap64 (1 + int n + payloadLen))
      (rlpDecode_items fuel data spare (offset + 1 + int n) (wrap64 (offset + 1 + int n + payloadLen)) [])"
  using assms go_index_OkD [OF assms(1)] prefix_tests [OF assms(2)] prefix_length [of key "0xf7" n]
  by (simp add: Let_def)

declare rlpDecodeItem.simps(2) [simp del]

text \<open>The length bytes of a long string or list.\<close>

lemma sint_length: "n < 2 ^ 63 \<Longrightarrow> sint (of_nat n :: 64 word) = int n"
  using wrap64_id [of "int n"] by (simp add: wrap64_def del: wrap64_id)

lemma announces_length: "n < 2 ^ 63 \<Longrightarrow> announces (encodeBigEndian (of_nat n)) n"
  using announces_encode [of "of_nat n"] by (simp add: unat_of_nat)

section \<open>Round trip\<close>

text \<open>
  \<open>decoded v\<close> is what the decoder makes of the encoding of \<open>v\<close>: a single byte below 0x80 is a byte, not
  a slice, the empty string is Go's empty string, and the empty list is an empty byte slice.
\<close>

definition decoded_string :: "bytes \<Rightarrow> go_value" where
  "decoded_string b =
     (if b = [] then Str []
      else if length b = 1 \<and> b ! 0 \<le> 0x7f then Byte (b ! 0)
      else Bytes b)"

fun decoded :: "go_value \<Rightarrow> go_value" where
  "decoded (Bytes b) = decoded_string b"
| "decoded (Str b) = decoded_string b"
| "decoded (U64 n) = decoded_string (if n = 0 then [] else encodeBigEndian n)"
| "decoded (Items vs) = (if vs = [] then Bytes [] else Items (map decoded vs))"
| "decoded v = Str []"

lemma RLPEncodeUint64_string:
  "RLPEncodeUint64 n = RLPEncodeString (if n = 0 then [] else encodeBigEndian n)"
proof (cases "n = 0 \<or> 127 < n")
  case False
  then have small: "n \<le> 127" "n \<noteq> 0" by auto
  then have u: "unat n \<le> 127" by (simp add: word_le_nat_alt)
  have zero: "drop_bit (8 * k) n = 0" if "0 < k" for k
  proof -
    have "unat n < 2 ^ (8 * k)"
      using u that power_increasing [of 8 "8 * k" "2::nat"] by simp
    then show ?thesis by (simp add: word_unat_eq_iff unat_drop_bit_eq) (simp add: drop_bit_eq_div)
  qed
  then have "be_bytes 8 n = [0, 0, 0, 0, 0, 0, 0, ucast n]"
    using zero [of 7] zero [of 6] zero [of 5] zero [of 4] zero [of 3] zero [of 2] zero [of 1]
    by (simp add: be_bytes_def upt_rec)
  then have e: "encodeBigEndian n = [ucast n]" by (simp add: encodeBigEndian_def)
  have "(ucast n :: byte) \<le> 0x7f" using u by (simp add: word_le_nat_alt unsigned_ucast_eq take_bit_nat_eq_self)
  with small e show ?thesis by (simp add: RLPEncodeUint64_def RLPEncodeString_def)
qed (auto simp: RLPEncodeUint64_def RLPEncodeString_def)

text \<open>The forms of an encoding, by its prefix byte.\<close>

lemma RLPEncodeString_forms:
  obtains (byte) x where "b = [x]" "unat x \<le> 127" "RLPEncodeString b = [x]"
  | (empty) "b = []" "RLPEncodeString b = [0x80]"
  | (short) k where "unat k = 128 + length b" "0 < length b" "length b \<le> 55"
      "\<not> (length b = 1 \<and> b ! 0 \<le> 0x7f)" "RLPEncodeString b = k # b"
  | (long) k lb where "unat k = 183 + length lb" "0 < length lb" "length lb \<le> 8" "55 < length b"
      "RLPEncodeString b = k # lb @ b" "length b < 2 ^ 63 \<Longrightarrow> decodeBigEndian lb = Ok (int (length b))"
      "length b < 2 ^ 63 \<Longrightarrow> announces lb (length b)"
proof -
  let ?lb = "encodeBigEndian (of_nat (length b))"
  consider (byte) x where "b = [x]" "x \<le> 0x7f" | (empty) "b = []"
    | (short) "0 < length b" "length b \<le> 55" "\<not> (length b = 1 \<and> b ! 0 \<le> 0x7f)" | (long) "55 < length b"
    by (metis One_nat_def length_0_conv length_Suc_conv length_greater_0_conv not_le nth_Cons_0)
  then show thesis
  proof cases
    case byte
    then show ?thesis by (intro that(1)) (auto simp: RLPEncodeString_def word_le_nat_alt)
  next
    case empty
    then show ?thesis by (intro that(2)) (simp_all add: RLPEncodeString_def)
  next
    case short
    then show ?thesis
      using prefix_value [of "0x80" "length b"] by (intro that(3) [of "0x80 + of_nat (length b)"]) (simp_all add: RLPEncodeString_def Let_def)
  next
    case long
    then show ?thesis
      using prefix_value [of "0xb7" "length ?lb"] length_encodeBigEndian [of "of_nat (length b)"] announces_length [of "length b"]
      by (intro that(4) [of "0xb7 + of_nat (length ?lb)" ?lb])
        (simp_all add: RLPEncodeString_def Let_def decode_encodeBigEndian sint_length Suc_le_eq)
  qed
qed

lemma RLPEncodeList_forms:
  obtains (short) k where "unat k = 192 + length (concat es)" "length (concat es) \<le> 55" "RLPEncodeList es = k # concat es"
  | (long) k lb where "unat k = 247 + length lb" "0 < length lb" "length lb \<le> 8" "55 < length (concat es)"
      "RLPEncodeList es = k # lb @ concat es"
      "length (concat es) < 2 ^ 63 \<Longrightarrow> decodeBigEndian lb = Ok (int (length (concat es)))"
      "length (concat es) < 2 ^ 63 \<Longrightarrow> announces lb (length (concat es))"
proof -
  let ?n = "length (concat es)" and ?lb = "encodeBigEndian (of_nat (length (concat es)))"
  show thesis
  proof (cases "?n \<le> 55")
    case True
    then show ?thesis
      using prefix_value [of "0xc0" ?n]
      by (intro that(1) [of "0xc0 + of_nat ?n"]) (simp_all add: RLPEncodeList_def Let_def del: length_concat)
  next
    case False
    then show ?thesis
      using prefix_value [of "0xf7" "length ?lb"] length_encodeBigEndian [of "of_nat ?n"] announces_length [of ?n]
      by (intro that(2) [of "0xf7 + of_nat (length ?lb)" ?lb])
        (simp_all add: RLPEncodeList_def Let_def decode_encodeBigEndian sint_length Suc_le_eq del: length_concat)
  qed
qed

section \<open>The grammar\<close>

text \<open>
  RLP as a grammar, without offsets and without slices: \<open>rlp_item e v\<close> says that the bytes \<open>e\<close> are one item
  and stand for \<open>v\<close>, \<open>rlp_items p vs\<close> that \<open>p\<close> is a sequence of items. The long forms need not be minimal:
  they may announce less than 56 bytes, and their length bytes may begin with zeros.
\<close>

inductive rlp_item :: "bytes \<Rightarrow> go_value \<Rightarrow> bool" and rlp_items :: "bytes \<Rightarrow> go_value list \<Rightarrow> bool" where
  byte: "x \<le> 0x7f \<Longrightarrow> rlp_item [x] (Byte x)"
| empty_string: "rlp_item [0x80] (Str [])"
| short_string: "0 < length d \<Longrightarrow> length d \<le> 55 \<Longrightarrow> rlp_item (of_nat (128 + length d) # d) (Bytes d)"
| long_string: "announces lb (length d) \<Longrightarrow> rlp_item (of_nat (183 + length lb) # lb @ d) (Bytes d)"
| empty_list: "rlp_item [0xc0] (Bytes [])"
| short_list: "rlp_items p vs \<Longrightarrow> 0 < length p \<Longrightarrow> length p \<le> 55 \<Longrightarrow> rlp_item (of_nat (192 + length p) # p) (Items vs)"
| long_list: "rlp_items p vs \<Longrightarrow> announces lb (length p) \<Longrightarrow> rlp_item (of_nat (247 + length lb) # lb @ p) (Items vs)"
| no_items: "rlp_items [] []"
| one_more: "rlp_item e v \<Longrightarrow> rlp_items p vs \<Longrightarrow> rlp_items (e @ p) (v # vs)"

lemma as_list_Ok [simp]: "as_list n (Some (Inr (Inr items))) = Some (Ok (Inr (Items items, n)))"
  by (simp add: as_list_def)

lemma prefix_byte: "n < 256 \<Longrightarrow> unat (of_nat n :: byte) = n"
  by (simp add: unat_of_nat)

lemma rlp_item_nonempty: "rlp_item e v \<Longrightarrow> e \<noteq> []"
  by (cases rule: rlp_item.cases) auto

lemma rlp_items_nonempty: "rlp_items p vs \<Longrightarrow> vs \<noteq> [] \<Longrightarrow> p \<noteq> []"
  by (cases rule: rlp_items.cases) (auto dest: rlp_item_nonempty)

text \<open>The length bytes at an offset, and the end of the data behind them when it is in range.\<close>

lemma long_header:
  assumes lb: "announces lb n" and bound: "length pre + 1 + length lb + n < 2 ^ 63"
  shows "go_slice ((pre @ k # lb @ rest) @ spare) (int (length pre) + 1) (int (length pre) + 1 + int (length lb)) = Ok lb"
    and "decodeBigEndian lb = Ok (int n)"
    and "wrap64 (int (length pre) + 1 + int (length lb) + int n) = int (length pre) + 1 + int (length lb) + int n"
    and "wrap64 (1 + int (length lb) + int n) = 1 + int (length lb) + int n"
proof -
  show "go_slice ((pre @ k # lb @ rest) @ spare) (int (length pre) + 1) (int (length pre) + 1 + int (length lb)) = Ok lb"
    by (rule go_slice_mid [where as = "pre @ [k]" and bs = "rest @ spare"]) simp_all
  show "decodeBigEndian lb = Ok (int n)" using decode_announced [OF lb] bound by simp
qed (use bound in \<open>intro wrap64_id; simp\<close>)+

lemma decodes_short_string:
  assumes d: "0 < length d" "length d \<le> 55"
  shows "rlpDecodeItem (Suc fuel) (pre @ of_nat (128 + length d) # d @ post) spare (int (length pre)) =
    Some (Ok (Inr (Bytes d, 1 + int (length d))))"
proof -
  let ?k = "of_nat (128 + length d) :: byte"
  have "go_slice ((pre @ ?k # d @ post) @ spare) (int (length pre) + 1) (int (length pre) + 1 + int (length d)) = Ok d"
    by (rule go_slice_mid [where as = "pre @ [?k]" and bs = "post @ spare"]) simp_all
  then show ?thesis
    using item_short_string [OF go_index_prefix [of pre _ "d @ post"] prefix_byte d, where fuel = fuel and spare = spare] d
    by (simp add: add.commute)
qed

lemma decodes_long_string:
  assumes lb: "announces lb (length d)" and bound: "length pre + 1 + length lb + length d < 2 ^ 63"
  shows "rlpDecodeItem (Suc fuel) (pre @ of_nat (183 + length lb) # lb @ d @ post) spare (int (length pre)) =
    Some (Ok (Inr (Bytes d, 1 + int (length lb) + int (length d))))"
proof -
  let ?k = "of_nat (183 + length lb) :: byte"
  note h = long_header(1) [OF lb bound, where k = ?k and rest = "d @ post" and spare = spare] long_header(2-4) [OF lb bound]
  have l: "0 < length lb" "length lb \<le> 8" using lb by (auto simp: announces_def)
  have "go_slice ((pre @ ?k # lb @ d @ post) @ spare) (int (length pre) + 1 + int (length lb))
      (int (length pre) + 1 + int (length lb) + int (length d)) = Ok d"
    by (rule go_slice_mid [where as = "pre @ ?k # lb" and bs = "post @ spare"]) simp_all
  then show ?thesis
    using item_long_string [OF go_index_prefix [of pre _ "lb @ d @ post"] prefix_byte l, where fuel = fuel and spare = spare] l
    by (simp only: h go_bind.simps)
qed

text \<open>A list, given that its payload decodes at any place.\<close>

lemma decodes_short_list:
  assumes p: "0 < length p" "length p \<le> 55"
    and items: "rlpDecode_items fuel ((pre @ [of_nat (192 + length p)]) @ p @ post) spare (int (length pre) + 1)
      (int (length pre) + 1 + int (length p)) [] = Some (Ok (Inr vs))"
  shows "rlpDecodeItem (Suc fuel) (pre @ of_nat (192 + length p) # p @ post) spare (int (length pre)) =
    Some (Ok (Inr (Items vs, 1 + int (length p))))"
  using item_short_list [OF go_index_prefix [of pre _ "p @ post"] prefix_byte p, where fuel = fuel and spare = spare] p items
  by simp

lemma decodes_long_list:
  assumes lb: "announces lb (length p)" and bound: "length pre + 1 + length lb + length p < 2 ^ 63"
    and items: "rlpDecode_items fuel ((pre @ of_nat (247 + length lb) # lb) @ p @ post) spare (int (length pre) + 1 + int (length lb))
      (int (length pre) + 1 + int (length lb) + int (length p)) [] = Some (Ok (Inr vs))"
  shows "rlpDecodeItem (Suc fuel) (pre @ of_nat (247 + length lb) # lb @ p @ post) spare (int (length pre)) =
    Some (Ok (Inr (Items vs, 1 + int (length lb) + int (length p))))"
proof -
  let ?k = "of_nat (247 + length lb) :: byte"
  note h = long_header(1) [OF lb bound, where k = ?k and rest = "p @ post" and spare = spare] long_header(2-4) [OF lb bound]
  have l: "0 < length lb" "length lb \<le> 8" using lb by (auto simp: announces_def)
  have "go_bind (go_slice ((pre @ ?k # lb @ p @ post) @ spare) (int (length pre) + 1) (int (length pre) + 1 + int (length lb)))
      decodeBigEndian = Ok (int (length p))"
    by (simp only: h go_bind.simps)
  then show ?thesis
    using item_long_list [OF go_index_prefix [of pre _ "lb @ p @ post"] prefix_byte l, where fuel = fuel and spare = spare and payloadLen = "int (length p)"] l items
    by (simp only: h) simp
qed

text \<open>The items of a list, one after the other.\<close>

lemma rlpDecode_items_step:
  assumes e: "rlpDecodeItem fuel (pre @ e @ rest) spare (int (length pre)) = Some (Ok (Inr (item, int (length e))))"
    and "e \<noteq> []" and bound: "length pre + length e + n < 2 ^ 63"
  shows "rlpDecode_items (Suc fuel) (pre @ e @ rest) spare (int (length pre)) (int (length pre) + int (length e + n)) items =
    rlpDecode_items fuel ((pre @ e) @ rest) spare (int (length (pre @ e))) (int (length (pre @ e)) + int n) (items @ [item])"
proof -
  have "1 \<le> length e" using assms(2) by (simp add: Suc_le_eq)
  moreover have "wrap64 (int (length pre) + int (length e)) = int (length pre) + int (length e)"
    using bound by (intro wrap64_id) simp_all
  ultimately show ?thesis using e by (simp add: ac_simps)
qed

lemma item_decodes:
  "rlp_item e v \<Longrightarrow> length pre + length e < 2 ^ 63 \<Longrightarrow> 2 * length e \<le> fuel \<Longrightarrow>
   rlpDecodeItem fuel (pre @ e @ post) spare (int (length pre)) = Some (Ok (Inr (v, int (length e))))"
  "rlp_items p vs \<Longrightarrow> length pre + length p < 2 ^ 63 \<Longrightarrow> 2 * length p < fuel \<Longrightarrow>
   rlpDecode_items fuel (pre @ p @ post) spare (int (length pre)) (int (length pre) + int (length p)) items =
     Some (Ok (Inr (items @ vs)))"
proof (induction arbitrary: pre post fuel and pre post fuel items rule: rlp_item_rlp_items.inducts)
  case (byte x)
  then show ?case using item_byte [OF go_index_prefix [of pre x post]] by (cases fuel) (simp_all add: word_le_nat_alt)
next
  case empty_string
  then show ?case using item_empty_string [OF go_index_prefix [of pre "0x80" post]] by (cases fuel) simp_all
next
  case (short_string d)
  then show ?case using decodes_short_string [of d "fuel - 1" pre post] by (cases fuel) simp_all
next
  case (long_string lb d)
  then show ?case using decodes_long_string [of lb d pre "fuel - 1" post] by (cases fuel) simp_all
next
  case empty_list
  then show ?case using item_empty_list [OF go_index_prefix [of pre "0xc0" post]] by (cases fuel) simp_all
next
  case (short_list p vs)
  from short_list.prems obtain f where f: "fuel = Suc f" by (cases fuel) auto
  let ?pre = "pre @ [of_nat (192 + length p)]"
  have "rlpDecode_items f (?pre @ p @ post) spare (int (length ?pre)) (int (length ?pre) + int (length p)) [] =
      Some (Ok (Inr ([] @ vs)))"
    using short_list.prems f by (intro short_list.IH) simp_all
  then show ?case using decodes_short_list [of p f pre post] short_list.hyps f by (simp add: ac_simps)
next
  case (long_list p vs lb)
  from long_list.prems obtain f where f: "fuel = Suc f" by (cases fuel) auto
  let ?pre = "pre @ of_nat (247 + length lb) # lb"
  have "rlpDecode_items f (?pre @ p @ post) spare (int (length ?pre)) (int (length ?pre) + int (length p)) [] =
      Some (Ok (Inr ([] @ vs)))"
    using long_list.prems f by (intro long_list.IH) simp_all
  then show ?case
    using decodes_long_list [of lb p pre f post] long_list.hyps long_list.prems f by (simp add: ac_simps)
next
  case no_items
  then show ?case by (cases fuel) simp_all
next
  case (one_more e v p vs)
  note e = rlp_item_nonempty [OF one_more.hyps(1)]
  then have len: "1 \<le> length e" by (simp add: Suc_le_eq)
  from one_more.prems obtain f where f: "fuel = Suc f" by (cases fuel) auto
  have "rlpDecodeItem f (pre @ e @ p @ post) spare (int (length pre)) = Some (Ok (Inr (v, int (length e))))"
    using one_more.prems f len by (intro one_more.IH(1)) simp_all
  from rlpDecode_items_step [OF this e, of "length p" items] one_more.prems
  have "rlpDecode_items fuel (pre @ (e @ p) @ post) spare (int (length pre)) (int (length pre) + int (length (e @ p))) items =
      rlpDecode_items f ((pre @ e) @ p @ post) spare (int (length (pre @ e))) (int (length (pre @ e)) + int (length p)) (items @ [v])"
    by (simp add: f)
  also have "\<dots> = Some (Ok (Inr ((items @ [v]) @ vs)))"
    using one_more.prems f len by (intro one_more.IH(2)) simp_all
  finally show ?case by simp
qed

section \<open>Encodings are in the grammar\<close>

lemma prefix_of_unat: "unat (k :: byte) = n \<Longrightarrow> k = of_nat n"
  by (metis of_nat_unat ucast_id)

lemma RLPEncodeString_item:
  assumes "length (RLPEncodeString b) < 2 ^ 63"
  shows "rlp_item (RLPEncodeString b) (decoded_string b)"
proof (cases b rule: RLPEncodeString_forms)
  case (byte x)
  then show ?thesis using rlp_item_rlp_items.byte [of x] by (simp add: decoded_string_def word_le_nat_alt)
next
  case empty
  then show ?thesis using rlp_item_rlp_items.empty_string by (simp add: decoded_string_def)
next
  case (short k)
  then show ?thesis using short_string [of b] prefix_of_unat [OF short(1)] by (auto simp: decoded_string_def)
next
  case (long k lb)
  have "b \<noteq> []" "length b \<noteq> 1" "length b < 2 ^ 63" using long(4,5) assms by auto
  then show ?thesis
    using long_string [OF long(7)] prefix_of_unat [OF long(1)] long(5) by (simp add: decoded_string_def)
qed

lemma RLPEncodeList_item:
  assumes "rlp_items (concat es) vs" and "concat es \<noteq> []" and bound: "length (RLPEncodeList es) < 2 ^ 63"
  shows "rlp_item (RLPEncodeList es) (Items vs)"
proof (cases es rule: RLPEncodeList_forms)
  case (short k)
  then show ?thesis
    using short_list [OF assms(1)] assms(2) prefix_of_unat [OF short(1)] by (simp del: length_concat)
next
  case (long k lb)
  have "length (concat es) < 2 ^ 63" using bound long(5) by (simp del: length_concat)
  then show ?thesis
    using long_list [OF assms(1) long(7)] prefix_of_unat [OF long(1)] long(5) by (simp del: length_concat)
qed

lemma RLPEncode_item:
  "RLPEncode v = Inr e \<Longrightarrow> length e < 2 ^ 63 \<Longrightarrow> rlp_item e (decoded v)"
  "RLPEncode_items vs = Inr es \<Longrightarrow> length (concat es) < 2 ^ 63 \<Longrightarrow> rlp_items (concat es) (map decoded vs)"
proof (induction v and vs arbitrary: e and es rule: RLPEncode_RLPEncode_items.induct)
  case (3 n)
  then show ?case
    using RLPEncodeString_item [of "if n = 0 then [] else encodeBigEndian n"] by (auto simp: RLPEncodeUint64_string)
next
  case (4 vs)
  from 4(2) obtain es where es: "RLPEncode_items vs = Inr es" "e = RLPEncodeList es"
    by (auto split: sum.splits)
  have "length (concat es) < length (RLPEncodeList es)" by (simp add: RLPEncodeList_def Let_def del: length_concat)
  with 4 es have items: "rlp_items (concat es) (map decoded vs)" by simp
  show ?case
  proof (cases "vs = []")
    case True
    then have "e = [0xc0]" using es by (simp add: RLPEncodeList_def)
    then show ?thesis using True rlp_item_rlp_items.empty_list by simp
  next
    case False
    then have "concat es \<noteq> []" using rlp_items_nonempty [OF items] by simp
    from RLPEncodeList_item [OF items this] show ?thesis using False es 4(3) by simp
  qed
next
  case (9 v vs)
  from 9(3) obtain e es' where es: "RLPEncode v = Inr e" "RLPEncode_items vs = Inr es'" "es = e # es'"
    by (auto split: sum.splits)
  then show ?case using 9(1) [OF es(1)] 9(2) [OF es(1,2)] 9(4) by (auto intro!: one_more simp del: length_concat)
qed (auto intro: RLPEncodeString_item rlp_item_rlp_items.intros)

text \<open>
  C9: whatever \<open>RLPEncode\<close> produces, \<open>RLPDecode\<close> reads back as the value it stands for: byte slices,
  strings and numbers as strings of bytes, lists item by item, at any depth of nesting, also with bytes
  behind the slice. It returns within a number of calls twice the length of the encoding.
\<close>

theorem rlp_roundtrip:
  assumes "RLPEncode v = Inr e" and "length e < 2 ^ 63" and "2 * length e \<le> fuel"
  shows "RLPDecode fuel e spare = Some (Ok (Inr (decoded v)))"
  using item_decodes(1) [OF RLPEncode_item(1) [OF assms(1,2)], of "[]" fuel "[]" spare] assms(2,3)
  by (simp add: RLPDecode_def)

theorem rlp_roundtrip_witness:
  "RLPEncode (Items [Bytes [1, 2], Items [U64 0, Str [200]]]) = Inr [0xc7, 0x82, 1, 2, 0xc3, 0x80, 0x81, 200] \<and>
   RLPDecode 16 [0xc7, 0x82, 1, 2, 0xc3, 0x80, 0x81, 200] [] =
     Some (Ok (Inr (Items [Bytes [1, 2], Items [Str [], Bytes [200]]])))"
proof -
  have e: "RLPEncode (Items [Bytes [1, 2], Items [U64 0, Str [200]]]) = Inr [0xc7, 0x82, 1, 2, 0xc3, 0x80, 0x81, 200]"
    by code_simp
  show ?thesis using e rlp_roundtrip [OF e, of 16 "[]"] by (simp add: decoded_string_def)
qed

end
