(* ===== verification/RlpInput.thy ===== *)
theory RlpInput
  imports RlpCodec
begin

text \<open>
  What the decoder of \<open>algorithms/serialization.go\<close> does with input that the encoder did not write: every item
  of the grammar of RlpCodec is read, minimal or not; a string that is read without a list around it is an item
  of the grammar; a string whose data is cut short panics or takes bytes from behind the slice; a negative
  length of a list can keep the decoder busy for ever.
\<close>

section \<open>Strings\<close>

text \<open>The prefix of a string and the number of bytes that it announces.\<close>

definition string_header :: "bytes \<Rightarrow> nat \<Rightarrow> bool" where
  "string_header h n \<longleftrightarrow> 0 < n \<and> n \<le> 55 \<and> h = [of_nat (128 + n)] \<or> (\<exists>lb. announces lb n \<and> h = of_nat (183 + length lb) # lb)"

lemma header_item:
  assumes "string_header h n" and "n \<le> length rest"
  shows "rlp_item (h @ take n rest) (Bytes (take n rest))"
  using assms short_string [of "take n rest"] long_string [of _ "take n rest"] by (auto simp: string_header_def)

lemma wrap64_above:
  assumes "2 ^ 63 \<le> x" and "x < 2 ^ 63 + 2 ^ 64"
  shows "wrap64 x = x - 2 ^ 64"
proof -
  have "(of_int (x - 2 ^ 64) :: 64 word) = of_int x" by simp
  then have "wrap64 (x - 2 ^ 64) = wrap64 x" by (simp only: wrap64_def)
  then show ?thesis using wrap64_id [of "x - 2 ^ 64"] assms by simp
qed

text \<open>The data behind a header, with the lengths that do not fit an \<open>int\<close>.\<close>

lemma announced_slice:
  assumes zs: "zs = as @ rest" "length zs < 2 ^ 63" and n: "n < 2 ^ 64"
  shows "go_slice zs (int (length as)) (wrap64 (int (length as) + int n)) =
    (if n \<le> length rest then Ok (take n rest) else Panic SliceOutOfRange)"
proof (cases "length as + n < 2 ^ 63")
  case True
  then have "wrap64 (int (length as) + int n) = int (length as) + int n" by (intro wrap64_id) simp_all
  then show ?thesis using zs(1) by (simp add: go_slice_def)
next
  case False
  then have "wrap64 (int (length as) + int n) = int (length as) + int n - 2 ^ 64"
    using zs n by (intro wrap64_above) simp_all
  moreover have "\<not> n \<le> length rest" using zs False by simp
  ultimately show ?thesis using n by (simp add: go_slice_def)
qed

text \<open>A string at any offset; its header and data may reach into the spare capacity.\<close>

lemma string_item:
  assumes h: "string_header h n" and zs: "data @ spare = pre @ h @ rest" "length pre < length data" "length (data @ spare) < 2 ^ 63"
  shows "rlpDecodeItem (Suc fuel) data spare (int (length pre)) =
    Some (if n \<le> length rest then Ok (Inr (Bytes (take n rest), int (length h + n))) else Panic SliceOutOfRange)"
proof -
  have "data ! length pre = (pre @ h @ rest) ! length pre" using zs(1,2) by (metis nth_append)
  moreover have "h \<noteq> []" using h by (auto simp: string_header_def)
  ultimately have idx: "go_index data (int (length pre)) = Ok (hd h)"
    using go_index_Ok [OF zs(2)] by (cases h) simp_all
  from h consider (short) "0 < n" "n \<le> 55" "h = [of_nat (128 + n)]"
    | (long) lb where "announces lb n" "h = of_nat (183 + length lb) # lb"
    unfolding string_header_def by blast
  then show ?thesis
  proof cases
    case short
    have "go_slice (data @ spare) (int (length pre) + 1) (int (length pre) + 1 + int n) =
        (if n \<le> length rest then Ok (take n rest) else Panic SliceOutOfRange)"
      unfolding zs(1) short(3) by (simp add: go_slice_def nat_add_distrib)
    moreover have "unat (hd h) = 128 + n" unfolding short(3) list.sel using short(2) by (intro prefix_byte) simp
    ultimately show ?thesis
      using item_short_string [OF idx _ short(1,2), of fuel spare] short(3) by simp
  next
    case (long lb)
    then have lb: "0 < length lb" "length lb \<le> 8" by (auto simp: announces_def)
    have s1: "go_slice (data @ spare) (int (length pre) + 1) (int (length pre) + 1 + int (length lb)) = Ok lb"
      unfolding zs(1) long(2) by (rule go_slice_mid [where as = "pre @ [of_nat (183 + length lb)]" and bs = rest]) simp_all
    have s2: "go_slice (data @ spare) (int (length pre) + 1 + int (length lb)) (wrap64 (int (length pre) + 1 + int (length lb) + wrap64 (int n))) =
        (if n \<le> length rest then Ok (take n rest) else Panic SliceOutOfRange)"
    proof -
      have at: "int (length pre) + 1 + int (length lb) = int (length (pre @ h))" by (simp add: long(2))
      show ?thesis
        unfolding at wrap64_add by (rule announced_slice [OF _ zs(3) announces_less [OF long(1)]]) (simp add: zs(1))
    qed
    have w: "wrap64 (1 + int (length lb) + wrap64 (int n)) = 1 + int (length lb) + int n" if "n \<le> length rest"
      unfolding wrap64_add using that arg_cong [OF zs(1), of length] zs(3) long(2) by (intro wrap64_id) simp_all
    have key: "unat (hd h) = 183 + length lb" unfolding long(2) list.sel using lb by (intro prefix_byte) simp
    show ?thesis
      using item_long_string [OF idx key lb, of fuel spare] w long(2)
      by (simp add: s1 s2 decode_announced [OF long(1)])
  qed
qed

section \<open>Reading the grammar\<close>

lemma as_list_items: "as_list c r = Some (Ok (Inr (v, c'))) \<Longrightarrow> \<exists>vs. v = Items vs"
  by (auto simp: as_list_def go_bind_Ok_iff split: sum.splits) (metis sum.exhaust)

lemma prefix_cases:
  fixes key :: byte
  obtains (byte) "unat key \<le> 127" | (empty_string) "unat key = 128" | (empty_list) "unat key = 192"
  | (short_string) n where "unat key = 128 + n" "0 < n" "n \<le> 55"
  | (long_string) n where "unat key = 183 + n" "0 < n" "n \<le> 8"
  | (list) "192 < unat key"
proof -
  consider "unat key \<le> 127" | "unat key = 128" | "128 < unat key \<and> unat key \<le> 183" | "183 < unat key \<and> unat key \<le> 191"
    | "unat key = 192" | "192 < unat key" by linarith
  then show thesis
    using byte empty_string empty_list list short_string [of "unat key - 128"] long_string [of "unat key - 183"] by cases auto
qed

lemma string_sound:
  assumes dec: "rlpDecodeItem (Suc fuel) data spare 0 = Some (Ok (Inr (v, c)))" and v: "\<forall>vs. v \<noteq> Items vs"
    and bound: "length (data @ spare) < 2 ^ 63"
  shows "\<exists>e post. data @ spare = e @ post \<and> rlp_item e v"
proof -
  from dec obtain key zs where data: "data = key # zs" by (cases data) (simp_all add: rlpDecodeItem.simps(2))
  then have idx: "go_index data 0 = Ok key" by (simp add: go_index_def)
  define w where "w = zs @ spare"
  have dw: "data @ spare = [] @ [key] @ w" by (simp add: data w_def)
  have "\<exists>e post. key # w = e @ post \<and> rlp_item e v"
  proof (cases key rule: prefix_cases)
    case byte
    then have "v = Byte key" "key \<le> 0x7f" using dec item_byte [OF idx byte] by (simp_all add: word_le_nat_alt)
    then show ?thesis using rlp_item_rlp_items.byte by (intro exI [of _ "[key]"] exI [of _ w]) simp
  next
    case empty_string
    then have "v = Str []" "key = 0x80" using dec item_empty_string [OF idx] prefix_tests(1) by auto
    then show ?thesis using rlp_item_rlp_items.empty_string by (intro exI [of _ "[key]"] exI [of _ w]) simp
  next
    case empty_list
    then have "v = Bytes []" "key = 0xc0" using dec item_empty_list [OF idx] prefix_tests(2) by auto
    then show ?thesis using rlp_item_rlp_items.empty_list by (intro exI [of _ "[key]"] exI [of _ w]) simp
  next
    case (short_string n)
    then have h: "string_header [key] n" using prefix_of_unat [OF short_string(1)] unfolding string_header_def by blast
    from dec string_item [OF h, of data spare "[]" w fuel] data dw bound
    have "n \<le> length (w)" "v = Bytes (take n (w))" by (auto split: if_splits)
    with header_item [OF h, of "w"] show ?thesis
      by (intro exI [of _ "[key] @ take n (w)"] exI [of _ "drop n (w)"]) simp
  next
    case (long_string n)
    have "n \<le> length (w)"
      using dec item_long_string [OF idx long_string, of fuel spare] dw by (auto simp: go_slice_def split: if_splits)
    then obtain lb rest where lb: "w = lb @ rest" "length lb = n" by (metis append_take_drop_id length_take min.absorb2)
    have h: "string_header (key # lb) (big_endian lb)"
      using long_string lb(2) prefix_of_unat [OF long_string(1)] by (auto simp: string_header_def announces_def)
    from dec string_item [OF h, of data spare "[]" rest fuel] data dw bound lb(1)
    have "big_endian lb \<le> length rest" "v = Bytes (take (big_endian lb) rest)" by (auto split: if_splits)
    with header_item [OF h, of rest] lb(1) show ?thesis
      by (intro exI [of _ "(key # lb) @ take (big_endian lb) rest"] exI [of _ "drop (big_endian lb) rest"]) simp
  next
    case list
    then have "\<not> key \<le> 0xbf" "key \<noteq> 0x80" "key \<noteq> 0xc0" "\<not> key \<le> 0x7f" "\<not> key \<le> 0xb7"
      using prefix_tests [OF refl, of key] by simp_all
    then have "\<exists>vs. v = Items vs"
      using dec idx data by (auto simp: rlpDecodeItem.simps(2) Let_def dest: as_list_items split: if_splits sum.splits)
    then show ?thesis using v by blast
  qed
  then show ?thesis by (simp add: dw)
qed

text \<open>
  C34: the decoder reads every item of the RLP grammar, at any depth and also when its long forms are not
  minimal, as the value it stands for, whatever bytes follow, within twice its length in calls. Conversely a
  value that is not a list, read from any input, stands for an item of the grammar at the start of the input
  and the spare capacity behind it.
\<close>

theorem rlp_reads_grammar:
  assumes "rlp_item e v" and "length e < 2 ^ 63" and "2 * length e \<le> fuel"
  shows "RLPDecode fuel (e @ post) spare = Some (Ok (Inr v)) \<and>
    (RLPDecode fuel' data spare' = Some (Ok (Inr w)) \<and> (\<forall>vs. w \<noteq> Items vs) \<and> length (data @ spare') < 2 ^ 63 \<longrightarrow>
     (\<exists>e' post'. data @ spare' = e' @ post' \<and> rlp_item e' w))"
proof (intro conjI impI)
  show "RLPDecode fuel (e @ post) spare = Some (Ok (Inr v))"
    using item_decodes(1) [OF assms(1), of "[]" fuel post spare] assms(2,3) by (simp add: RLPDecode_def)
  assume w: "RLPDecode fuel' data spare' = Some (Ok (Inr w)) \<and> (\<forall>vs. w \<noteq> Items vs) \<and> length (data @ spare') < 2 ^ 63"
  then obtain x where x: "rlpDecodeItem fuel' data spare' 0 = Some (Ok x)" "map_sum id fst x = Inr w"
    by (auto simp: RLPDecode_def go_bind_Ok_iff)
  moreover from this obtain f where "fuel' = Suc f" by (cases fuel') simp_all
  moreover from x(2) obtain c where "x = Inr (w, c)" by (cases x) auto
  ultimately show "\<exists>e' post'. data @ spare' = e' @ post' \<and> rlp_item e' w" using string_sound w by blast
qed

text \<open>A list of a string in the long form, of one byte that needs no prefix at all.\<close>

theorem rlp_reads_grammar_witness:
  "RLPDecode 8 [0xc3, 0xb8, 1, 0x61, 9] [] = Some (Ok (Inr (Items [Bytes [0x61]]))) \<and>
   (\<exists>e post. [0x82, 1, 2, 3] @ [] = e @ post \<and> rlp_item e (Bytes [1, 2]))"
proof -
  have "rlp_item [0xb8, 1, 0x61] (Bytes [0x61])" using long_string [of "[1]" "[0x61]"] by (simp add: announces_def big_endian_def)
  from one_more [OF this no_items] have "rlp_item [0xc3, 0xb8, 1, 0x61] (Items [Bytes [0x61]])"
    using short_list [of "[0xb8, 1, 0x61]"] by simp
  moreover have "RLPDecode 1 [0x82, 1, 2, 3] [] = Some (Ok (Inr (Bytes [1, 2])))" by code_simp
  ultimately show ?thesis using rlp_reads_grammar [of "[0xc3, 0xb8, 1, 0x61]" _ 8 "[9]" "[]" 1 "[0x82, 1, 2, 3]" "[]"] by simp
qed

text \<open>
  The decoder is no inverse on two forms: the empty list comes back as an empty byte slice, which
  encodes as the empty string, and a single byte below 0x80 comes back as a byte, which cannot be
  encoded.
\<close>

theorem rlp_decoded_forms:
  "RLPDecode (Suc fuel) (0xc0 # rest) spare = Some (Ok (Inr (Bytes []))) \<and> RLPEncode (Bytes []) = Inr [0x80] \<and>
   RLPEncode (Items []) = Inr [0xc0] \<and>
   RLPDecode (Suc fuel) (take_bit 7 b # rest) spare = Some (Ok (Inr (Byte (take_bit 7 b)))) \<and>
   RLPEncode (Byte (take_bit 7 b)) = Inl UnsupportedType"
proof -
  have "unat (take_bit 7 b) < 2 ^ 7" unfolding unsigned_take_bit_eq by (rule take_bit_nat_less_exp)
  then have b: "unat (take_bit 7 b) \<le> 127" by simp
  show ?thesis
    using item_empty_list [of "0xc0 # rest" 0 "0xc0"] item_byte [of "take_bit 7 b # rest" 0 "take_bit 7 b", OF _ b]
    by (simp add: RLPDecode_def RLPEncodeString_def RLPEncodeList_def go_index_def)
qed

section \<open>Malformed input\<close>

text \<open>A list whose item is a long list with the length -9, so that the position stays where it is.\<close>

definition backwards :: bytes where
  "backwards = [0xc9, 0xff, 0xff, 0xff, 0xff, 0xff, 0xff, 0xff, 0xff, 0xf7]"

lemma backwards_item:
  "rlpDecodeItem (Suc fuel) backwards [] 1 = (if fuel = 0 then None else Some (Ok (Inr (Items [], 0))))"
proof -
  have idx: "go_index backwards 1 = Ok 0xff" by (simp add: go_index_def backwards_def)
  have "be_value [0xff, 0xff, 0xff, 0xff, 0xff, 0xff, 0xff, 0xf7] = - 9" by code_simp
  then have len: "go_bind (go_slice (backwards @ []) (1 + 1) (1 + 1 + int 8)) decodeBigEndian = Ok (- 9)"
    by (simp add: go_slice_def backwards_def decodeBigEndian_def)
  have "rlpDecodeItem (Suc fuel) backwards [] 1 =
      as_list (wrap64 (1 + int 8 + - 9))
        (rlpDecode_items fuel backwards [] (1 + 1 + int 8) (wrap64 (1 + 1 + int 8 + - 9)) [])"
    by (rule item_long_list [OF idx _ _ _ len]) simp_all
  then show ?thesis by (cases fuel) (simp_all add: as_list_def)
qed

lemma backwards_items: "rlpDecode_items fuel backwards [] 1 10 items = None"
proof (induction fuel arbitrary: items)
  case (Suc fuel)
  show ?case
    unfolding rlpDecode_items.simps(2)
    using Suc by (cases fuel) (simp_all add: backwards_item del: rlpDecode_items.simps(2))
qed simp

lemma rlp_decode_diverges: "RLPDecode fuel backwards [] = None"
proof (cases fuel)
  case (Suc f)
  have idx: "go_index backwards 0 = Ok 0xc9" by (simp add: go_index_def backwards_def)
  have "rlpDecodeItem (Suc f) backwards [] 0 =
      as_list (1 + int 9) (rlpDecode_items f backwards [] (0 + 1) (0 + 1 + int 9) [])"
    by (rule item_short_list [OF idx]) simp_all
  then show ?thesis by (simp add: RLPDecode_def Suc backwards_items as_list_def)
qed (simp add: RLPDecode_def)

text \<open>
  C36: what the decoder does with a string, in the short or the long form, at any offset, when \<open>rest\<close> follows its
  prefix and length bytes in the slice. When \<open>rest\<close> holds the announced bytes, they are the value. When it does not, there is no
  error value: the decoder takes the missing bytes from the spare capacity behind the slice, or, when that
  is too small as well, panics. And there is an input of ten bytes, with the negative length of a list, on which it
  never returns, however long it runs.
\<close>

theorem rlp_malformed_input:
  assumes "string_header h n" and "length (pre @ h @ rest @ spare) < 2 ^ 63"
  shows "rlpDecodeItem (Suc fuel) (pre @ h @ rest) spare (int (length pre)) =
      Some (if n \<le> length rest then Ok (Inr (Bytes (take n rest), int (length h + n)))
            else if n \<le> length rest + length spare
                 then Ok (Inr (Bytes (rest @ take (n - length rest) spare), int (length h + n)))
            else Panic SliceOutOfRange) \<and>
    RLPDecode fuel' backwards [] = None"
proof -
  have "h \<noteq> []" using assms(1) by (auto simp: string_header_def)
  then have "length pre < length (pre @ h @ rest)" by (cases h) simp_all
  from string_item [OF assms(1) _ this, of spare "rest @ spare" fuel] assms(2) rlp_decode_diverges
  show ?thesis by simp
qed

theorem rlp_malformed_input_witness:
  "rlpDecodeItem 1 [0x83, 1] [] 0 = Some (Panic SliceOutOfRange) \<and>
   rlpDecodeItem 1 [7, 0xb8, 3, 1] [8, 9, 10] 1 = Some (Ok (Inr (Bytes [1, 8, 9], 5))) \<and>
   rlpDecodeItem 1 [0xbf, 0xff, 0xff, 0xff, 0xff, 0xff, 0xff, 0xff, 0xff, 1] [] 0 = Some (Panic SliceOutOfRange)"
proof -
  have h: "string_header [0x83] 3" "string_header [0xb8, 3] 3"
    "string_header [0xbf, 0xff, 0xff, 0xff, 0xff, 0xff, 0xff, 0xff, 0xff] (2 ^ 64 - 1)"
    by (simp_all add: string_header_def announces_def big_endian_def)
  show ?thesis
    using rlp_malformed_input [OF h(1), of "[]" "[1]" "[]" 0] rlp_malformed_input [OF h(2), of "[7]" "[1]" "[8, 9, 10]" 0]
      rlp_malformed_input [OF h(3), of "[]" "[1]" "[]" 0] by simp
qed

end
