(* ===== verification/RlpReader.thy ===== *)
theory RlpReader
  imports RlpCodec
begin

text \<open>
  The streaming RLP reader of \<open>algorithms/serialization.go\<close> over the readers of Go's \<open>io\<close>.
\<close>

section \<open>The reader\<close>

text \<open>
  An \<open>RLPReader\<close> reads through zero or more \<open>io.LimitReader\<close>s from one in-memory stream. The state is
  the rest of the stream and the remaining count of every limit made; a reader is the list of the
  limits it reads through. \<open>io.ReadFull\<close> consumes what is there also when it fails.
\<close>

record reader_state =
  stream :: bytes
  limits :: "int list"

type_synonym RLPReader = "nat list"

datatype reader_error = EOF | UnexpectedEOF | ExpectedString | ExpectedList

definition room :: "reader_state \<Rightarrow> RLPReader \<Rightarrow> nat" where
  "room st r = foldr (\<lambda>i m. min (nat (limits st ! i)) m) r (length (stream st))"

definition consume :: "reader_state \<Rightarrow> RLPReader \<Rightarrow> nat \<Rightarrow> reader_state" where
  "consume st r k = \<lparr>stream = drop k (stream st), limits = foldr (\<lambda>i ls. ls[i := ls ! i - int k]) r (limits st)\<rparr>"

definition ReadFull :: "reader_state \<Rightarrow> RLPReader \<Rightarrow> nat \<Rightarrow> (reader_error + bytes) \<times> reader_state" where
  "ReadFull st r k =
     (let m = room st r
      in if k \<le> m then (Inr (take k (stream st)), consume st r k)
         else (Inl (if m = 0 then EOF else UnexpectedEOF), consume st r m))"

text \<open>
  \<open>make\<close> panics for a length that is negative or more than the runtime can allocate, which is \<open>2^48\<close> bytes on
  a 64-bit machine.
\<close>

definition maxAlloc :: int where
  "maxAlloc = 2 ^ 48"

definition ReadData :: "reader_state \<Rightarrow> RLPReader \<Rightarrow> int \<Rightarrow> ((reader_error + bytes) \<times> reader_state) go" where
  "ReadData st r dataLen = (if dataLen < 0 \<or> maxAlloc < dataLen then Panic MakeNegative else Ok (ReadFull st r (nat dataLen)))"

definition ReadLength :: "reader_state \<Rightarrow> RLPReader \<Rightarrow> nat \<Rightarrow> ((reader_error + int) \<times> reader_state) go" where
  "ReadLength st r numLenBytes =
     (case ReadFull st r numLenBytes of
        (Inl e, st) \<Rightarrow> Ok (Inl e, st)
      | (Inr lenBytes, st) \<Rightarrow> go_bind (decodeBigEndian lenBytes) (\<lambda>n. Ok (Inr n, st)))"

definition RLPReader_ReadString :: "reader_state \<Rightarrow> RLPReader \<Rightarrow> ((reader_error + bytes) \<times> reader_state) go" where
  "RLPReader_ReadString st r =
     (case ReadFull st r 1 of
        (Inl e, st) \<Rightarrow> Ok (Inl e, st)
      | (Inr prefix, st) \<Rightarrow>
          (let key = prefix ! 0
           in if key \<le> 0x7f then Ok (Inr prefix, st)
              else if key = 0x80 then Ok (Inr [], st)
              else if key \<le> 0xb7 then ReadData st r (int (unat (key - 0x80)))
              else if key \<le> 0xbf then
                go_bind (ReadLength st r (unat (key - 0xb7))) (\<lambda>x. case x of
                    (Inl e, st) \<Rightarrow> Ok (Inl e, st)
                  | (Inr dataLen, st) \<Rightarrow> ReadData st r dataLen)
              else Ok (Inl ExpectedString, st)))"

definition LimitReader :: "reader_state \<Rightarrow> RLPReader \<Rightarrow> int \<Rightarrow> RLPReader \<times> reader_state" where
  "LimitReader st r n = (length (limits st) # r, st\<lparr>limits := limits st @ [n]\<rparr>)"

definition RLPReader_ReadList :: "reader_state \<Rightarrow> RLPReader \<Rightarrow> ((reader_error + RLPReader) \<times> reader_state) go" where
  "RLPReader_ReadList st r =
     (case ReadFull st r 1 of
        (Inl e, st) \<Rightarrow> Ok (Inl e, st)
      | (Inr prefix, st) \<Rightarrow>
          (let key = prefix ! 0;
               limited = (\<lambda>st n. case LimitReader st r n of (r', st) \<Rightarrow> Ok (Inr r', st))
           in if key = 0xc0 then limited st 0
              else if 0xc0 < key \<and> key \<le> 0xf7 then limited st (int (unat (key - 0xc0)))
              else if 0xf7 < key then
                go_bind (ReadLength st r (unat (key - 0xf7))) (\<lambda>x. case x of
                    (Inl e, st) \<Rightarrow> Ok (Inl e, st)
                  | (Inr payloadLen, st) \<Rightarrow> limited st payloadLen)
              else Ok (Inl ExpectedList, st)))"

definition reader_ok :: "reader_state \<Rightarrow> RLPReader \<Rightarrow> bool" where
  "reader_ok st r \<longleftrightarrow> distinct r \<and> (\<forall>i\<in>set r. i < length (limits st))"

lemma foldr_limits_length: "length (foldr (\<lambda>i ls. ls[i := f ls i]) r ls) = length ls"
  by (induction r) auto

lemma foldr_limits_nth:
  "distinct r \<Longrightarrow> \<forall>i\<in>set r. i < length ls \<Longrightarrow> j < length ls \<Longrightarrow>
   foldr (\<lambda>i ls. ls[i := ls ! i - k]) r ls ! j = (if j \<in> set r then ls ! j - k else ls ! j)"
  by (induction r) (auto simp: foldr_limits_length nth_list_update)

lemma length_limits_consume [simp]: "length (limits (consume st r k)) = length (limits st)"
  by (simp add: consume_def foldr_limits_length)

lemma limits_consume:
  "reader_ok st r \<Longrightarrow> j < length (limits st) \<Longrightarrow>
   limits (consume st r k) ! j = (if j \<in> set r then limits st ! j - int k else limits st ! j)"
  by (simp add: consume_def reader_ok_def foldr_limits_nth)

lemma reader_ok_consume [simp]: "reader_ok st r \<Longrightarrow> reader_ok (consume st r k) r"
  by (simp add: reader_ok_def)

lemma stream_consume [simp]: "stream (consume st r k) = drop k (stream st)"
  by (simp add: consume_def)

lemma room_consume: "reader_ok st r \<Longrightarrow> room (consume st r k) r = room st r - k"
proof -
  assume ok: "reader_ok st r"
  have "set is \<subseteq> set r \<Longrightarrow> foldr (\<lambda>i m. min (nat (limits (consume st r k) ! i)) m) is (length (stream st) - k) =
      foldr (\<lambda>i m. min (nat (limits st ! i)) m) is (length (stream st)) - k" for "is"
    using ok by (induction "is") (auto simp: limits_consume reader_ok_def nat_diff_distrib' min_diff)
  then show ?thesis by (simp add: room_def)
qed

lemma consume_consume:
  "reader_ok st r \<Longrightarrow> consume (consume st r a) r b = consume st r (a + b)"
proof (rule reader_state.equality)
  assume ok: "reader_ok st r"
  then show "limits (consume (consume st r a) r b) = limits (consume st r (a + b))"
    using reader_ok_consume [OF ok, of a]
    by (intro nth_equalityI) (auto simp: limits_consume)
qed (simp_all add: add.commute)

lemma room_stream: "room st r \<le> length (stream st)"
proof -
  have "foldr (\<lambda>i m. min (f i) m) is (n :: nat) \<le> n" for f "is" n by (induction "is") (auto simp: min_le_iff_disj)
  then show ?thesis by (simp add: room_def)
qed

lemma ReadFull_Ok: "k \<le> room st r \<Longrightarrow> ReadFull st r k = (Inr (take k (stream st)), consume st r k)"
  by (simp add: ReadFull_def)

text \<open>The prefix byte of an encoding, the length bytes behind it, and the data of an encoded string.\<close>

lemma ReadFull_chunk:
  assumes "reader_ok st r" and "stream st = xs @ ys @ rest" and "length xs + length ys \<le> room st r"
  shows "ReadFull (consume st r (length xs)) r (length ys) = (Inr ys, consume st r (length xs + length ys))"
  using ReadFull_Ok [of "length ys" "consume st r (length xs)" r] room_consume [OF assms(1), of "length xs"] assms
  by (simp add: consume_consume)

lemma ReadFull_prefix:
  assumes "stream st = k # rest" and "1 \<le> room st r"
  shows "ReadFull st r 1 = (Inr [k], consume st r 1)"
  using ReadFull_Ok [OF assms(2)] assms(1) by simp

lemma ReadLength_chunk:
  assumes "reader_ok st r" and "stream st = k # lb @ rest" and "1 + length lb \<le> room st r" and "decodeBigEndian lb = Ok n"
  shows "ReadLength (consume st r 1) r (length lb) = Ok (Inr n, consume st r (1 + length lb))"
  using ReadFull_chunk [OF assms(1), of "[k]" lb rest] assms by (simp add: ReadLength_def)

lemma ReadString_long:
  fixes k :: byte
  assumes ok: "reader_ok st r" and stream: "stream st = k # lb @ b @ rest" and enough: "1 + length lb + length b \<le> room st r"
    and k: "unat k = 183 + length lb" "0 < length lb" "length lb \<le> 8"
    and n: "decodeBigEndian lb = Ok (int (length b))" "int (length b) \<le> maxAlloc"
  shows "RLPReader_ReadString st r = Ok (Inr b, consume st r (1 + length lb + length b))"
proof -
  have first: "ReadFull st r 1 = (Inr [k], consume st r 1)" using ReadFull_prefix [OF stream] enough by simp
  have nlen: "unat (k - 0xb7) = length lb" using k(1) by (intro prefix_length_nat) simp
  have len: "ReadLength (consume st r 1) r (length lb) = Ok (Inr (int (length b)), consume st r (1 + length lb))"
    using ReadLength_chunk [OF ok stream _ n(1)] enough by simp
  have data: "ReadFull (consume st r (1 + length lb)) r (length b) = (Inr b, consume st r (1 + length lb + length b))"
    using ReadFull_chunk [OF ok, of "k # lb" b rest] stream enough by simp
  have tests: "k \<le> 0x7f \<longleftrightarrow> False" "k = 0x80 \<longleftrightarrow> False" "k \<le> 0xb7 \<longleftrightarrow> False" "k \<le> 0xbf \<longleftrightarrow> True"
    using prefix_tests [OF k(1)] k(2,3) by auto
  have "RLPReader_ReadString st r = ReadData (consume st r (1 + length lb)) r (int (length b))"
    unfolding RLPReader_ReadString_def first prod.case sum.case Let_def nth_Cons_0 tests nlen len by simp
  then show ?thesis using data n(2) by (simp add: ReadData_def)
qed

lemma ReadString_encoded:
  assumes "reader_ok st r" and "stream st = RLPEncodeString b @ rest"
    and "length (RLPEncodeString b) \<le> room st r" and "int (length b) \<le> maxAlloc"
  shows "RLPReader_ReadString st r = Ok (Inr b, consume st r (length (RLPEncodeString b)))"
proof (cases b rule: RLPEncodeString_forms)
  case (byte x)
  then show ?thesis
    using ReadFull_prefix [of st x rest r] assms(2,3) by (simp add: RLPReader_ReadString_def word_le_nat_alt)
next
  case empty
  then show ?thesis using ReadFull_prefix [of st "0x80" rest r] assms(2,3) by (simp add: RLPReader_ReadString_def)
next
  case (short k)
  have "ReadFull st r 1 = (Inr [k], consume st r 1)" using ReadFull_prefix [of st k "b @ rest" r] short(5) assms(2,3) by simp
  moreover have "ReadFull (consume st r 1) r (length b) = (Inr b, consume st r (Suc (length b)))"
    using ReadFull_chunk [OF assms(1), of "[k]" b rest] short(5) assms(2,3) by simp
  ultimately show ?thesis
    using prefix_tests [OF short(1)] prefix_length [of k "0x80" "length b"] short assms(4)
    by (auto simp: RLPReader_ReadString_def ReadData_def)
next
  case (long k lb)
  then show ?thesis
    using ReadString_long [OF assms(1), of k lb b rest] assms(2-4) by (simp add: maxAlloc_def)
qed

lemma room_limited:
  "room (st\<lparr>limits := limits st @ [n]\<rparr>) (length (limits st) # r) = min (nat n) (room st r)"
  if "reader_ok st r"
proof -
  have "set is \<subseteq> set r \<Longrightarrow> foldr (\<lambda>i m. min (nat ((limits st @ [n]) ! i)) m) is a = foldr (\<lambda>i m. min (nat (limits st ! i)) m) is a"
    for "is" a using that by (induction "is") (auto simp: reader_ok_def nth_append)
  then show ?thesis by (simp add: room_def)
qed

lemma reader_ok_limited:
  "reader_ok st r \<Longrightarrow> reader_ok (st\<lparr>limits := limits st @ [n]\<rparr>) (length (limits st) # r)"
  by (auto simp: reader_ok_def)

lemma consume_0: "reader_ok st r \<Longrightarrow> consume st r 0 = st"
proof (rule reader_state.equality)
  assume "reader_ok st r"
  then show "limits (consume st r 0) = limits st"
    by (intro nth_equalityI) (auto simp: limits_consume)
qed simp_all

lemma ReadList_encoded:
  assumes "reader_ok st r" and "stream st = RLPEncodeList es @ rest"
    and "length (RLPEncodeList es) \<le> room st r" and "length (concat es) < 2 ^ 63"
  shows "\<exists>r' st'. RLPReader_ReadList st r = Ok (Inr r', st') \<and> reader_ok st' r' \<and>
    stream st' = concat es @ rest \<and> room st' r' = length (concat es)"
proof -
  let ?n = "length (concat es)" and ?r = "length (limits st) # r"
  let ?st = "\<lambda>h. (consume st r h)\<lparr>limits := limits (consume st r h) @ [int ?n]\<rparr>"
  have "\<exists>h. h + ?n = length (RLPEncodeList es) \<and> RLPReader_ReadList st r = Ok (Inr ?r, ?st h) \<and> stream (?st h) = concat es @ rest"
  proof (cases es rule: RLPEncodeList_forms)
    case (short k)
    have first: "ReadFull st r 1 = (Inr [k], consume st r 1)"
      using ReadFull_prefix [of st k "concat es @ rest" r] short(3) assms(2,3) by simp
    have nlen: "unat (k - 0xc0) = ?n" using short(1) by (intro prefix_length_nat) simp
    have tests: "k = 0xc0 \<longleftrightarrow> ?n = 0" "0xc0 < k \<longleftrightarrow> 0 < ?n" "k \<le> 0xf7 \<longleftrightarrow> True"
      using short(1,2) by (simp_all only: word_less_nat_alt word_le_nat_alt word_unat_eq_iff) simp_all
    have "RLPReader_ReadList st r = Ok (Inr ?r, ?st 1)"
      unfolding RLPReader_ReadList_def LimitReader_def first prod.case sum.case Let_def nth_Cons_0 tests nlen
      by (cases "?n = 0") (simp_all del: length_concat)
    then show ?thesis using assms(2) short(3) by (intro exI [of _ 1]) (simp del: length_concat)
  next
    case (long k lb)
    have stream: "stream st = k # lb @ concat es @ rest" using long(5) assms(2) by simp
    have first: "ReadFull st r 1 = (Inr [k], consume st r 1)"
      using ReadFull_prefix [OF stream, of r] long(5) assms(3) by simp
    have nlen: "unat (k - 0xf7) = length lb" using long(1) by (intro prefix_length_nat) simp
    have len: "ReadLength (consume st r 1) r (length lb) = Ok (Inr (int ?n), consume st r (1 + length lb))"
      using ReadLength_chunk [OF assms(1) stream _ long(6) [OF assms(4)]] long(5) assms(3) by (simp del: length_concat)
    have tests: "k = 0xc0 \<longleftrightarrow> False" "k \<le> 0xf7 \<longleftrightarrow> False" "0xf7 < k \<longleftrightarrow> True"
      using long(1,2,3) by (simp_all only: word_less_nat_alt word_le_nat_alt word_unat_eq_iff) auto
    then have "RLPReader_ReadList st r = Ok (Inr ?r, ?st (1 + length lb))"
      unfolding RLPReader_ReadList_def LimitReader_def first prod.case sum.case Let_def nth_Cons_0 tests nlen len
      by (simp del: length_concat)
    then show ?thesis using stream long(5) by (intro exI [of _ "1 + length lb"]) (simp del: length_concat)
  qed
  then obtain h where h: "h + ?n = length (RLPEncodeList es)" "RLPReader_ReadList st r = Ok (Inr ?r, ?st h)"
    "stream (?st h) = concat es @ rest" by blast
  have "reader_ok (?st h) ?r"
    using reader_ok_limited [OF reader_ok_consume [OF assms(1), of h], of "int ?n"] by simp
  moreover have "room (?st h) ?r = ?n"
    using room_limited [OF reader_ok_consume [OF assms(1), of h], of "int ?n"] room_consume [OF assms(1), of h] h(1) assms(3)
    by (simp del: length_concat)
  ultimately show ?thesis using h by blast
qed

fun ReadStrings :: "nat \<Rightarrow> reader_state \<Rightarrow> RLPReader \<Rightarrow> ((reader_error + bytes) list \<times> reader_state) go" where
  "ReadStrings 0 st r = Ok ([], st)"
| "ReadStrings (Suc n) st r =
     go_bind (RLPReader_ReadString st r) (\<lambda>(x, st).
     go_bind (ReadStrings n st r) (\<lambda>(xs, st). Ok (x # xs, st)))"

lemma ReadStrings_encoded:
  "reader_ok st r \<Longrightarrow> stream st = concat (map RLPEncodeString bs) @ rest \<Longrightarrow>
   room st r = length (concat (map RLPEncodeString bs)) \<Longrightarrow> \<forall>b\<in>set bs. int (length b) \<le> maxAlloc \<Longrightarrow>
   ReadStrings (length bs) st r = Ok (map Inr bs, consume st r (length (concat (map RLPEncodeString bs))))"
proof (induction bs arbitrary: st)
  case (Cons b bs)
  let ?n = "length (RLPEncodeString b)"
  have "RLPReader_ReadString st r = Ok (Inr b, consume st r ?n)"
    using Cons.prems by (intro ReadString_encoded [where rest = "concat (map RLPEncodeString bs) @ rest"]) auto
  moreover have "ReadStrings (length bs) (consume st r ?n) r =
      Ok (map Inr bs, consume (consume st r ?n) r (length (concat (map RLPEncodeString bs))))"
    using Cons.prems by (intro Cons.IH) (auto simp: room_consume)
  ultimately show ?case using Cons.prems(1) by (simp add: consume_consume)
qed (simp add: consume_0)

lemma RLPEncodeString_longer: "length b \<le> length (RLPEncodeString b)"
  by (simp add: RLPEncodeString_def Let_def)

text \<open>
  C20: the streaming reader takes an encoded list apart: \<open>ReadList\<close> gives a reader limited to the payload,
  \<open>ReadString\<close> on it gives the strings in order and then the end of the input, and the stream is left
  behind the list, whatever follows.
\<close>

theorem rlp_reader_reads_list:
  assumes "int (length (RLPEncodeList (map RLPEncodeString bs))) \<le> maxAlloc"
  shows "\<exists>r st st'. RLPReader_ReadList \<lparr>stream = RLPEncodeList (map RLPEncodeString bs) @ rest, limits = []\<rparr> [] =
      Ok (Inr r, st) \<and> ReadStrings (length bs) st r = Ok (map Inr bs, st') \<and>
    RLPReader_ReadString st' r = Ok (Inl EOF, st') \<and> stream st' = rest"
proof -
  let ?es = "map RLPEncodeString bs"
  let ?st0 = "\<lparr>stream = RLPEncodeList ?es @ rest, limits = []\<rparr>"
  have payload: "length (concat ?es) \<le> length (RLPEncodeList ?es)"
    by (simp add: RLPEncodeList_def Let_def del: length_concat)
  have "length b \<le> length (concat ?es)" if "b \<in> set bs" for b
    using that by (induction bs) (auto intro: le_trans [OF RLPEncodeString_longer] trans_le_add2)
  then have short: "\<forall>b\<in>set bs. int (length b) \<le> maxAlloc" using payload assms by fastforce
  obtain r st where r: "RLPReader_ReadList ?st0 [] = Ok (Inr r, st)" "reader_ok st r"
    "stream st = concat ?es @ rest" "room st r = length (concat ?es)"
    using ReadList_encoded [of ?st0 "[]" ?es rest] payload assms by (auto simp: reader_ok_def room_def maxAlloc_def)
  let ?st' = "consume st r (length (concat ?es))"
  have "room ?st' r = 0" using room_consume [OF r(2)] r(4) by simp
  then have "RLPReader_ReadString ?st' r = Ok (Inl EOF, ?st')"
    using consume_0 [OF reader_ok_consume [OF r(2)]] by (simp add: RLPReader_ReadString_def ReadFull_def)
  then show ?thesis
    using r(1) ReadStrings_encoded [OF r(2,3,4) short] r(3) by (intro exI conjI) auto
qed

theorem rlp_reader_reads_list_witness:
  "\<exists>r st st'. RLPReader_ReadList \<lparr>stream = [0xc5, 0x80, 7, 0x82, 1, 2, 99], limits = []\<rparr> [] = Ok (Inr r, st) \<and>
     ReadStrings 3 st r = Ok ([Inr [], Inr [7], Inr [1, 2]], st') \<and>
     RLPReader_ReadString st' r = Ok (Inl EOF, st') \<and> stream st' = [99]"
proof -
  have "RLPEncodeList (map RLPEncodeString [[], [7], [1, 2]]) = [0xc5, 0x80, 7, 0x82, 1, 2]" by code_simp
  then show ?thesis using rlp_reader_reads_list [of "[[], [7], [1, 2]]" "[99]"]
    by (simp add: numeral_3_eq_3 maxAlloc_def del: ReadStrings.simps)
qed

text \<open>
  C35: what \<open>ReadString\<close> does with the announced length of a long string, on every input. A length that is negative as
  a signed number, or beyond what can be allocated, is a panic before any data is read; a shorter one
  gives the data, or the error for an input that ends before them. An input that ends right after the
  length is reported as a regular end.
\<close>

theorem rlp_reader_announced_length:
  assumes "0 < length lb" and "length lb \<le> 8" and "decodeBigEndian lb = Ok n"
  shows "RLPReader_ReadString \<lparr>stream = of_nat (183 + length lb) # lb @ rest, limits = []\<rparr> [] =
    (if n < 0 \<or> maxAlloc < n then Panic MakeNegative
     else if nat n \<le> length rest then Ok (Inr (take (nat n) rest), \<lparr>stream = drop (nat n) rest, limits = []\<rparr>)
     else Ok (Inl (if rest = [] then EOF else UnexpectedEOF), \<lparr>stream = [], limits = []\<rparr>))"
proof -
  let ?key = "of_nat (183 + length lb) :: byte"
  have key: "unat ?key = 183 + length lb" using assms(2) by (simp only: unat_of_nat) simp
  have nlen: "unat (?key - 0xb7) = length lb" using key by (intro prefix_length_nat) simp
  have tests: "?key \<le> 0x7f \<longleftrightarrow> False" "?key = 0x80 \<longleftrightarrow> False" "?key \<le> 0xb7 \<longleftrightarrow> False" "?key \<le> 0xbf \<longleftrightarrow> True"
    using prefix_tests [OF key] assms(1,2) by auto
  have first: "ReadFull \<lparr>stream = ?key # lb @ rest, limits = []\<rparr> [] 1 = (Inr [?key], \<lparr>stream = lb @ rest, limits = []\<rparr>)"
    by (simp add: ReadFull_def room_def consume_def)
  have len: "ReadLength \<lparr>stream = lb @ rest, limits = []\<rparr> [] (length lb) = Ok (Inr n, \<lparr>stream = rest, limits = []\<rparr>)"
    by (simp add: ReadLength_def ReadFull_def room_def consume_def assms(3))
  have "RLPReader_ReadString \<lparr>stream = ?key # lb @ rest, limits = []\<rparr> [] = ReadData \<lparr>stream = rest, limits = []\<rparr> [] n"
    unfolding RLPReader_ReadString_def first prod.case sum.case Let_def nth_Cons_0 tests nlen len by simp
  then show ?thesis by (simp add: ReadData_def ReadFull_def room_def consume_def)
qed

theorem rlp_reader_announced_length_witness:
  "RLPReader_ReadString \<lparr>stream = [0xbf, 0x7f, 0, 0, 0, 0, 0, 0, 0], limits = []\<rparr> [] = Panic MakeNegative \<and>
   RLPReader_ReadString \<lparr>stream = [0xb8, 3, 1, 2], limits = []\<rparr> [] = Ok (Inl UnexpectedEOF, \<lparr>stream = [], limits = []\<rparr>)"
proof -
  have "decodeBigEndian [0x7f, 0, 0, 0, 0, 0, 0, 0] = Ok (127 * 2 ^ 56)" "decodeBigEndian [3] = Ok 3" by code_simp+
  then show ?thesis
    using rlp_reader_announced_length [of "[0x7f, 0, 0, 0, 0, 0, 0, 0]" "127 * 2 ^ 56" "[]"]
      rlp_reader_announced_length [of "[3]" 3 "[1, 2]"] by (simp add: maxAlloc_def)
qed

end
