(* ===== verification/LevelingArm.thy ===== *)
theory LevelingArm
  imports GoPrelude
begin

text \<open>
  The robotic arm of \<open>practice/robotic_leveling.go\<close>: \<open>Solve\<close> gives one command for a state, and the
  factory that the header comment describes carries it out. Box counts and positions are integers.
\<close>

section \<open>The code\<close>

definition RightCmd :: string where "RightCmd = ''RIGHT''"
definition LeftCmd :: string where "LeftCmd = ''LEFT''"
definition PickCmd :: string where "PickCmd = ''PICK''"
definition PlaceCmd :: string where "PlaceCmd = ''PLACE''"

lemma commands_differ [simp]:
  "RightCmd \<noteq> LeftCmd" "RightCmd \<noteq> PickCmd" "RightCmd \<noteq> PlaceCmd" "LeftCmd \<noteq> PickCmd" "LeftCmd \<noteq> PlaceCmd"
  "PickCmd \<noteq> PlaceCmd" "LeftCmd \<noteq> RightCmd" "PickCmd \<noteq> RightCmd" "PlaceCmd \<noteq> RightCmd" "PickCmd \<noteq> LeftCmd"
  "PlaceCmd \<noteq> LeftCmd" "PlaceCmd \<noteq> PickCmd"
  by (simp_all add: RightCmd_def LeftCmd_def PickCmd_def PlaceCmd_def)

text \<open>The loop over the stacks, from the first, with the remainder that is left.\<close>

fun target_loop :: "nat \<Rightarrow> int \<Rightarrow> int \<Rightarrow> int list" where
  "target_loop 0 avg rem = []"
| "target_loop (Suc n) avg rem =
     (if 0 < rem then (avg + 1) # target_loop n avg (rem - 1) else avg # target_loop n avg rem)"

definition computeTargetHeights :: "int list \<Rightarrow> bool \<Rightarrow> int list go" where
  "computeTargetHeights boxes boxInClaw =
     (let nb = foldl (+) 0 boxes; n = int (length boxes);
          nb = (if boxInClaw then nb + 1 else nb)
      in if n = 0 then Panic DivideByZero
         else Ok (target_loop (length boxes) (go_div nb n) (go_mod nb n)))"

fun isLeveled :: "int list \<Rightarrow> int list \<Rightarrow> bool" where
  "isLeveled (b # boxes) (t # targets) = (if b \<noteq> t then False else isLeveled boxes targets)"
| "isLeveled _ _ = True"

fun findSource_loop :: "int \<Rightarrow> int list \<Rightarrow> int list \<Rightarrow> int" where
  "findSource_loop i (b # boxes) (t # targets) = (if t < b then i else findSource_loop (i + 1) boxes targets)"
| "findSource_loop i _ _ = - 1"

definition findSource :: "int list \<Rightarrow> int list \<Rightarrow> int" where
  "findSource boxes targets = findSource_loop 0 boxes targets"

fun findTarget_loop :: "int \<Rightarrow> int list \<Rightarrow> int list \<Rightarrow> int" where
  "findTarget_loop i (b # boxes) (t # targets) = (if b < t then i else findTarget_loop (i + 1) boxes targets)"
| "findTarget_loop i _ _ = - 1"

definition findTarget :: "int list \<Rightarrow> int list \<Rightarrow> int" where
  "findTarget boxes targets = findTarget_loop 0 boxes targets"

definition Solve :: "int \<Rightarrow> int list \<Rightarrow> bool \<Rightarrow> string go" where
  "Solve clawPos boxes boxInClaw =
     go_bind (computeTargetHeights boxes boxInClaw) (\<lambda>targets.
       let source = findSource boxes targets; dest = findTarget boxes targets
       in Ok (if boxInClaw \<and> 0 \<le> dest then
                (if clawPos = dest then PlaceCmd else if clawPos < dest then RightCmd else LeftCmd)
              else if \<not> boxInClaw \<and> 0 \<le> source then
                (if clawPos < source then RightCmd else if clawPos = source then PickCmd else LeftCmd)
              else ''''))"

section \<open>The factory\<close>

text \<open>
  The rules of the header comment: a command that leaves the row of stacks, picks with a full claw or
  from an empty stack, places with an empty claw, or is none of the four loses the game (\<open>None\<close>).
\<close>

record arm =
  claw :: int
  stacks :: "int list"
  held :: bool

definition arm_step :: "string \<Rightarrow> arm \<Rightarrow> arm option" where
  "arm_step cmd s =
     (if cmd = RightCmd then (if claw s + 1 < int (length (stacks s)) then Some (s\<lparr>claw := claw s + 1\<rparr>) else None)
      else if cmd = LeftCmd then (if 0 < claw s then Some (s\<lparr>claw := claw s - 1\<rparr>) else None)
      else if cmd = PickCmd then
        (if \<not> held s \<and> 0 < stacks s ! nat (claw s)
         then Some (s\<lparr>stacks := (stacks s)[nat (claw s) := stacks s ! nat (claw s) - 1], held := True\<rparr>) else None)
      else if cmd = PlaceCmd then
        (if held s
         then Some (s\<lparr>stacks := (stacks s)[nat (claw s) := stacks s ! nat (claw s) + 1], held := False\<rparr>) else None)
      else None)"

definition won :: "arm \<Rightarrow> bool" where
  "won s \<longleftrightarrow> \<not> held s \<and> (case computeTargetHeights (stacks s) False of Inl e \<Rightarrow> False | Inr t \<Rightarrow> isLeveled (stacks s) t)"

text \<open>\<open>play n s\<close> plays at most \<open>n\<close> turns and gives the number of turns to victory.\<close>

fun play :: "nat \<Rightarrow> arm \<Rightarrow> nat option" where
  "play 0 s = (if won s then Some 0 else None)"
| "play (Suc n) s =
     (if won s then Some 0
      else case Solve (claw s) (stacks s) (held s) of
             Inl e \<Rightarrow> None
           | Inr cmd \<Rightarrow> (case arm_step cmd s of None \<Rightarrow> None | Some s' \<Rightarrow> map_option Suc (play n s')))"

section \<open>The target heights\<close>

lemma length_target_loop [simp]: "length (target_loop n avg rem) = n"
  by (induction n avg rem rule: target_loop.induct) auto

lemma target_loop_nth:
  "i < n \<Longrightarrow> 0 \<le> rem \<Longrightarrow> target_loop n avg rem ! i = avg + (if int i < rem then 1 else 0)"
  by (induction n avg rem arbitrary: i rule: target_loop.induct) (auto simp: nth_Cons split: nat.split)

lemma target_loop_sum:
  "0 \<le> rem \<Longrightarrow> rem \<le> int n \<Longrightarrow> sum_list (target_loop n avg rem) = int n * avg + rem"
  by (induction n avg rem rule: target_loop.induct) (auto simp: algebra_simps)

lemma foldl_sum: "foldl (+) (a :: int) xs = a + sum_list xs"
  by (induction xs arbitrary: a) auto

definition targets_of :: "nat \<Rightarrow> int \<Rightarrow> int list" where
  "targets_of n nb = target_loop n (nb div int n) (nb mod int n)"

lemma computeTargetHeights_Ok:
  assumes "boxes \<noteq> []" and "nb = sum_list boxes + of_bool inClaw" and "0 \<le> nb"
  shows "computeTargetHeights boxes inClaw = Ok (targets_of (length boxes) nb)"
  using assms by (auto simp: computeTargetHeights_def Let_def foldl_sum targets_of_def go_div_nonneg go_mod_nonneg)

lemma targets_of_facts:
  assumes "0 < n" "0 \<le> nb"
  shows "length (targets_of n nb) = n" "sum_list (targets_of n nb) = nb"
    "i < n \<Longrightarrow> targets_of n nb ! i = nb div int n + (if int i < nb mod int n then 1 else 0)"
proof -
  have m: "0 \<le> nb mod int n" "nb mod int n < int n" using assms by auto
  show "length (targets_of n nb) = n" by (simp add: targets_of_def)
  show "sum_list (targets_of n nb) = nb"
    using m by (simp add: targets_of_def target_loop_sum)
  show "i < n \<Longrightarrow> targets_of n nb ! i = nb div int n + (if int i < nb mod int n then 1 else 0)"
    using m(1) by (simp add: targets_of_def target_loop_nth)
qed

lemma isLeveled_iff: "length boxes = length targets \<Longrightarrow> isLeveled boxes targets \<longleftrightarrow> boxes = targets"
  by (induction boxes targets rule: list_induct2) auto

lemma findSource_loop_cases:
  "length boxes = length targets \<Longrightarrow>
   (findSource_loop k boxes targets = - 1 \<and> (\<forall>i<length boxes. boxes ! i \<le> targets ! i)) \<or>
   (\<exists>i<length boxes. findSource_loop k boxes targets = k + int i \<and> targets ! i < boxes ! i)"
proof (induction boxes targets arbitrary: k rule: list_induct2)
  case (Cons b boxes t targets)
  show ?case
  proof (cases "t < b")
    case False
    from Cons.IH [of "k + 1"] show ?thesis
    proof (elim disjE exE conjE)
      assume "findSource_loop (k + 1) boxes targets = - 1" "\<forall>i<length boxes. boxes ! i \<le> targets ! i"
      with False show ?thesis by (auto simp: nth_Cons split: nat.split)
    next
      fix i assume "i < length boxes" "findSource_loop (k + 1) boxes targets = k + 1 + int i" "targets ! i < boxes ! i"
      with False show ?thesis by (intro disjI2 exI [of _ "Suc i"]) auto
    qed
  qed auto
qed simp

lemma findTarget_loop_swap: "findTarget_loop k boxes targets = findSource_loop k targets boxes"
  by (induction k boxes targets rule: findTarget_loop.induct) auto

lemma findSource_cases:
  assumes "length boxes = length targets"
  obtains (none) "findSource boxes targets = - 1" "\<forall>i<length boxes. boxes ! i \<le> targets ! i"
    | (found) i where "i < length boxes" "findSource boxes targets = int i" "targets ! i < boxes ! i"
  using findSource_loop_cases [OF assms, of 0] unfolding findSource_def by auto

lemma findTarget_cases:
  assumes "length boxes = length targets"
  obtains (none) "findTarget boxes targets = - 1" "\<forall>i<length boxes. targets ! i \<le> boxes ! i"
    | (found) i where "i < length boxes" "findTarget boxes targets = int i" "boxes ! i < targets ! i"
  using findSource_loop_cases [OF assms [symmetric], of 0] assms
  unfolding findTarget_def findTarget_loop_swap by auto

section \<open>Progress\<close>

text \<open>
  What every turn keeps: the number of boxes, held one included, so that the targets never change.
\<close>

definition arm_inv :: "nat \<Rightarrow> int \<Rightarrow> arm \<Rightarrow> bool" where
  "arm_inv n nb s \<longleftrightarrow> 0 < n \<and> length (stacks s) = n \<and> (\<forall>i<n. 0 \<le> stacks s ! i) \<and> 0 \<le> claw s \<and> claw s < int n \<and>
     sum_list (stacks s) + of_bool (held s) = nb"

lemma pointwise_le:
  "length xs = length ys \<Longrightarrow> \<forall>i<length xs. xs ! i \<le> ys ! i \<Longrightarrow>
   sum_list xs \<le> sum_list ys \<and> (sum_list xs = sum_list ys \<longrightarrow> xs = (ys :: int list))"
proof (induction xs ys rule: list_induct2)
  case (Cons x xs y ys)
  then have "x \<le> y" "\<forall>i<length xs. xs ! i \<le> ys ! i" by force+
  with Cons.IH show ?case by force
qed simp

lemma sum_list_nonneg_nth: "\<forall>i<length xs. 0 \<le> xs ! i \<Longrightarrow> 0 \<le> (sum_list xs :: int)"
  by (intro sum_list_nonneg) (metis in_set_conv_nth)

lemma arm_inv_nonneg: "arm_inv n nb s \<Longrightarrow> 0 \<le> nb"
  using sum_list_nonneg_nth [of "stacks s"] by (auto simp: arm_inv_def)

lemma arm_inv_targets:
  assumes "arm_inv n nb s"
  shows "computeTargetHeights (stacks s) (held s) = Ok (targets_of n nb)"
  using assms arm_inv_nonneg [OF assms] computeTargetHeights_Ok [of "stacks s" nb "held s"]
  by (auto simp: arm_inv_def)

lemma won_iff: "arm_inv n nb s \<Longrightarrow> won s \<longleftrightarrow> \<not> held s \<and> stacks s = targets_of n nb"
  using arm_inv_targets [of n nb s] arm_inv_nonneg [of n nb s] targets_of_facts(1) [of n nb]
  by (auto simp: won_def arm_inv_def isLeveled_iff)

text \<open>
  The number of turns is bounded by a potential. \<open>A i\<close> is twice a distance of stack \<open>i\<close> from somewhere:
  the way between two stacks is at most the mean of their \<open>A\<close>. Every box out of place costs the way to
  and from its stack and one turn; of the next way, the actual length counts.
\<close>

definition spread :: "nat \<Rightarrow> (nat \<Rightarrow> int) \<Rightarrow> bool" where
  "spread n A \<longleftrightarrow> (\<forall>i<n. \<forall>j<n. 2 * \<bar>int i - int j\<bar> \<le> A i + A j)"

definition misplaced :: "(nat \<Rightarrow> int) \<Rightarrow> int list \<Rightarrow> int list \<Rightarrow> int" where
  "misplaced A t bs = (\<Sum>i<length bs. \<bar>bs ! i - t ! i\<bar> * (2 * A i + 2))"

definition next_stop :: "int list \<Rightarrow> arm \<Rightarrow> int" where
  "next_stop t s = (if held s then findTarget (stacks s) t else findSource (stacks s) t)"

definition potential :: "(nat \<Rightarrow> int) \<Rightarrow> int list \<Rightarrow> arm \<Rightarrow> int" where
  "potential A t s = misplaced A t (stacks s) +
     (if next_stop t s < 0 then 0 else 2 * \<bar>claw s - next_stop t s\<bar> - A (nat (next_stop t s)))"

lemma spread_nonneg: "spread n A \<Longrightarrow> i < n \<Longrightarrow> 0 \<le> A i"
proof -
  assume "spread n A" "i < n"
  then have "2 * \<bar>int i - int i\<bar> \<le> A i + A i" unfolding spread_def by blast
  then show "0 \<le> A i" by simp
qed

lemma misplaced_update:
  assumes "i < length bs"
  shows "misplaced A t (bs[i := b]) = misplaced A t bs + (\<bar>b - t ! i\<bar> - \<bar>bs ! i - t ! i\<bar>) * (2 * A i + 2)"
proof -
  have "(\<Sum>j\<in>{..<length bs} - {i}. \<bar>bs[i := b] ! j - t ! j\<bar> * (2 * A j + 2)) =
      (\<Sum>j\<in>{..<length bs} - {i}. \<bar>bs ! j - t ! j\<bar> * (2 * A j + 2))"
    by (intro sum.cong) auto
  with assms show ?thesis
    unfolding misplaced_def
    by (simp add: sum.remove [of "{..<length bs}" i] left_diff_distrib)
qed

lemma misplaced_lower:
  assumes "spread (length bs) A" "i < length bs" "bs ! i \<noteq> t ! i"
  shows "2 * A i + 2 \<le> misplaced A t bs"
proof -
  have pos: "0 \<le> \<bar>bs ! j - t ! j\<bar> * (2 * A j + 2)" if "j < length bs" for j
    using spread_nonneg [OF assms(1) that] by simp
  have "1 \<le> \<bar>bs ! i - t ! i\<bar>" using assms(3) by linarith
  then have "1 * (2 * A i + 2) \<le> \<bar>bs ! i - t ! i\<bar> * (2 * A i + 2)"
    using spread_nonneg [OF assms(1,2)] by (intro mult_right_mono) auto
  also have "\<dots> \<le> misplaced A t bs"
    unfolding misplaced_def using pos assms(2) by (intro member_le_sum) auto
  finally show ?thesis by simp
qed

text \<open>While the game is not won there is a next stop, a stack of the row that is not level.\<close>

lemma next_stop_exists:
  assumes inv: "arm_inv n nb s" and "\<not> won s"
  shows "\<exists>i<n. next_stop (targets_of n nb) s = int i \<and>
    (if held s then stacks s ! i < targets_of n nb ! i else targets_of n nb ! i < stacks s ! i)"
proof -
  let ?t = "targets_of n nb"
  have len: "length (stacks s) = n" "length ?t = n" "sum_list ?t = nb" "sum_list (stacks s) + of_bool (held s) = nb"
    using inv targets_of_facts(1,2) [of n nb] arm_inv_nonneg [OF inv] by (auto simp: arm_inv_def)
  show ?thesis
  proof (cases "held s")
    case True
    have "\<not> (\<forall>i<length (stacks s). ?t ! i \<le> stacks s ! i)"
      using pointwise_le [of ?t "stacks s"] len True by auto
    moreover have "length (stacks s) = length ?t" using len by simp
    ultimately show ?thesis
      using True len by - (erule findTarget_cases, auto simp: next_stop_def)
  next
    case False
    have "\<not> (\<forall>i<length (stacks s). stacks s ! i \<le> ?t ! i)"
      using pointwise_le [of "stacks s" ?t] len False assms(2) won_iff [OF inv] by auto
    moreover have "length (stacks s) = length ?t" using len by simp
    ultimately show ?thesis
      using False len by - (erule findSource_cases, auto simp: next_stop_def)
  qed
qed

lemma Solve_command:
  assumes "arm_inv n nb s" and "next_stop (targets_of n nb) s = int i"
  shows "Solve (claw s) (stacks s) (held s) =
    Ok (if claw s < int i then RightCmd
        else if claw s = int i then (if held s then PlaceCmd else PickCmd) else LeftCmd)"
  using assms(2) arm_inv_targets [OF assms(1)]
  by (auto simp: Solve_def next_stop_def Let_def split: if_splits)

text \<open>One turn.\<close>

lemma next_stop_cong: "stacks s' = stacks s \<Longrightarrow> held s' = held s \<Longrightarrow> next_stop t s' = next_stop t s"
  by (simp add: next_stop_def)

lemma sum_list_upd: "i < length xs \<Longrightarrow> sum_list (xs[i := x]) = sum_list xs - xs ! i + (x :: int)"
  by (induction xs arbitrary: i) (auto split: nat.split)

lemma potential_reached:
  assumes "spread n A" "arm_inv n nb s" "claw s = int i" "i < n"
  shows "potential A (targets_of n nb) s \<le> misplaced A (targets_of n nb) (stacks s) + A i"
proof (cases "won s")
  case False
  then obtain j where j: "j < n" "next_stop (targets_of n nb) s = int j"
    using next_stop_exists [OF assms(2)] by blast
  have "2 * \<bar>int i - int j\<bar> \<le> A i + A j" using assms(1,4) j(1) by (simp add: spread_def)
  then show ?thesis using j assms(3) by (simp add: potential_def)
next
  case True
  have "length (targets_of n nb) = n"
    using targets_of_facts(1) [of n nb] arm_inv_nonneg [OF assms(2)] assms(2) by (auto simp: arm_inv_def)
  with True have "next_stop (targets_of n nb) s = - 1"
    using won_iff [OF assms(2)] findSource_loop_cases [of "targets_of n nb" "targets_of n nb" 0]
    by (auto simp: next_stop_def findSource_def)
  then show ?thesis using spread_nonneg [OF assms(1,4)] by (simp add: potential_def)
qed

lemma arm_at_stop:
  assumes spread: "spread n A" and inv: "arm_inv n nb s" and i: "i < n" "next_stop (targets_of n nb) s = int i" "claw s = int i"
    and uneven: "if held s then stacks s ! i < targets_of n nb ! i else targets_of n nb ! i < stacks s ! i"
  shows "\<exists>cmd s'. Solve (claw s) (stacks s) (held s) = Ok cmd \<and> arm_step cmd s = Some s' \<and> arm_inv n nb s' \<and>
    potential A (targets_of n nb) s' \<le> potential A (targets_of n nb) s - 2"
proof -
  let ?t = "targets_of n nb" and ?b = "if held s then stacks s ! i + 1 else stacks s ! i - 1"
  let ?cmd = "if held s then PlaceCmd else PickCmd" and ?s = "s\<lparr>stacks := (stacks s)[i := ?b], held := \<not> held s\<rparr>"
  have len: "length (stacks s) = n" using inv by (simp add: arm_inv_def)
  have nonneg: "0 \<le> ?t ! i"
    using targets_of_facts(3) [of n nb i] i(1) arm_inv_nonneg [OF inv] by (simp add: pos_imp_zdiv_nonneg_iff)
  have step: "arm_step ?cmd s = Some ?s"
    using i(3) uneven nonneg by (cases "held s") (auto simp: arm_step_def)
  have inv': "arm_inv n nb ?s"
    using inv i(1) uneven nonneg
    by (cases "held s") (auto simp: arm_inv_def sum_list_upd nth_list_update)
  have "misplaced A ?t (stacks ?s) = misplaced A ?t (stacks s) - (2 * A i + 2)"
    using misplaced_update [of i "stacks s" A ?t ?b] i(1) len uneven by (auto split: if_splits)
  moreover have "potential A ?t ?s \<le> misplaced A ?t (stacks ?s) + A i"
    using potential_reached [OF spread inv' _ i(1)] i(3) by simp
  moreover have "potential A ?t s = misplaced A ?t (stacks s) - A i"
    using i(2,3) by (simp add: potential_def)
  ultimately show ?thesis
    using Solve_command [OF inv i(2)] i(3) step inv' by (intro exI [of _ ?cmd] exI [of _ ?s]) simp
qed

lemma arm_turn:
  assumes spread: "spread n A" and inv: "arm_inv n nb s" and "\<not> won s"
  shows "\<exists>cmd s'. Solve (claw s) (stacks s) (held s) = Ok cmd \<and> arm_step cmd s = Some s' \<and> arm_inv n nb s' \<and>
    potential A (targets_of n nb) s' \<le> potential A (targets_of n nb) s - 2"
proof -
  let ?t = "targets_of n nb"
  obtain i where i: "i < n" "next_stop ?t s = int i"
    and uneven: "if held s then stacks s ! i < ?t ! i else ?t ! i < stacks s ! i"
    using next_stop_exists [OF inv assms(3)] by blast
  have len: "length (stacks s) = n" "0 < n" using inv by (simp_all add: arm_inv_def)
  have nonneg: "0 \<le> ?t ! i"
    using targets_of_facts(3) [of n nb i] i(1) len arm_inv_nonneg [OF inv] by (simp add: pos_imp_zdiv_nonneg_iff)
  consider (right) "claw s < int i" | (left) "int i < claw s" | (here) "claw s = int i" by linarith
  then show ?thesis
  proof cases
    case right
    let ?s = "s\<lparr>claw := claw s + 1\<rparr>"
    have "arm_step RightCmd s = Some ?s" using right i len by (simp add: arm_step_def)
    moreover have "arm_inv n nb ?s" using inv right i by (auto simp: arm_inv_def)
    moreover have "potential A ?t ?s = potential A ?t s - 2"
      using right i next_stop_cong [of ?s s ?t] by (simp add: potential_def)
    ultimately show ?thesis using Solve_command [OF inv i(2)] right by auto
  next
    case left
    let ?s = "s\<lparr>claw := claw s - 1\<rparr>"
    have "arm_step LeftCmd s = Some ?s" using left by (simp add: arm_step_def)
    moreover have "arm_inv n nb ?s" using inv left by (auto simp: arm_inv_def)
    moreover have "potential A ?t ?s = potential A ?t s - 2"
      using left i next_stop_cong [of ?s s ?t] by (simp add: potential_def)
    ultimately show ?thesis using Solve_command [OF inv i(2)] left by auto
  next
    case here
    then show ?thesis using arm_at_stop [OF spread inv i] uneven by blast
  qed
qed

lemma potential_positive:
  assumes "spread n A" "arm_inv n nb s" "\<not> won s"
  shows "0 < potential A (targets_of n nb) s"
proof -
  obtain i where i: "i < n" "next_stop (targets_of n nb) s = int i" "stacks s ! i \<noteq> targets_of n nb ! i"
    using next_stop_exists [OF assms(2,3)] by (metis order_less_irrefl)
  have "length (stacks s) = n" using assms(2) by (simp add: arm_inv_def)
  then have "2 * A i + 2 \<le> misplaced A (targets_of n nb) (stacks s)"
    using misplaced_lower [of "stacks s" A i] assms(1) i by simp
  with spread_nonneg [OF assms(1) i(1)] have "A i < misplaced A (targets_of n nb) (stacks s)" by linarith
  then have "0 < misplaced A (targets_of n nb) (stacks s) + (2 * b - A i)" if "0 \<le> b" for b
    using that by linarith
  then show ?thesis using i(2) by (simp add: potential_def)
qed

lemma play_wins:
  "spread n A \<Longrightarrow> arm_inv n nb s \<Longrightarrow> potential A (targets_of n nb) s \<le> 2 * int k \<Longrightarrow> \<exists>m\<le>k. play k s = Some m"
proof (induction k arbitrary: s)
  case 0
  then show ?case using potential_positive [of n A nb s] by (cases "won s") auto
next
  case (Suc k)
  show ?case
  proof (cases "won s")
    case False
    obtain cmd s' where s': "Solve (claw s) (stacks s) (held s) = Ok cmd" "arm_step cmd s = Some s'"
      "arm_inv n nb s'" "potential A (targets_of n nb) s' \<le> potential A (targets_of n nb) s - 2"
      using arm_turn [OF Suc.prems(1,2) False] by blast
    with Suc.IH [OF Suc.prems(1) s'(3)] Suc.prems(3) obtain m where "m \<le> k" "play k s' = Some m" by auto
    with s' False show ?thesis by auto
  qed simp
qed

section \<open>Two hundred turns are enough\<close>

definition excess :: "int list \<Rightarrow> int list \<Rightarrow> int" where
  "excess bs t = (\<Sum>i<length bs. max 0 (bs ! i - t ! i))"

lemma sum_list_nth_int: "sum_list xs = (\<Sum>i<length xs. xs ! i :: int)"
  by (simp add: sum_list_sum_nth atLeast0LessThan)

lemma misplaced_excess:
  assumes "length bs = length t" "sum_list bs = sum_list t"
  shows "misplaced (\<lambda>i. a) t bs = 2 * excess bs t * (2 * a + 2)"
proof -
  have "\<bar>x\<bar> = 2 * max 0 x - x" for x :: int by simp
  then have "(\<Sum>i<length bs. \<bar>bs ! i - t ! i\<bar>) = (\<Sum>i<length bs. 2 * max 0 (bs ! i - t ! i) - (bs ! i - t ! i))"
    by (intro sum.cong refl) blast
  also have "\<dots> = 2 * excess bs t"
    using assms by (simp add: excess_def sum_subtractf sum_distrib_left sum_list_nth_int)
  finally show ?thesis by (simp add: misplaced_def flip: sum_distrib_right)
qed

lemma excess_bound:
  assumes "length bs = length t" "\<forall>i<length bs. 0 \<le> bs ! i \<and> 0 \<le> t ! i"
    and "J \<subseteq> {..<length bs}" "\<forall>j\<in>J. t ! j < bs ! j"
  shows "excess bs t \<le> sum_list bs - (\<Sum>j\<in>J. t ! j)"
proof -
  have "excess bs t \<le> (\<Sum>i<length bs. bs ! i - (if i \<in> J then t ! i else 0))"
    unfolding excess_def using assms(2,4) by (intro sum_mono) auto
  also have "\<dots> = sum_list bs - (\<Sum>i<length bs. if i \<in> J then t ! i else 0)"
    by (simp add: sum_subtractf sum_list_nth_int)
  also have "(\<Sum>i<length bs. if i \<in> J then t ! i else 0) = (\<Sum>j\<in>J. t ! j)"
    using assms(3) by (simp add: sum.inter_restrict [symmetric] Int_absorb1)
  finally show ?thesis .
qed

lemma excess_some:
  "excess bs t \<noteq> 0 \<Longrightarrow> \<exists>i<length bs. t ! i < bs ! i"
proof (rule ccontr)
  assume "excess bs t \<noteq> 0" "\<not> (\<exists>i<length bs. t ! i < bs ! i)"
  then have "max 0 (bs ! i - t ! i) = 0" if "i < length bs" for i using that by force
  with \<open>excess bs t \<noteq> 0\<close> show False by (simp add: excess_def)
qed

text \<open>All boxes out of place are on one stack: the distances from it count.\<close>

lemma distances_from:
  "s < 8 \<Longrightarrow> (\<Sum>i<8::nat. if i = s then 28 else 8 * \<bar>int i - int s\<bar> + 4) \<le> 280"
proof -
  assume "s < 8"
  then have "s \<in> {0, 1, 2, 3, 4, 5, 6, 7}" by auto
  then show ?thesis by (auto simp: numeral_eq_Suc)
qed

lemma misplaced_one_source:
  assumes "length bs = 8" "s < 8" "\<bar>bs ! s - t ! s\<bar> \<le> 14"
    and "\<forall>i<8. i \<noteq> s \<longrightarrow> \<bar>bs ! i - t ! i\<bar> \<le> 2"
  shows "misplaced (\<lambda>i. 2 * \<bar>int i - int s\<bar>) t bs \<le> 280"
proof -
  have "\<bar>bs ! i - t ! i\<bar> * (2 * (2 * \<bar>int i - int s\<bar>) + 2) \<le> (if i = s then 28 else 8 * \<bar>int i - int s\<bar> + 4)" if "i < 8" for i
  proof (cases "i = s")
    case False
    have "\<bar>bs ! i - t ! i\<bar> * (4 * \<bar>int i - int s\<bar> + 2) \<le> 2 * (4 * \<bar>int i - int s\<bar> + 2)"
      using assms(4) that False by (intro mult_right_mono) auto
    with False show ?thesis by simp
  qed (use assms(3) in simp)
  then have "misplaced (\<lambda>i. 2 * \<bar>int i - int s\<bar>) t bs \<le> (\<Sum>i<8::nat. if i = s then 28 else 8 * \<bar>int i - int s\<bar> + 4)"
    unfolding misplaced_def assms(1) by (intro sum_mono) auto
  with distances_from [OF assms(2)] show ?thesis by linarith
qed

lemma potential_bound:
  assumes "arm_inv n nb s" "\<not> won s" "spread n A"
    and "\<And>i. i < n \<Longrightarrow> next_stop (targets_of n nb) s = int i \<Longrightarrow> 2 * \<bar>claw s - int i\<bar> - A i \<le> b"
  shows "potential A (targets_of n nb) s \<le> misplaced A (targets_of n nb) (stacks s) + b"
  using next_stop_exists [OF assms(1,2)] assms(4) by (auto simp: potential_def)

lemma way_bound: "0 \<le> a \<Longrightarrow> a < m \<Longrightarrow> 0 \<le> b \<Longrightarrow> b < m \<Longrightarrow> 2 * \<bar>a - b\<bar> \<le> 2 * m - (2 :: int)"
proof -
  assume "0 \<le> a" "a < m" "0 \<le> b" "b < m"
  then have "\<bar>a - b\<bar> \<le> m - 1" by linarith
  moreover have "2 * x \<le> 2 * m - 2" if "x \<le> m - 1" for x using that by linarith
  ultimately show ?thesis by blast
qed

lemma way_triangle: "2 * \<bar>a - b\<bar> \<le> 2 * \<bar>a - c\<bar> + 2 * \<bar>b - (c :: int)\<bar>"
proof -
  have "\<bar>a - b\<bar> \<le> \<bar>a - c\<bar> + \<bar>b - c\<bar>" by linarith
  moreover have "2 * x \<le> 2 * y + 2 * z" if "x \<le> y + z" for x y z :: int using that by linarith
  ultimately show ?thesis by blast
qed

text \<open>
  With at most twelve boxes to move (fourteen on seven stacks) the longest ways are short enough; more
  than twelve on eight stacks must all come from one stack.
\<close>

lemma potential_few:
  assumes inv: "arm_inv n nb s" and "\<not> won s" "\<not> held s" "4 * int n * excess (stacks s) (targets_of n nb) + (int n - 1) \<le> 400"
  shows "spread n (\<lambda>i. int n - 1) \<and> potential (\<lambda>i. int n - 1) (targets_of n nb) s \<le> 400"
proof -
  let ?t = "targets_of n nb"
  have len: "length (stacks s) = length ?t" "sum_list (stacks s) = sum_list ?t"
    using inv targets_of_facts(1,2) [of n nb] arm_inv_nonneg [OF inv] assms(3) by (auto simp: arm_inv_def)
  have "2 * \<bar>int i - int j\<bar> \<le> 2 * int n - 2" if "i < n" "j < n" for i j
    using that by (intro way_bound) auto
  then have spread: "spread n (\<lambda>i. int n - 1)" by (force simp: spread_def)
  have "potential (\<lambda>i. int n - 1) ?t s \<le> misplaced (\<lambda>i. int n - 1) ?t (stacks s) + (int n - 1)"
  proof (rule potential_bound [OF inv assms(2) spread])
    fix i assume "i < n"
    then show "2 * \<bar>claw s - int i\<bar> - (int n - 1) \<le> int n - 1"
      using inv way_bound [of "claw s" "int n" "int i"] by (simp add: arm_inv_def)
  qed
  also have "misplaced (\<lambda>i. int n - 1) ?t (stacks s) = 4 * int n * excess (stacks s) ?t"
    by (simp add: misplaced_excess [OF len])
  finally show ?thesis using spread assms(4) by linarith
qed

lemma thick_targets:
  assumes "13 \<le> nb" "nb \<le> 16" "i < 8"
  shows "0 \<le> targets_of 8 nb ! i" "targets_of 8 nb ! i \<le> 2" "nb - targets_of 8 nb ! i \<le> 14"
    "j < 8 \<Longrightarrow> i \<noteq> j \<Longrightarrow> nb - (targets_of 8 nb ! i + targets_of 8 nb ! j) \<le> 12"
proof -
  have nb: "nb \<in> {13, 14, 15, 16}" using assms by auto
  have t: "targets_of 8 nb ! k = nb div 8 + (if int k < nb mod 8 then 1 else 0)" if "k < 8" for k
    using targets_of_facts(3) [of 8 nb k] assms(1) that by simp
  show "0 \<le> targets_of 8 nb ! i" "targets_of 8 nb ! i \<le> 2" "nb - targets_of 8 nb ! i \<le> 14"
    using nb t [OF assms(3)] by auto
  show "nb - (targets_of 8 nb ! i + targets_of 8 nb ! j) \<le> 12" if "j < 8" "i \<noteq> j"
    using nb t [OF assms(3)] t [OF that(1)] that assms(3) by auto
qed

lemma one_source:
  assumes inv: "arm_inv 8 nb s" and "\<not> held s" and nb: "nb \<le> 16"
    and many: "12 < excess (stacks s) (targets_of 8 nb)"
  obtains i where "i < 8" "\<forall>j<8. j \<noteq> i \<longrightarrow> \<bar>stacks s ! j - targets_of 8 nb ! j\<bar> \<le> 2"
    "\<bar>stacks s ! i - targets_of 8 nb ! i\<bar> \<le> 14"
proof -
  let ?t = "targets_of 8 nb" and ?bs = "stacks s"
  note nb0 = arm_inv_nonneg [OF inv]
  have len: "length ?bs = 8" "length ?t = 8" "sum_list ?bs = nb"
    and bs: "\<forall>i<8. 0 \<le> ?bs ! i"
    using inv targets_of_facts(1) [of 8 nb] nb0 assms(2) by (auto simp: arm_inv_def)
  have t0: "0 \<le> ?t ! i" if "i < 8" for i using targets_of_facts(3) [of 8 nb i] nb0 that by simp
  have bound: "excess ?bs ?t \<le> nb - (\<Sum>j\<in>J. ?t ! j)" if "J \<subseteq> {..<8}" "\<forall>j\<in>J. ?t ! j < ?bs ! j" for J
    using excess_bound [of ?bs ?t J] that len bs t0 by simp
  from bound [of "{}"] many have "13 \<le> nb" by simp
  note t = thick_targets [OF this nb]
  obtain i where i: "i < 8" "?t ! i < ?bs ! i" using excess_some [of ?bs ?t] many len by auto
  have "?bs ! j \<le> ?t ! j" if "j < 8" "j \<noteq> i" for j
    using bound [of "{i, j}"] t(4) [of i j] that i many by force
  then have others: "\<forall>j<8. j \<noteq> i \<longrightarrow> \<bar>?bs ! j - ?t ! j\<bar> \<le> 2" using t(2) bs by force
  have "max 0 (?bs ! i - ?t ! i) \<le> excess ?bs ?t"
    unfolding excess_def using i len by (intro member_le_sum) auto
  moreover have "excess ?bs ?t \<le> nb - ?t ! i" using bound [of "{i}"] i by simp
  ultimately have "\<bar>?bs ! i - ?t ! i\<bar> \<le> 14" using t(3) [OF i(1)] i(2) by linarith
  then show thesis using that [OF i(1) others] by blast
qed

lemma potential_one_source:
  assumes inv: "arm_inv 8 nb s" and "\<not> won s" "\<not> held s" and nb: "nb \<le> 16"
    and many: "12 < excess (stacks s) (targets_of 8 nb)"
  shows "\<exists>A. spread 8 A \<and> potential A (targets_of 8 nb) s \<le> 400"
proof -
  let ?t = "targets_of 8 nb" and ?bs = "stacks s"
  obtain i where i: "i < 8" "\<forall>j<8. j \<noteq> i \<longrightarrow> \<bar>?bs ! j - ?t ! j\<bar> \<le> 2" "\<bar>?bs ! i - ?t ! i\<bar> \<le> 14"
    by (rule one_source [OF inv assms(3) nb many])
  have "length ?bs = 8" using inv by (simp add: arm_inv_def)
  with i have m: "misplaced (\<lambda>j. 2 * \<bar>int j - int i\<bar>) ?t ?bs \<le> 280"
    using misplaced_one_source [of ?bs i ?t] by simp
  have spread: "spread 8 (\<lambda>j. 2 * \<bar>int j - int i\<bar>)" by (simp add: spread_def way_triangle)
  have "potential (\<lambda>j. 2 * \<bar>int j - int i\<bar>) ?t s \<le> misplaced (\<lambda>j. 2 * \<bar>int j - int i\<bar>) ?t ?bs + 14"
  proof (rule potential_bound [OF inv assms(2) spread])
    fix j :: nat assume "j < 8"
    then have "2 * \<bar>claw s - int j\<bar> \<le> 14"
      using inv way_bound [of "claw s" 8 "int j"] by (simp add: arm_inv_def)
    then show "2 * \<bar>claw s - int j\<bar> - 2 * \<bar>int j - int i\<bar> \<le> 14"
      using abs_ge_zero [of "int j - int i"] by (metis diff_mono diff_zero mult_2 add_nonneg_nonneg)
  qed
  with m spread show ?thesis by (intro exI conjI) auto
qed

lemma excess_seven:
  assumes inv: "arm_inv n nb s" and "\<not> held s" "nb \<le> 16" "n \<le> 7"
  shows "4 * int n * excess (stacks s) (targets_of n nb) + (int n - 1) \<le> 400"
proof -
  let ?t = "targets_of n nb" and ?bs = "stacks s"
  note nb0 = arm_inv_nonneg [OF inv]
  have n: "0 < n" and len: "length ?bs = n" "length ?t = n" "sum_list ?bs = nb" and bs: "\<forall>i<n. 0 \<le> ?bs ! i"
    using inv targets_of_facts(1) [of n nb] nb0 assms(2) by (auto simp: arm_inv_def)
  have t: "?t ! i = nb div int n + (if int i < nb mod int n then 1 else 0)" if "i < n" for i
    using targets_of_facts(3) [of n nb i] nb0 that n by simp
  have pos: "\<forall>i<length ?bs. 0 \<le> ?bs ! i \<and> 0 \<le> ?t ! i"
    using bs len t nb0 n by (auto simp: pos_imp_zdiv_nonneg_iff)
  have bound: "excess ?bs ?t \<le> nb - (\<Sum>j\<in>J. ?t ! j)" if "J \<subseteq> {..<n}" "\<forall>j\<in>J. ?t ! j < ?bs ! j" for J
    using excess_bound [of ?bs ?t J] that len pos by simp
  from bound [of "{}"] assms(3) have e16: "excess ?bs ?t \<le> 16" by simp
  have e0: "0 \<le> excess ?bs ?t" by (simp add: excess_def sum_nonneg)
  show ?thesis
  proof (cases "n = 7")
    case True
    have "excess ?bs ?t \<le> 14"
    proof (cases "excess ?bs ?t = 0")
      case False
      then obtain i where "i < n" "?t ! i < ?bs ! i" using excess_some len by metis
      with bound [of "{i}"] t [of i] have "excess ?bs ?t \<le> nb - nb div 7" using True by (auto split: if_splits)
      then show ?thesis using assms(3) by linarith
    qed simp
    with True show ?thesis by simp
  next
    case False
    with assms(4) have "int n \<le> 6" by simp
    then have "4 * int n * excess ?bs ?t \<le> 24 * excess ?bs ?t" using e0 by (intro mult_right_mono) auto
    with e16 \<open>int n \<le> 6\<close> show ?thesis by linarith
  qed
qed

text \<open>
  C15: from every start that the rules allow (two to eight stacks, up to sixteen boxes, an empty claw
  over any stack), following \<open>Solve\<close> wins: every command is valid, and the stacks are level within the
  two hundred turns.
\<close>

theorem leveling_wins:
  assumes "2 \<le> length boxes" "length boxes \<le> 8" and "\<forall>b\<in>set boxes. 0 \<le> b" and "sum_list boxes \<le> 16"
    and "0 \<le> pos" "pos < int (length boxes)"
  shows "\<exists>m\<le>200. play 200 \<lparr>claw = pos, stacks = boxes, held = False\<rparr> = Some m"
proof -
  let ?s = "\<lparr>claw = pos, stacks = boxes, held = False\<rparr>" and ?n = "length boxes" and ?nb = "sum_list boxes"
  have inv: "arm_inv ?n ?nb ?s" using assms by (auto simp: arm_inv_def)
  show ?thesis
  proof (cases "won ?s")
    case True
    then show ?thesis by (intro exI [of _ 0]) (simp add: numeral_eq_Suc)
  next
    case False
    have "\<exists>A. spread ?n A \<and> potential A (targets_of ?n ?nb) ?s \<le> 400"
    proof (cases "?n = 8 \<and> 12 < excess boxes (targets_of ?n ?nb)")
      case True
      then show ?thesis using potential_one_source [of ?nb ?s] inv False assms(4)
        by (metis arm.select_convs(2) arm.select_convs(3))
    next
      case few: False
      have "4 * int ?n * excess boxes (targets_of ?n ?nb) + (int ?n - 1) \<le> 400"
        using few excess_seven [OF inv] assms(2,4) by (cases "?n = 8") auto
      then show ?thesis using potential_few [OF inv False] by auto
    qed
    then show ?thesis using play_wins [OF _ inv, of _ 200] by auto
  qed
qed

theorem leveling_wins_witness:
  "\<exists>m\<le>200. play 200 \<lparr>claw = 3, stacks = [0, 9, 0, 0, 7], held = False\<rparr> = Some m"
  by (rule leveling_wins) simp_all

end
