(* ===== verification/ContainerHeap.thy ===== *)
theory ContainerHeap
  imports HeapCore
begin

text \<open>
  Go's \<open>container/heap\<close>, which the task scheduler and the payment router use: the functions work on
  any state through \<open>Len\<close>, \<open>Less\<close>, \<open>Swap\<close>, \<open>Push\<close> and \<open>Pop\<close>. The locales are the two contracts of that
  interface, and the lemmas in them carry the sifts of the library to the ones of HeapCore.
\<close>

section \<open>The library's functions\<close>

function heap_up :: "('s \<Rightarrow> nat \<Rightarrow> nat \<Rightarrow> bool) \<Rightarrow> ('s \<Rightarrow> nat \<Rightarrow> nat \<Rightarrow> 's) \<Rightarrow> 's \<Rightarrow> nat \<Rightarrow> 's" where
  "heap_up Less Swap h j =
     (let i = (j - 1) div 2
      in if i = j \<or> \<not> Less h j i then h else heap_up Less Swap (Swap h i j) i)"
  by pat_completeness auto
termination by (relation "measure (\<lambda>(Less, Swap, h, j). j)") auto

text \<open>\<open>down\<close> gives the heap and the final position; the library returns whether it is beyond the start.\<close>

function heap_down :: "('s \<Rightarrow> nat \<Rightarrow> nat \<Rightarrow> bool) \<Rightarrow> ('s \<Rightarrow> nat \<Rightarrow> nat \<Rightarrow> 's) \<Rightarrow> nat \<Rightarrow> 's \<Rightarrow> nat \<Rightarrow> 's \<times> nat" where
  "heap_down Less Swap n h i =
     (let j1 = 2 * i + 1
      in if n \<le> j1 then (h, i)
         else let j2 = j1 + 1; j = (if j2 < n \<and> Less h j2 j1 then j2 else j1)
              in if \<not> Less h j i then (h, i) else heap_down Less Swap n (Swap h i j) j)"
  by pat_completeness auto
termination by (relation "measure (\<lambda>(Less, Swap, n, h, i). n - i)") auto

declare heap_up.simps [simp del] heap_down.simps [simp del]

fun heap_Init_loop :: "('s \<Rightarrow> nat \<Rightarrow> nat \<Rightarrow> bool) \<Rightarrow> ('s \<Rightarrow> nat \<Rightarrow> nat \<Rightarrow> 's) \<Rightarrow> nat \<Rightarrow> nat \<Rightarrow> 's \<Rightarrow> 's" where
  "heap_Init_loop Less Swap n 0 h = h"
| "heap_Init_loop Less Swap n (Suc i) h = heap_Init_loop Less Swap n i (fst (heap_down Less Swap n h i))"

definition heap_Init :: "('s \<Rightarrow> nat) \<Rightarrow> ('s \<Rightarrow> nat \<Rightarrow> nat \<Rightarrow> bool) \<Rightarrow> ('s \<Rightarrow> nat \<Rightarrow> nat \<Rightarrow> 's) \<Rightarrow> 's \<Rightarrow> 's" where
  "heap_Init Len Less Swap h = heap_Init_loop Less Swap (Len h) (Len h div 2) h"

definition heap_Push :: "('s \<Rightarrow> nat) \<Rightarrow> ('s \<Rightarrow> nat \<Rightarrow> nat \<Rightarrow> bool) \<Rightarrow> ('s \<Rightarrow> nat \<Rightarrow> nat \<Rightarrow> 's) \<Rightarrow> ('s \<Rightarrow> 'x \<Rightarrow> 's) \<Rightarrow>
    's \<Rightarrow> 'x \<Rightarrow> 's" where
  "heap_Push Len Less Swap Push h x = (let h = Push h x in heap_up Less Swap h (Len h - 1))"

definition heap_Pop :: "('s \<Rightarrow> nat) \<Rightarrow> ('s \<Rightarrow> nat \<Rightarrow> nat \<Rightarrow> bool) \<Rightarrow> ('s \<Rightarrow> nat \<Rightarrow> nat \<Rightarrow> 's) \<Rightarrow> ('s \<Rightarrow> 'x \<times> 's) \<Rightarrow>
    's \<Rightarrow> 'x \<times> 's" where
  "heap_Pop Len Less Swap Pop h =
     (let n = Len h - 1; h = Swap h 0 n; h = fst (heap_down Less Swap n h 0) in Pop h)"

text \<open>The heap when \<open>Pop\<close> calls the client's \<open>Pop\<close>.\<close>

definition heap_sunk :: "('s \<Rightarrow> nat) \<Rightarrow> ('s \<Rightarrow> nat \<Rightarrow> nat \<Rightarrow> bool) \<Rightarrow> ('s \<Rightarrow> nat \<Rightarrow> nat \<Rightarrow> 's) \<Rightarrow> 's \<Rightarrow> 's" where
  "heap_sunk Len Less Swap h =
     (let n = Len h - 1; h = Swap h 0 n in fst (heap_down Less Swap n h 0))"

lemma heap_Pop_sunk: "heap_Pop Len Less Swap Pop h = Pop (heap_sunk Len Less Swap h)"
  by (simp add: heap_Pop_def heap_sunk_def Let_def)

definition heap_Fix :: "('s \<Rightarrow> nat) \<Rightarrow> ('s \<Rightarrow> nat \<Rightarrow> nat \<Rightarrow> bool) \<Rightarrow> ('s \<Rightarrow> nat \<Rightarrow> nat \<Rightarrow> 's) \<Rightarrow> 's \<Rightarrow> nat \<Rightarrow> 's" where
  "heap_Fix Len Less Swap h i =
     (case heap_down Less Swap (Len h) h i of (h', i') \<Rightarrow> if i < i' then h' else heap_up Less Swap h' i)"

section \<open>The contract of Less and Swap\<close>

lemma swap_at_commute: "swap_at xs i j = swap_at xs j i"
  by (cases "i = j") (simp_all add: swap_at_def list_update_swap)

lemma heap_butlast: "heap_from lt 0 (length xs - 1) xs \<Longrightarrow> is_heap lt (butlast xs)"
  using heap_from_take [of "length xs - 1" xs lt 0] by (simp add: butlast_conv_take)

lemma hole_down_cong:
  "hole_down lt lo n k xs \<Longrightarrow> (\<And>j. j < n \<Longrightarrow> xs ! j = ys ! j) \<Longrightarrow> hole_down lt lo n k ys"
  unfolding hole_down_def
proof (intro conjI allI impI; elim conjE)
  fix j assume eq: "\<And>j. j < n \<Longrightarrow> xs ! j = ys ! j" and j: "j < n" "0 < j"
  note p = eq [OF parent_less_trans [OF j(1)]] eq [OF j(1)]
  { assume "lo \<le> parent j" "parent j \<noteq> k"
      "\<forall>j<n. 0 < j \<longrightarrow> lo \<le> parent j \<longrightarrow> parent j \<noteq> k \<longrightarrow> \<not> lt (xs ! j) (xs ! parent j)"
    with j p show "\<not> lt (ys ! j) (ys ! parent j)" by metis }
  { assume k: "parent j = k" "0 < k" "lo \<le> parent k"
      "0 < k \<longrightarrow> lo \<le> parent k \<longrightarrow> (\<forall>j<n. 0 < j \<longrightarrow> parent j = k \<longrightarrow> \<not> lt (xs ! j) (xs ! parent k))"
    have "parent k < n" using j(1) k(1) parent_less_trans by blast
    with j p k eq show "\<not> lt (ys ! j) (ys ! parent k)" by metis }
qed

locale heap_order = strict_weak lt
  for lt :: "'a \<Rightarrow> 'a \<Rightarrow> bool" +
  fixes Less :: "'s \<Rightarrow> nat \<Rightarrow> nat \<Rightarrow> bool"
    and Swap :: "'s \<Rightarrow> nat \<Rightarrow> nat \<Rightarrow> 's"
    and view :: "'s \<Rightarrow> 'a list"
    and ok :: "'s \<Rightarrow> bool"
  assumes Less_view: "ok h \<Longrightarrow> i < length (view h) \<Longrightarrow> j < length (view h) \<Longrightarrow>
      Less h i j \<longleftrightarrow> lt (view h ! i) (view h ! j)"
    and Swap_view: "ok h \<Longrightarrow> i < length (view h) \<Longrightarrow> j < length (view h) \<Longrightarrow> view (Swap h i j) = swap_at (view h) i j"
    and Swap_ok: "ok h \<Longrightarrow> i < length (view h) \<Longrightarrow> j < length (view h) \<Longrightarrow> ok (Swap h i j)"
begin

lemma heap_up_view:
  "ok h \<Longrightarrow> j < length (view h) \<Longrightarrow>
   view (heap_up Less Swap h j) = sift_up lt (view h) j \<and> ok (heap_up Less Swap h j)"
proof (induction j arbitrary: h rule: less_induct)
  case (less j)
  let ?i = "parent j"
  have i: "?i = (j - 1) div 2" "?i < length (view h)"
    using less.prems(2) parent_less_trans by (auto simp: parent_def)
  show ?case
  proof (cases "0 < j \<and> lt (view h ! j) (view h ! ?i)")
    case True
    then have step: "heap_up Less Swap h j = heap_up Less Swap (Swap h ?i j) ?i"
      using less.prems i Less_view parent_less [of j] by (subst heap_up.simps) (simp add: Let_def)
    have "sift_up lt (view h) j = sift_up lt (swap_at (view h) ?i j) ?i"
      using True by (subst sift_up.simps) (simp add: swap_at_commute)
    with less.IH [of ?i "Swap h ?i j"] show ?thesis
      using True less.prems i(2) by (simp add: step Swap_view Swap_ok parent_less)
  next
    case False
    then have "heap_up Less Swap h j = h"
      using less.prems i Less_view by (subst heap_up.simps) (auto simp: Let_def)
    moreover have "sift_up lt (view h) j = view h" using False by (subst sift_up.simps) (simp only: if_False)
    ultimately show ?thesis using less.prems by simp
  qed
qed

text \<open>The library first chooses the lesser child, then compares it with the parent.\<close>

lemma sift_child_library:
  "sift_child lt n xs i =
   (let j1 = 2 * i + 1; j = (if j1 + 1 < n \<and> lt (xs ! (j1 + 1)) (xs ! j1) then j1 + 1 else j1)
    in if n \<le> j1 \<or> \<not> lt (xs ! j) (xs ! i) then i else j)"
  using trans [of "xs ! (2 * i + 2)" "xs ! (2 * i + 1)" "xs ! i"]
    neg_trans [of "xs ! (2 * i + 2)" "xs ! (2 * i + 1)" "xs ! i"]
  by (auto simp: sift_child_def Let_def)

lemma heap_down_view:
  "ok h \<Longrightarrow> n \<le> length (view h) \<Longrightarrow> i < length (view h) \<Longrightarrow>
   view (fst (heap_down Less Swap n h i)) = sift_down lt n (view h) i \<and> ok (fst (heap_down Less Swap n h i)) \<and>
   (snd (heap_down Less Swap n h i) = i \<longrightarrow> fst (heap_down Less Swap n h i) = h) \<and>
   i \<le> snd (heap_down Less Swap n h i) \<and>
   (snd (heap_down Less Swap n h i) = i \<longleftrightarrow> sift_child lt n (view h) i = i)"
proof (induction "n - i" arbitrary: h i rule: less_induct)
  case less
  let ?c = "sift_child lt n (view h) i"
  show ?case
  proof (cases "?c = i")
    case True
    then have "heap_down Less Swap n h i = (h, i)"
      using less.prems Less_view sift_child_library [of n "view h" i]
      by (subst heap_down.simps) (auto simp: Let_def split: if_splits)
    moreover have "sift_down lt n (view h) i = view h" using True by (subst sift_down.simps) simp
    ultimately show ?thesis using less.prems True by simp
  next
    case False
    then have c: "i < ?c" "?c < n" using sift_child_range [of lt n "view h" i] by auto
    have step: "heap_down Less Swap n h i = heap_down Less Swap n (Swap h i ?c) ?c"
      using less.prems Less_view sift_child_library [of n "view h" i] False
      by (subst heap_down.simps) (auto simp: Let_def split: if_splits)
    have "sift_down lt n (view h) i = sift_down lt n (swap_at (view h) i ?c) ?c"
      using False by (subst sift_down.simps) (simp add: Let_def)
    moreover have swapped: "ok (Swap h i ?c)" "view (Swap h i ?c) = swap_at (view h) i ?c"
      using less.prems c by (auto simp: Swap_ok Swap_view)
    moreover have "n - ?c < n - i" "n \<le> length (view (Swap h i ?c))" "?c < length (view (Swap h i ?c))"
      using less.prems c swapped(2) by auto
    note IH = less.hyps [OF this(1) swapped(1) this(2,3)]
    ultimately show ?thesis using IH c(1) False by (simp add: step)
  qed
qed

lemmas heap_down_facts =
  heap_down_view [THEN conjunct1] heap_down_view [THEN conjunct2, THEN conjunct1]

text \<open>\<open>Fix\<close> after the key at \<open>i\<close> got less.\<close>

lemma heap_Fix_decreased:
  assumes "ok h" and "i < length (view h)" and Len: "Len h = length (view h)"
    and "\<forall>j<length (view h). 0 < j \<longrightarrow> j \<noteq> i \<longrightarrow> parent j \<noteq> i \<longrightarrow> \<not> lt (view h ! j) (view h ! parent j)"
    and "\<forall>j<length (view h). 0 < j \<longrightarrow> parent j = i \<longrightarrow> \<not> lt (view h ! j) (view h ! i)"
    and "0 < i \<longrightarrow> (\<forall>j<length (view h). 0 < j \<longrightarrow> parent j = i \<longrightarrow> \<not> lt (view h ! j) (view h ! parent i))"
  shows "ok (heap_Fix Len Less Swap h i) \<and> is_heap lt (view (heap_Fix Len Less Swap h i)) \<and>
    mset (view (heap_Fix Len Less Swap h i)) = mset (view h)"
proof -
  let ?n = "length (view h)"
  have "sift_child lt ?n (view h) i = i"
  proof (rule ccontr)
    assume c: "sift_child lt ?n (view h) i \<noteq> i"
    then have "lt (view h ! sift_child lt ?n (view h) i) (view h ! i)" by (rule sift_child_lt)
    moreover have "sift_child lt ?n (view h) i < ?n" "0 < sift_child lt ?n (view h) i"
      using c sift_child_range [of lt ?n "view h" i] by auto
    ultimately show False using assms(5) sift_child_parent [OF c] by blast
  qed
  then have fix_up: "heap_Fix Len Less Swap h i = heap_up Less Swap h i"
    using heap_down_view [OF assms(1) order_refl assms(2)] by (auto simp: heap_Fix_def Len split_beta)
  have "hole_up lt ?n i (view h)"
    unfolding hole_up_def using assms(4-6) by metis
  then have "is_heap lt (sift_up lt (view h) i)"
    using heap_sift_up [of ?n i "view h"] assms(2) by simp
  then show ?thesis using heap_up_view [OF assms(1,2)] assms(2) by (simp add: fix_up)
qed

text \<open>\<open>Push\<close> after the new element has been appended, and \<open>Pop\<close> before the last one is taken off.\<close>

lemma heap_up_last:
  assumes "ok h" and "view h = xs @ [x]" and "is_heap lt xs"
  shows "ok (heap_up Less Swap h (length xs)) \<and> is_heap lt (view (heap_up Less Swap h (length xs))) \<and>
    mset (view (heap_up Less Swap h (length xs))) = add_mset x (mset xs)"
  using heap_up_view [OF assms(1), of "length xs"] heap_push [OF assms(3), of x] by (simp add: assms(2))

lemma heap_sunk_view:
  assumes "ok h" "is_heap lt (view h)" "view h \<noteq> []" and Len: "Len h = length (view h)"
  defines "h2 \<equiv> heap_sunk Len Less Swap h"
  obtains xs where "ok h2" "view h2 = xs @ [view h ! 0]" "is_heap lt xs" "mset (view h) = add_mset (view h ! 0) (mset xs)"
proof -
  let ?n = "length (view h) - 1"
  have n: "Len h - 1 = ?n" "?n < length (view h)" "0 < length (view h)" using assms by (auto simp: Len)
  let ?h1 = "Swap h 0 ?n"
  have h1: "ok ?h1" "view ?h1 = swap_at (view h) 0 ?n" using assms(1) n(2,3) by (simp_all add: Swap_ok Swap_view)
  have len1: "?n \<le> length (view ?h1)" "0 < length (view ?h1)" using h1(2) n(3) by simp_all
  have h2: "ok h2" "view h2 = sift_down lt ?n (swap_at (view h) 0 ?n) 0"
    using heap_down_facts [OF h1(1) len1] unfolding h1(2) h2_def heap_sunk_def Let_def n(1) by blast+
  have "hole_down lt 0 ?n 0 ((view h)[0 := v])" for v
    using heap_hole_root [of "length (view h)" "view h" ?n v] assms(2) by simp
  then have "hole_down lt 0 ?n 0 (swap_at (view h) 0 ?n)"
    by (rule hole_down_cong [of lt 0 ?n 0 "(view h)[0 := view h ! ?n]"]) (auto simp: swap_at_def)
  then have heap: "heap_from lt 0 ?n (view h2)"
    using heap_sift_down [of 0 ?n 0 "swap_at (view h) 0 ?n"] h2(2) by simp
  have len2: "length (view h2) = length (view h)" unfolding h2(2) by simp
  then have ne2: "view h2 \<noteq> []" using assms(3) by auto
  have "drop ?n (view h2) = drop ?n (swap_at (view h) 0 ?n)" unfolding h2(2) by (simp add: drop_sift_down)
  then have "view h2 ! ?n = view h ! 0"
    using n(2,3) len2 by (metis Cons_nth_drop_Suc length_swap_at list.inject nth_swap_at)
  then have last2: "last (view h2) = view h ! 0" using len2 ne2 by (simp add: last_conv_nth)
  have "is_heap lt (butlast (view h2))"
    by (rule heap_butlast) (use heap len2 in simp)
  moreover have "mset (view h2) = mset (view h)" unfolding h2(2) using n by simp
  moreover have split: "view h2 = butlast (view h2) @ [view h ! 0]" using append_butlast_last_id [OF ne2] last2 by simp
  ultimately show thesis
    using that [OF h2(1) split] by (metis mset_append mset.simps union_mset_add_mset_right add.right_neutral)
qed

end

section \<open>The contract of the whole interface\<close>

locale heap_interface = heap_order lt Less Swap view ok
  for lt :: "'a \<Rightarrow> 'a \<Rightarrow> bool"
    and Less :: "'s \<Rightarrow> nat \<Rightarrow> nat \<Rightarrow> bool"
    and Swap :: "'s \<Rightarrow> nat \<Rightarrow> nat \<Rightarrow> 's"
    and view :: "'s \<Rightarrow> 'a list"
    and ok :: "'s \<Rightarrow> bool" +
  fixes Len :: "'s \<Rightarrow> nat"
    and Push :: "'s \<Rightarrow> 'a \<Rightarrow> 's"
    and Pop :: "'s \<Rightarrow> 'a \<times> 's"
  assumes Len_view: "ok h \<Longrightarrow> Len h = length (view h)"
    and Push_view: "ok h \<Longrightarrow> view (Push h x) = view h @ [x]"
    and Push_ok: "ok h \<Longrightarrow> ok (Push h x)"
    and Pop_view: "ok h \<Longrightarrow> view h \<noteq> [] \<Longrightarrow> fst (Pop h) = last (view h) \<and> view (snd (Pop h)) = butlast (view h)"
    and Pop_ok: "ok h \<Longrightarrow> view h \<noteq> [] \<Longrightarrow> ok (snd (Pop h))"
begin

definition pop_if :: "'s \<Rightarrow> 'a option \<times> 's" where
  "pop_if h = (if Len h = 0 then (None, h) else map_prod Some id (heap_Pop Len Less Swap Pop h))"

lemma heap_Push_view:
  assumes "ok h" "is_heap lt (view h)"
  shows "ok (heap_Push Len Less Swap Push h x) \<and> is_heap lt (view (heap_Push Len Less Swap Push h x)) \<and>
    mset (view (heap_Push Len Less Swap Push h x)) = add_mset x (mset (view h))"
  using heap_up_last [OF Push_ok [OF assms(1)] Push_view [OF assms(1)] assms(2)] assms(1)
  by (simp add: heap_Push_def Let_def Len_view Push_ok Push_view)

lemma heap_Pop_view:
  assumes "ok h" "is_heap lt (view h)" "view h \<noteq> []"
  shows "\<exists>h'. heap_Pop Len Less Swap Pop h = (view h ! 0, h') \<and> ok h' \<and> is_heap lt (view h') \<and>
    mset (view h) = add_mset (view h ! 0) (mset (view h'))"
proof -
  let ?h = "heap_sunk Len Less Swap h"
  obtain xs where "ok ?h" "view ?h = xs @ [view h ! 0]" "is_heap lt xs" "mset (view h) = add_mset (view h ! 0) (mset xs)"
    by (rule heap_sunk_view [where Len = Len, OF assms Len_view [OF assms(1)]])
  then show ?thesis
    using Pop_view [of ?h] Pop_ok [of ?h] by (intro exI [of _ "snd (Pop ?h)"]) (auto simp: heap_Pop_sunk prod_eq_iff)
qed

sublocale queue: priority_queue lt "\<lambda>x h. heap_Push Len Less Swap Push h x" pop_if "\<lambda>h. mset (view h)"
  "\<lambda>h. ok h \<and> is_heap lt (view h)"
proof
  fix h x
  assume h: "ok h \<and> is_heap lt (view h)"
  show "ok (heap_Push Len Less Swap Push h x) \<and> is_heap lt (view (heap_Push Len Less Swap Push h x))"
    and "mset (view (heap_Push Len Less Swap Push h x)) = add_mset x (mset (view h))"
    using heap_Push_view h by auto
  show "pop_if h = (None, h)" if "mset (view h) = {#}" using that h by (simp add: pop_if_def Len_view)
  show "\<exists>x q'. pop_if h = (Some x, q') \<and> (ok q' \<and> is_heap lt (view q')) \<and>
      mset (view h) = add_mset x (mset (view q')) \<and> (\<forall>y\<in>#mset (view h). \<not> lt y x)" if "mset (view h) \<noteq> {#}"
  proof -
    obtain h' where "heap_Pop Len Less Swap Pop h = (view h ! 0, h')" "ok h'" "is_heap lt (view h')"
      "mset (view h) = add_mset (view h ! 0) (mset (view h'))"
      using heap_Pop_view h \<open>mset (view h) \<noteq> {#}\<close> by auto
    moreover have "\<forall>y\<in>#mset (view h). \<not> lt y (view h ! 0)"
      using heap_root_least [of "length (view h)" "view h"] h by (metis in_set_conv_nth set_mset_mset)
    moreover have "pop_if h = map_prod Some id (heap_Pop Len Less Swap Pop h)"
      using h that by (simp add: pop_if_def Len_view)
    ultimately show ?thesis by (intro exI [of _ "view h ! 0"] exI [of _ h']) simp
  qed
qed

end

end
