(* ===== verification/TaskScheduling.thy ===== *)
theory TaskScheduling
  imports ContainerHeap
begin

text \<open>
  The task scheduler of \<open>src/practice/task_scheduler.go\<close>. The heap of tasks is an instance of the
  interface of ContainerHeap. The mutex makes every locked section one step; \<open>Run\<close> is a labelled
  step relation whose program counter has a place between every unlock and the next statement, where
  the calls of other goroutines can come in.

  A \<open>time.Time\<close> is an instant in nanoseconds; the clock is the monotonic clock \<open>time.Until\<close> and the
  timer read. A callback is a value of an arbitrary type; its effects on the scheduler are the steps of
  other callers while it runs.
\<close>

section \<open>Tasks and their heap\<close>

record 'f Task =
  ID :: string
  ExecuteAt :: int
  Priority :: nat
  Callback :: "'f option"

type_synonym 'f TaskHeap = "'f Task list"

definition TaskHeap_Len :: "'f TaskHeap \<Rightarrow> nat" where
  "TaskHeap_Len h = length h"

definition earlier :: "'f Task \<Rightarrow> 'f Task \<Rightarrow> bool" where
  "earlier a b \<longleftrightarrow> ExecuteAt a < ExecuteAt b \<or> ExecuteAt a = ExecuteAt b \<and> Priority a < Priority b"

definition TaskHeap_Less :: "'f TaskHeap \<Rightarrow> nat \<Rightarrow> nat \<Rightarrow> bool" where
  "TaskHeap_Less h i j = (let a = h ! i; b = h ! j in earlier a b)"

definition TaskHeap_Swap :: "'f TaskHeap \<Rightarrow> nat \<Rightarrow> nat \<Rightarrow> 'f TaskHeap" where
  "TaskHeap_Swap h i j = h[i := h ! j, j := h ! i]"

definition TaskHeap_Push :: "'f TaskHeap \<Rightarrow> 'f Task \<Rightarrow> 'f TaskHeap" where
  "TaskHeap_Push h t = h @ [t]"

text \<open>Only called through \<open>heap.Pop\<close>, on a heap that its callers have found not to be empty.\<close>

definition TaskHeap_Pop :: "'f TaskHeap \<Rightarrow> 'f Task \<times> 'f TaskHeap" where
  "TaskHeap_Pop oldTH = (let n = length oldTH; t = oldTH ! (n - 1) in (t, take (n - 1) oldTH))"

abbreviation push_task :: "'f TaskHeap \<Rightarrow> 'f Task \<Rightarrow> 'f TaskHeap" where
  "push_task \<equiv> heap_Push TaskHeap_Len TaskHeap_Less TaskHeap_Swap TaskHeap_Push"

abbreviation pop_task :: "'f TaskHeap \<Rightarrow> 'f Task \<times> 'f TaskHeap" where
  "pop_task \<equiv> heap_Pop TaskHeap_Len TaskHeap_Less TaskHeap_Swap TaskHeap_Pop"

interpretation task_heap: heap_interface earlier TaskHeap_Less TaskHeap_Swap "\<lambda>h. h" "\<lambda>h. True"
  TaskHeap_Len TaskHeap_Push TaskHeap_Pop
  by unfold_locales
    (auto simp: earlier_def TaskHeap_Less_def TaskHeap_Swap_def TaskHeap_Len_def TaskHeap_Push_def
      TaskHeap_Pop_def swap_at_def last_conv_nth butlast_conv_take Let_def)

section \<open>The operations of the scheduler\<close>

text \<open>
  Where \<open>Run\<close> is: at the head of the loop; past the unlock of an empty heap; in the select for a
  signal; past the unlock with the delay to the next task; at the call of \<open>ExecuteNextTask\<close>; past
  \<open>NewTimer\<close>; in the select with the timer; in a callback; returned.
\<close>

datatype place =
    Head
  | Idle
  | WaitSignal
  | Peeked int
  | Due
  | Armed int
  | WaitTimer int
  | InCallback
  | Returned

record 'f TaskScheduler =
  tasks :: "'f TaskHeap"
  senders :: nat
  runner :: place
  now :: int
  cancelled :: bool

definition NewTaskScheduler :: "int \<Rightarrow> 'f TaskScheduler" where
  "NewTaskScheduler c =
     \<lparr>tasks = heap_Init TaskHeap_Len TaskHeap_Less TaskHeap_Swap [], senders = 0, runner = Head, now = c, cancelled = False\<rparr>"

definition Scheduler_Len :: "'f TaskScheduler \<Rightarrow> nat" where
  "Scheduler_Len ts = TaskHeap_Len (tasks ts)"

text \<open>\<open>AddTask\<close>: the locked section, then the send that is dropped unless \<open>Run\<close> is in a select.\<close>

definition AddTask :: "'f Task \<Rightarrow> 'f TaskScheduler \<Rightarrow> 'f TaskScheduler" where
  "AddTask t ts = ts\<lparr>tasks := push_task (tasks ts) t, senders := senders ts + 1\<rparr>"

definition AddTask_signal :: "'f TaskScheduler \<Rightarrow> 'f TaskScheduler" where
  "AddTask_signal ts =
     (case runner ts of
        WaitSignal \<Rightarrow> ts\<lparr>senders := senders ts - 1, runner := Head\<rparr>
      | WaitTimer d \<Rightarrow> ts\<lparr>senders := senders ts - 1, runner := Head\<rparr>
      | _ \<Rightarrow> ts\<lparr>senders := senders ts - 1\<rparr>)"

definition GetNextTask :: "'f TaskScheduler \<Rightarrow> 'f Task option \<times> 'f TaskScheduler" where
  "GetNextTask ts =
     (if length (tasks ts) = 0 then (None, ts)
      else let (t, h) = pop_task (tasks ts) in (Some t, ts\<lparr>tasks := h\<rparr>))"

text \<open>The locked section of \<open>ExecuteNextTask\<close> and the task whose callback it then runs.\<close>

definition ExecuteNextTask :: "'f TaskScheduler \<Rightarrow> 'f Task option \<times> 'f TaskScheduler" where
  "ExecuteNextTask ts =
     (if TaskHeap_Len (tasks ts) = 0 then (None, ts)
      else let (t, h) = pop_task (tasks ts) in (Some t, ts\<lparr>tasks := h\<rparr>))"

text \<open>A \<open>time.Duration\<close> is an \<open>int64\<close>; \<open>time.Until\<close> saturates.\<close>

definition maxDuration :: int where
  "maxDuration = 2 ^ 63 - 1"

definition time_Until :: "int \<Rightarrow> int \<Rightarrow> int" where
  "time_Until t c = max (- maxDuration - 1) (min maxDuration (t - c))"

section \<open>Run and its callers\<close>

datatype 'f event =
    Add "'f Task"
  | Signal
  | Take "'f Task option"
  | Tick int
  | Cancel
  | Internal
  | Start "'f Task" int
  | Finish
  | Stop

text \<open>
  Another goroutine that calls \<open>ExecuteNextTask\<close> takes a task as \<open>Take\<close> does. \<open>Start t c\<close> is \<open>Run\<close> taking \<open>t\<close> off the heap at time \<open>c\<close> to execute it; a nil callback finishes at
  once. \<open>Finish\<close> is the end of the callback, by return or by a panic, which is recovered. A select
  takes any of its ready cases.
\<close>

inductive sched_step :: "'f TaskScheduler \<Rightarrow> 'f event \<Rightarrow> 'f TaskScheduler \<Rightarrow> bool" where
  add: "sched_step ts (Add t) (AddTask t ts)"
| signal: "0 < senders ts \<Longrightarrow> sched_step ts Signal (AddTask_signal ts)"
| take: "GetNextTask ts = (r, ts') \<Longrightarrow> sched_step ts (Take r) ts'"
| tick: "0 < d \<Longrightarrow> sched_step ts (Tick d) (ts\<lparr>now := now ts + d\<rparr>)"
| cancel: "sched_step ts Cancel (ts\<lparr>cancelled := True\<rparr>)"
| head_empty: "runner ts = Head \<Longrightarrow> TaskHeap_Len (tasks ts) = 0 \<Longrightarrow> sched_step ts Internal (ts\<lparr>runner := Idle\<rparr>)"
| head_peek: "runner ts = Head \<Longrightarrow> TaskHeap_Len (tasks ts) \<noteq> 0 \<Longrightarrow>
    sched_step ts Internal (ts\<lparr>runner := Peeked (time_Until (ExecuteAt (tasks ts ! 0)) (now ts))\<rparr>)"
| idle: "runner ts = Idle \<Longrightarrow> sched_step ts Internal (ts\<lparr>runner := WaitSignal\<rparr>)"
| peeked_due: "runner ts = Peeked delay \<Longrightarrow> delay \<le> 0 \<Longrightarrow> sched_step ts Internal (ts\<lparr>runner := Due\<rparr>)"
| peeked_arm: "runner ts = Peeked delay \<Longrightarrow> \<not> delay \<le> 0 \<Longrightarrow>
    sched_step ts Internal (ts\<lparr>runner := Armed (now ts + delay)\<rparr>)"
| armed: "runner ts = Armed d \<Longrightarrow> sched_step ts Internal (ts\<lparr>runner := WaitTimer d\<rparr>)"
| timer: "runner ts = WaitTimer d \<Longrightarrow> d \<le> now ts \<Longrightarrow> sched_step ts Internal (ts\<lparr>runner := Due\<rparr>)"
| due_nothing: "runner ts = Due \<Longrightarrow> ExecuteNextTask ts = (None, ts') \<Longrightarrow> sched_step ts Internal (ts'\<lparr>runner := Head\<rparr>)"
| due_start: "runner ts = Due \<Longrightarrow> ExecuteNextTask ts = (Some t, ts') \<Longrightarrow>
    sched_step ts (Start t (now ts)) (ts'\<lparr>runner := (if Callback t = None then Head else InCallback)\<rparr>)"
| finish: "runner ts = InCallback \<Longrightarrow> sched_step ts Finish (ts\<lparr>runner := Head\<rparr>)"
| stop_idle: "runner ts = WaitSignal \<Longrightarrow> cancelled ts \<Longrightarrow> sched_step ts Stop (ts\<lparr>runner := Returned\<rparr>)"
| stop_timer: "runner ts = WaitTimer d \<Longrightarrow> cancelled ts \<Longrightarrow> sched_step ts Stop (ts\<lparr>runner := Returned\<rparr>)"

inductive_cases sched_step_cases: "sched_step ts e ts'"

text \<open>Runs, their events in order.\<close>

inductive sched_run :: "'f TaskScheduler \<Rightarrow> 'f event list \<Rightarrow> 'f TaskScheduler \<Rightarrow> bool" for s where
  nil: "sched_run s [] s"
| snoc: "sched_run s es t \<Longrightarrow> sched_step t e u \<Longrightarrow> sched_run s (es @ [e]) u"

section \<open>The heap of a run\<close>

lemma take_cases:
  assumes "is_heap earlier (tasks ts)"
  obtains "tasks ts = []" "GetNextTask ts = (None, ts)" "ExecuteNextTask ts = (None, ts)"
  | t h where "GetNextTask ts = (Some t, ts\<lparr>tasks := h\<rparr>)" "ExecuteNextTask ts = (Some t, ts\<lparr>tasks := h\<rparr>)"
      "is_heap earlier h" "mset (tasks ts) = add_mset t (mset h)" "\<forall>u\<in>#mset (tasks ts). \<not> earlier u t"
proof (cases "tasks ts = []")
  case True
  then show thesis using that(1) by (simp add: GetNextTask_def ExecuteNextTask_def TaskHeap_Len_def)
next
  case False
  obtain t h where "task_heap.pop_if (tasks ts) = (Some t, h)" "is_heap earlier h"
    "mset (tasks ts) = add_mset t (mset h)" "\<forall>u\<in>#mset (tasks ts). \<not> earlier u t"
    using task_heap.queue.pop_least [of "tasks ts"] assms False unfolding mset_zero_iff by blast
  then show thesis
    using that(2) [of t h] False
    by (auto simp: task_heap.pop_if_def GetNextTask_def ExecuteNextTask_def TaskHeap_Len_def map_prod_def split: prod.splits)
qed

lemma AddTask_tasks:
  "is_heap earlier (tasks ts) \<Longrightarrow>
   is_heap earlier (tasks (AddTask t ts)) \<and> mset (tasks (AddTask t ts)) = add_mset t (mset (tasks ts))"
  using task_heap.heap_Push_view [of "tasks ts" t] by (simp add: AddTask_def)

lemma AddTask_signal_simps [simp]:
  "tasks (AddTask_signal ts) = tasks ts" "now (AddTask_signal ts) = now ts"
  "runner (AddTask_signal ts) = (case runner ts of WaitSignal \<Rightarrow> Head | WaitTimer d \<Rightarrow> Head | p \<Rightarrow> p)"
  by (auto simp: AddTask_signal_def split: place.split)

lemma NewTaskScheduler_simps [simp]:
  "tasks (NewTaskScheduler c) = []" "senders (NewTaskScheduler c) = 0" "runner (NewTaskScheduler c) = Head"
  "now (NewTaskScheduler c) = c"
  by (simp_all add: NewTaskScheduler_def heap_Init_def TaskHeap_Len_def)

text \<open>The specification: a bag of tasks from which an earliest one is taken.\<close>

inductive bag_trace :: "'f Task multiset \<Rightarrow> 'f event list \<Rightarrow> 'f Task multiset \<Rightarrow> bool" for A where
  nil: "bag_trace A [] A"
| add: "bag_trace A es B \<Longrightarrow> bag_trace A (es @ [Add t]) (add_mset t B)"
| give: "bag_trace A es B \<Longrightarrow> t \<in># B \<Longrightarrow> \<forall>u\<in>#B. \<not> earlier u t \<Longrightarrow> e = Take (Some t) \<or> e = Start t c \<Longrightarrow>
    bag_trace A (es @ [e]) (B - {#t#})"
| none: "bag_trace A es {#} \<Longrightarrow> bag_trace A (es @ [Take None]) {#}"
| silent: "bag_trace A es B \<Longrightarrow> e \<in> {Signal, Cancel, Internal, Finish, Stop} \<or> e = Tick d \<Longrightarrow> bag_trace A (es @ [e]) B"

lemma step_bag:
  assumes step: "sched_step ts e ts'" and heap: "is_heap earlier (tasks ts)" and bag: "bag_trace A es (mset (tasks ts))"
  shows "is_heap earlier (tasks ts') \<and> bag_trace A (es @ [e]) (mset (tasks ts'))"
proof -
  note silent = bag_trace.silent [OF bag]
  from step show ?thesis
  proof cases
    case (add t)
    then show ?thesis using AddTask_tasks [OF heap, of t] bag_trace.add [OF bag, of t] by simp
  next
    case (take r)
    from heap show ?thesis
    proof (cases rule: take_cases)
      case 1
      then show ?thesis using take heap bag bag_trace.none by auto
    next
      case (2 t h)
      then show ?thesis using take bag_trace.give [OF bag, of t e] by auto
    qed
  next
    case (due_nothing ts'')
    from heap show ?thesis
    proof (cases rule: take_cases)
      case 1
      then show ?thesis using due_nothing heap silent by auto
    next
      case (2 t h)
      then show ?thesis using due_nothing by auto
    qed
  next
    case (due_start t ts'')
    from heap show ?thesis
    proof (cases rule: take_cases)
      case 1
      then show ?thesis using due_start by auto
    next
      case (2 t h)
      then show ?thesis using due_start bag_trace.give [OF bag, of t e "now ts"] by auto
    qed
  qed (use heap silent in auto)
qed

lemma run_bag:
  "sched_run (NewTaskScheduler c) es ts \<Longrightarrow> is_heap earlier (tasks ts) \<and> bag_trace {#} es (mset (tasks ts))"
proof (induction rule: sched_run.induct)
  case nil
  then show ?case by (auto simp: heap_from_ge intro: bag_trace.nil)
next
  case (snoc es t e u)
  then show ?case using step_bag by blast
qed

section \<open>No task is executed before its time\<close>

text \<open>While \<open>Run\<close> waits for an instant some task of the heap is due by then.\<close>

fun waits_until :: "place \<Rightarrow> int \<Rightarrow> int option" where
  "waits_until (Peeked delay) c = Some (c + delay)"
| "waits_until Due c = Some c"
| "waits_until (Armed d) c = Some d"
| "waits_until (WaitTimer d) c = Some d"
| "waits_until _ c = None"

definition on_time :: "int \<Rightarrow> 'f TaskScheduler \<Rightarrow> bool" where
  "on_time c ts \<longleftrightarrow> is_heap earlier (tasks ts) \<and> c \<le> now ts \<and> (\<forall>t\<in>set (tasks ts). ExecuteAt t \<le> c + maxDuration) \<and>
     (\<forall>d. waits_until (runner ts) (now ts) = Some d \<longrightarrow> (\<exists>t\<in>set (tasks ts). ExecuteAt t \<le> d))"

definition timely :: "int \<Rightarrow> 'f event \<Rightarrow> bool" where
  "timely c e \<longleftrightarrow> (case e of Add t \<Rightarrow> ExecuteAt t \<le> c + maxDuration | Take r \<Rightarrow> False | _ \<Rightarrow> True)"

lemma ExecuteNextTask_earliest:
  assumes "is_heap earlier (tasks ts)" and "ExecuteNextTask ts = (Some t, ts')"
  obtains h where "ts' = ts\<lparr>tasks := h\<rparr>" "is_heap earlier h" "set h \<subseteq> set (tasks ts)"
    "\<forall>u\<in>set (tasks ts). ExecuteAt t \<le> ExecuteAt u"
  using assms(1)
proof (cases rule: take_cases)
  case 1
  then show thesis using assms(2) by simp
next
  case (2 t' h)
  have "set (tasks ts) = insert t' (set h)" using arg_cong [OF 2(4), of set_mset] by simp
  then show thesis using that [of h] 2 assms(2) by (auto simp: earlier_def not_less)
qed

lemma step_on_time:
  assumes step: "sched_step ts e ts'" and inv: "on_time c ts" and e: "timely c e"
  shows "on_time c ts' \<and> (\<forall>t k. e = Start t k \<longrightarrow> ExecuteAt t \<le> k)"
proof -
  note heap = inv [unfolded on_time_def, THEN conjunct1]
  from step show ?thesis
  proof cases
    case (add t)
    have "set (tasks ts') = insert t (set (tasks ts))"
      using AddTask_tasks [OF heap, of t] add by (metis set_mset_add_mset_insert set_mset_mset)
    then show ?thesis using add e inv AddTask_tasks [OF heap, of t]
      by (auto simp: on_time_def timely_def) (auto simp: AddTask_def)
  next
    case (due_start t ts'')
    obtain h where "ts'' = ts\<lparr>tasks := h\<rparr>" "is_heap earlier h" "set h \<subseteq> set (tasks ts)"
      "\<forall>u\<in>set (tasks ts). ExecuteAt t \<le> ExecuteAt u"
      by (rule ExecuteNextTask_earliest [OF heap due_start(4)])
    moreover obtain u where "u \<in> set (tasks ts)" "ExecuteAt u \<le> now ts"
      using inv due_start by (auto simp: on_time_def)
    ultimately show ?thesis using due_start inv by (auto simp: on_time_def)
  next
    case due_nothing
    from heap show ?thesis
      by (cases rule: take_cases) (use due_nothing inv in \<open>auto simp: on_time_def\<close>)
  next
    case head_peek
    then have "tasks ts ! 0 \<in> set (tasks ts)" by (simp add: TaskHeap_Len_def)
    moreover from this have "ExecuteAt (tasks ts ! 0) \<le> now ts + time_Until (ExecuteAt (tasks ts ! 0)) (now ts)"
      using inv by (auto simp: on_time_def time_Until_def)
    ultimately show ?thesis using head_peek inv by (auto simp: on_time_def)
  next
    case tick
    then show ?thesis using inv
      by (cases "runner ts") (auto simp: on_time_def, (rule bexI [rotated], assumption, linarith)+)
  next
    case peeked_due
    then show ?thesis using inv by (auto simp: on_time_def) (rule bexI [rotated], assumption, linarith)
  next
    case timer
    then show ?thesis using inv by (auto simp: on_time_def) (rule bexI [rotated], assumption, linarith)
  qed (use inv e in \<open>auto simp: on_time_def timely_def split: place.splits\<close>)
qed

lemma run_on_time:
  "sched_run (NewTaskScheduler c) es ts \<Longrightarrow> list_all (timely c) es \<Longrightarrow>
   on_time c ts \<and> (\<forall>t k. Start t k \<in> set es \<longrightarrow> ExecuteAt t \<le> k)"
proof (induction rule: sched_run.induct)
  case nil
  then show ?case by (simp add: on_time_def heap_from_ge)
next
  case (snoc es t e u)
  then show ?case using step_on_time [OF snoc.hyps(2)] by auto
qed

section \<open>The properties\<close>

text \<open>
  C5: whatever its callers do, the scheduler keeps a bag of tasks: \<open>AddTask\<close> adds one, \<open>GetNextTask\<close> and
  \<open>Run\<close> take out one than which no other is earlier, by time and then priority, \<open>GetNextTask\<close> answers
  that there is none only for the empty bag, and nothing else changes it, so that no task is lost or
  executed twice.
\<close>

theorem scheduler_refines_bag:
  assumes "sched_run (NewTaskScheduler c) es ts"
  shows "bag_trace {#} es (mset (tasks ts)) \<and> Scheduler_Len ts = size (mset (tasks ts))"
  using run_bag [OF assms] by (simp add: Scheduler_Len_def TaskHeap_Len_def)

text \<open>A run: two tasks are added, the later one first, and one is taken.\<close>

definition soon :: "nat Task" where
  "soon = \<lparr>ID = ''soon'', ExecuteAt = 5, Priority = 0, Callback = Some 1\<rparr>"

definition later :: "nat Task" where
  "later = \<lparr>ID = ''later'', ExecuteAt = 9, Priority = 0, Callback = None\<rparr>"

lemmas heap_eval = heap_Push_def heap_Pop_def heap_up.simps heap_down.simps TaskHeap_Len_def TaskHeap_Less_def
  TaskHeap_Swap_def TaskHeap_Push_def TaskHeap_Pop_def earlier_def

lemma push_soon: "tasks (AddTask soon (AddTask later (NewTaskScheduler 0))) = [soon, later]"
  by (simp add: AddTask_def heap_eval soon_def later_def)

lemma run_two:
  "sched_run (NewTaskScheduler 0) [Add later, Add soon] (AddTask soon (AddTask later (NewTaskScheduler 0)))"
  using sched_run.snoc [OF sched_run.snoc [OF sched_run.nil sched_step.add] sched_step.add] by simp

theorem scheduler_refines_bag_witness:
  "bag_trace {#} [Add later, Add soon] {#soon, later#}"
  using scheduler_refines_bag [OF run_two] by (simp add: push_soon)

text \<open>
  C7: when no other goroutine takes tasks and all tasks are at most \<open>maxDuration\<close> (292 years) ahead of the
  start, \<open>Run\<close> executes no task before its \<open>ExecuteAt\<close>.
\<close>

theorem scheduler_never_early:
  assumes "sched_run (NewTaskScheduler c) es ts" and "list_all (timely c) es" and "Start t k \<in> set es"
  shows "ExecuteAt t \<le> k"
  using run_on_time [OF assms(1,2)] assms(3) by blast

text \<open>\<open>Run\<close> with one task in the heap, up to the start of the task.\<close>

definition one_task :: "'f Task \<Rightarrow> place \<Rightarrow> int \<Rightarrow> 'f TaskScheduler" where
  "one_task t p c = \<lparr>tasks = [t], senders = 0, runner = p, now = c, cancelled = False\<rparr>"

lemma added_one:
  "AddTask_signal (AddTask t (NewTaskScheduler c)) = one_task t Head c"
  by (simp add: AddTask_def AddTask_signal_def NewTaskScheduler_def one_task_def heap_Init_def heap_eval)

lemma step_one_task:
  "0 < ExecuteAt t - c \<Longrightarrow> ExecuteAt t - c \<le> maxDuration \<Longrightarrow>
   sched_step (one_task t Head c) Internal (one_task t (Peeked (ExecuteAt t - c)) c)"
  "0 < delay \<Longrightarrow> sched_step (one_task t (Peeked delay) c) Internal (one_task t (Armed (c + delay)) c)"
  "sched_step (one_task t (Armed d) c) Internal (one_task t (WaitTimer d) c)"
  "0 < e \<Longrightarrow> sched_step (one_task t (WaitTimer d) c) (Tick e) (one_task t (WaitTimer d) (c + e))"
  "d \<le> c \<Longrightarrow> sched_step (one_task t (WaitTimer d) c) Internal (one_task t Due c)"
  subgoal using sched_step.head_peek [of "one_task t Head c"]
    by (simp add: one_task_def TaskHeap_Len_def time_Until_def maxDuration_def)
  subgoal using sched_step.peeked_arm [of "one_task t (Peeked delay) c"] by (simp add: one_task_def)
  subgoal using sched_step.armed [of "one_task t (Armed d) c"] by (simp add: one_task_def)
  subgoal using sched_step.tick [of e "one_task t (WaitTimer d) c"] by (simp add: one_task_def)
  subgoal using sched_step.timer [of "one_task t (WaitTimer d) c"] by (simp add: one_task_def)
  done

lemma pop_one: "pop_task [t] = (t, [])"
  unfolding heap_Pop_def Let_def
  by (subst heap_down.simps) (simp add: TaskHeap_Len_def TaskHeap_Swap_def TaskHeap_Pop_def)

lemma pop_two: "pop_task [t, u] = (t, [u])"
  unfolding heap_Pop_def Let_def
  by (subst heap_down.simps) (simp add: TaskHeap_Len_def TaskHeap_Swap_def TaskHeap_Pop_def)

lemma run_to_deadline:
  assumes "0 < ExecuteAt t - c" "ExecuteAt t - c \<le> maxDuration"
  shows "sched_run (NewTaskScheduler c) [Add t, Signal, Internal, Internal, Internal, Tick (ExecuteAt t - c), Internal]
    (one_task t Due (ExecuteAt t))"
proof -
  let ?d = "ExecuteAt t - c"
  have "sched_step (AddTask t (NewTaskScheduler c)) Signal (one_task t Head c)"
    using sched_step.signal [of "AddTask t (NewTaskScheduler c)"] by (simp add: added_one) (simp add: AddTask_def)
  note s = sched_run.snoc [OF sched_run.snoc [OF sched_run.nil sched_step.add] this, simplified]
  note s = sched_run.snoc [OF s step_one_task(1) [OF assms], simplified]
  note s = sched_run.snoc [OF s step_one_task(2) [OF assms(1)], simplified]
  note s = sched_run.snoc [OF s step_one_task(3), simplified]
  note s = sched_run.snoc [OF s step_one_task(4) [of ?d], simplified]
  have "sched_step (one_task t (WaitTimer (ExecuteAt t)) (ExecuteAt t)) Internal (one_task t Due (ExecuteAt t))"
    by (rule step_one_task(5)) simp
  from sched_run.snoc [OF s, simplified, OF _ this] show ?thesis using assms(1) by simp
qed

lemma run_soon:
  "sched_run (NewTaskScheduler 0) [Add soon, Signal, Internal, Internal, Internal, Tick 5, Internal, Start soon 5]
    \<lparr>tasks = [], senders = 0, runner = InCallback, now = 5, cancelled = False\<rparr>"
proof -
  let ?ts = "\<lparr>tasks = [], senders = 0, runner = InCallback, now = 5, cancelled = False\<rparr>"
  have start: "sched_step (one_task soon Due 5) (Start soon 5) ?ts"
    using sched_step.due_start [of "one_task soon Due 5" soon "one_task soon Due 5\<lparr>tasks := []\<rparr>"]
    by (simp add: one_task_def ExecuteNextTask_def TaskHeap_Len_def pop_one) (simp add: soon_def)
  have "sched_run (NewTaskScheduler 0) [Add soon, Signal, Internal, Internal, Internal, Tick 5, Internal] (one_task soon Due 5)"
    using run_to_deadline [of soon 0] by (simp add: soon_def maxDuration_def)
  from sched_run.snoc [OF this start] show ?thesis by simp
qed

theorem scheduler_never_early_witness:
  "\<exists>es ts. sched_run (NewTaskScheduler 0) es ts \<and> Start soon 5 \<in> set es \<and> ExecuteAt soon \<le> 5"
proof (intro exI conjI)
  show "ExecuteAt soon \<le> 5"
    by (rule scheduler_never_early [OF run_soon]) (simp_all add: soon_def timely_def maxDuration_def)
qed (rule run_soon, simp)

text \<open>
  Once \<open>Run\<close> waits for a signal and every caller is past its send, only another call or the end of
  the context gets it out of the select.
\<close>

definition asleep :: "'f TaskScheduler \<Rightarrow> bool" where
  "asleep ts \<longleftrightarrow> runner ts = WaitSignal \<and> senders ts = 0 \<and> \<not> cancelled ts"

lemma step_asleep:
  assumes "sched_step ts e ts'" and "asleep ts" and "\<forall>t. e \<noteq> Add t" and "e \<noteq> Cancel"
  shows "asleep ts' \<and> (\<forall>t k. e \<noteq> Start t k)"
  using assms
  by cases (auto simp: asleep_def GetNextTask_def split: if_splits prod.splits)

lemma run_asleep:
  assumes "sched_run s es ts" and "asleep s" and "\<forall>t. Add t \<notin> set es" and "Cancel \<notin> set es"
  shows "asleep ts \<and> (\<forall>t k. Start t k \<notin> set es)"
  using assms
proof (induction rule: sched_run.induct)
  case (snoc es t e u)
  then have "asleep t" "\<forall>t k. Start t k \<notin> set es" "\<forall>t. e \<noteq> Add t" "e \<noteq> Cancel" by auto
  with step_asleep [OF snoc.hyps(2)] show ?case by auto
qed simp

text \<open>\<open>AddTask\<close> comes in after \<open>Run\<close> has found the heap empty and before it is in the select.\<close>

lemma run_lost_signal:
  "sched_run (NewTaskScheduler c) [Internal, Add t, Signal, Internal] (one_task t WaitSignal c)"
proof -
  let ?s = "NewTaskScheduler c"
  have e: "?s = \<lparr>tasks = [], senders = 0, runner = Head, now = c, cancelled = False\<rparr>"
    by (simp add: NewTaskScheduler_def heap_Init_def TaskHeap_Len_def)
  let ?added = "\<lparr>tasks = [t], senders = 1, runner = Idle, now = c, cancelled = False\<rparr>"
  have "sched_step ?s Internal (?s\<lparr>runner := Idle\<rparr>)" by (rule sched_step.head_empty) (simp_all add: TaskHeap_Len_def)
  moreover have "sched_step (?s\<lparr>runner := Idle\<rparr>) (Add t) ?added"
    using sched_step.add [of "?s\<lparr>runner := Idle\<rparr>" t] by (simp add: e AddTask_def heap_eval)
  moreover have "sched_step ?added Signal (one_task t Idle c)"
    using sched_step.signal [of ?added] by (simp add: AddTask_signal_def one_task_def)
  moreover have "sched_step (one_task t Idle c) Internal (one_task t WaitSignal c)"
    using sched_step.idle [of "one_task t Idle c"] by (simp add: one_task_def)
  ultimately have "sched_run ?s (((([] @ [Internal]) @ [Add t]) @ [Signal]) @ [Internal]) (one_task t WaitSignal c)"
    by (blast intro: sched_run.intros)
  then show ?thesis by simp
qed

text \<open>
  C24: a wake-up can be lost. \<open>Run\<close> unlocks an empty heap before it waits for the signal, and a signal sent
  in between is dropped: a task that is due may then stay in the heap for as long as nobody adds another
  one, whatever else happens and however long it takes.
\<close>

theorem scheduler_lost_wakeup:
  assumes "ExecuteAt t \<le> c"
  shows "\<exists>es ts. sched_run (NewTaskScheduler c) es ts \<and> tasks ts = [t] \<and> ExecuteAt t \<le> now ts \<and>
    (\<forall>es' ts'. sched_run ts es' ts' \<longrightarrow> (\<forall>u. Add u \<notin> set es') \<longrightarrow> Cancel \<notin> set es' \<longrightarrow>
      runner ts' = WaitSignal \<and> (\<forall>u k. Start u k \<notin> set es'))"
proof (intro exI conjI allI impI; (rule run_lost_signal)?)
  fix es' ts' assume r: "sched_run (one_task t WaitSignal c) es' ts'" "\<forall>u. Add u \<notin> set es'" "Cancel \<notin> set es'"
  have "asleep (one_task t WaitSignal c)" by (simp add: asleep_def one_task_def)
  then show "runner ts' = WaitSignal" "Start u k \<notin> set es'" for u k
    using run_asleep [OF r(1) _ r(2,3)] by (auto simp: asleep_def)
qed (use assms in \<open>simp_all add: one_task_def\<close>)

theorem scheduler_lost_wakeup_witness:
  "\<exists>es ts. sched_run (NewTaskScheduler 7) es ts \<and> tasks ts = [soon] \<and> ExecuteAt soon \<le> now ts \<and>
    (\<forall>es' ts'. sched_run ts es' ts' \<longrightarrow> (\<forall>u. Add u \<notin> set es') \<longrightarrow> Cancel \<notin> set es' \<longrightarrow>
      runner ts' = WaitSignal \<and> (\<forall>u k. Start u k \<notin> set es'))"
  by (rule scheduler_lost_wakeup) (simp add: soon_def)

text \<open>
  With other takers \<open>Run\<close> can execute a task before its time: it peeks at a task that is due, another
  goroutine takes that task, and \<open>ExecuteNextTask\<close> pops whatever is then first.
\<close>

lemma scheduler_early_after_take:
  "\<exists>es ts. sched_run (NewTaskScheduler 6) es ts \<and> Start later 6 \<in> set es \<and> 6 < ExecuteAt later"
proof -
  define st where "st ts p = \<lparr>tasks = ts, senders = 2, runner = p, now = 6, cancelled = False\<rparr>" for ts :: "nat TaskHeap" and p
  note defs = st_def soon_def later_def
  have two: "AddTask soon (AddTask later (NewTaskScheduler 6)) = st [soon, later] Head"
    by (simp add: AddTask_def heap_eval NewTaskScheduler_def heap_Init_def defs)
  have "sched_step (st [soon, later] Head) Internal (st [soon, later] (Peeked (- 1)))"
    using sched_step.head_peek [of "st [soon, later] Head"] by (simp add: TaskHeap_Len_def time_Until_def maxDuration_def defs)
  moreover have "sched_step (st [soon, later] (Peeked (- 1))) Internal (st [soon, later] Due)"
    using sched_step.peeked_due [of "st [soon, later] (Peeked (- 1))"] by (simp add: defs)
  moreover have "sched_step (st [soon, later] Due) (Take (Some soon)) (st [later] Due)"
    by (rule sched_step.take) (simp add: GetNextTask_def pop_two st_def)
  moreover have "sched_step (st [later] Due) (Start later 6) (st [] Head)"
    using sched_step.due_start [of "st [later] Due" later "st [] Due"]
    by (simp add: ExecuteNextTask_def TaskHeap_Len_def pop_one defs)
  moreover have "sched_run (NewTaskScheduler 6) [Add later, Add soon] (st [soon, later] Head)"
    using sched_run.snoc [OF sched_run.snoc [OF sched_run.nil sched_step.add] sched_step.add, of "NewTaskScheduler 6" later soon]
    by (simp add: two)
  ultimately have "sched_run (NewTaskScheduler 6) (((([Add later, Add soon] @ [Internal]) @ [Internal]) @ [Take (Some soon)]) @ [Start later 6]) (st [] Head)"
    by (blast intro: sched_run.snoc)
  moreover have "6 < ExecuteAt later" by (simp add: later_def)
  ultimately show ?thesis by fastforce
qed

end
