(* ===== verification/PaymentRouter.thy ===== *)
theory PaymentRouter
  imports ContainerHeap MachineInts
begin

text \<open>
  The payment router of \<open>src/practice/payment_router.go\<close>: Dijkstra's algorithm from the destination
  backwards, with a heap of pointers to path nodes whose keys are decreased in place.

  Amounts are \<open>int64\<close>: integers, wrapped after every operation. Time locks are 32-bit words. The order
  in which Go ranges over a map is an argument. A pointer to a path node is an index into the list of
  all path nodes that the search has allocated.
\<close>

section \<open>The graph\<close>

type_synonym NodeID = "8 word list"

record ChannelPolicy =
  BaseFee :: int
  FeeRatePPM :: int
  CLTVDelta :: "32 word"
  Disabled :: bool
  MinHTLC :: int
  MaxHTLC :: int

record ChannelEdge =
  ChannelID :: "64 word"
  From :: NodeID
  To :: NodeID
  Capacity :: int
  Policy :: ChannelPolicy

record Graph =
  Nodes :: "NodeID set"
  Edges :: "NodeID \<Rightarrow> ChannelEdge list option"

definition NewGraph :: Graph where
  "NewGraph = \<lparr>Nodes = {}, Edges = Map.empty\<rparr>"

text \<open>A missing key of a map of slices reads as the nil slice.\<close>

definition edges_at :: "(NodeID \<Rightarrow> ChannelEdge list option) \<Rightarrow> NodeID \<Rightarrow> ChannelEdge list" where
  "edges_at m n = (case m n of None \<Rightarrow> [] | Some es \<Rightarrow> es)"

definition AddEdge :: "Graph \<Rightarrow> ChannelEdge \<Rightarrow> Graph" where
  "AddEdge g edge =
     g\<lparr>Nodes := insert (To edge) (insert (From edge) (Nodes g)),
       Edges := (Edges g)(From edge \<mapsto> edges_at (Edges g) (From edge) @ [edge])\<rparr>"

record Hop =
  HopNode :: NodeID
  HopChannel :: "64 word"
  AmtToForward :: int
  Fee :: int
  HopDelta :: "32 word"

section \<open>The heap of path nodes\<close>

record pathNode =
  node :: NodeID
  amountToSend :: int
  totalCLTV :: "32 word"
  index :: int

text \<open>The path nodes that have been allocated, and the slice of pointers to them.\<close>

record pathHeap =
  cells :: "pathNode list"
  refs :: "nat list"

definition pathHeap_Len :: "pathHeap \<Rightarrow> nat" where
  "pathHeap_Len h = length (refs h)"

definition pathHeap_Less :: "pathHeap \<Rightarrow> nat \<Rightarrow> nat \<Rightarrow> bool" where
  "pathHeap_Less h i j =
     (let a = cells h ! (refs h ! i); b = cells h ! (refs h ! j)
      in if amountToSend a \<noteq> amountToSend b then amountToSend a < amountToSend b else totalCLTV a < totalCLTV b)"

definition set_index :: "nat \<Rightarrow> int \<Rightarrow> pathNode list \<Rightarrow> pathNode list" where
  "set_index r i cs = cs[r := (cs ! r)\<lparr>index := i\<rparr>]"

definition pathHeap_Swap :: "pathHeap \<Rightarrow> nat \<Rightarrow> nat \<Rightarrow> pathHeap" where
  "pathHeap_Swap h i j =
     (let rs = (refs h)[i := refs h ! j, j := refs h ! i]
      in \<lparr>cells = set_index (rs ! j) (int j) (set_index (rs ! i) (int i) (cells h)), refs = rs\<rparr>)"

definition pathHeap_Push :: "pathHeap \<Rightarrow> nat \<Rightarrow> pathHeap" where
  "pathHeap_Push h x =
     (let n = length (refs h) in \<lparr>cells = set_index x (int n) (cells h), refs = refs h @ [x]\<rparr>)"

text \<open>Only called through \<open>heap.Pop\<close>, on a heap that is not empty.\<close>

definition pathHeap_Pop :: "pathHeap \<Rightarrow> nat \<times> pathHeap" where
  "pathHeap_Pop old =
     (let n = length (refs old); x = refs old ! (n - 1)
      in (x, \<lparr>cells = set_index x (- 1) (cells old), refs = take (n - 1) (refs old)\<rparr>))"

abbreviation path_init :: "pathHeap \<Rightarrow> pathHeap" where
  "path_init \<equiv> heap_Init pathHeap_Len pathHeap_Less pathHeap_Swap"

abbreviation path_push :: "pathHeap \<Rightarrow> nat \<Rightarrow> pathHeap" where
  "path_push \<equiv> heap_Push pathHeap_Len pathHeap_Less pathHeap_Swap pathHeap_Push"

abbreviation path_pop :: "pathHeap \<Rightarrow> nat \<times> pathHeap" where
  "path_pop \<equiv> heap_Pop pathHeap_Len pathHeap_Less pathHeap_Swap pathHeap_Pop"

abbreviation path_fix :: "pathHeap \<Rightarrow> nat \<Rightarrow> pathHeap" where
  "path_fix \<equiv> heap_Fix pathHeap_Len pathHeap_Less pathHeap_Swap"

section \<open>Fees and filters\<close>

definition hopFee :: "ChannelPolicy \<Rightarrow> int \<Rightarrow> int" where
  "hopFee policy amountMsat = wrap64 (BaseFee policy + go_div (wrap64 (amountMsat * FeeRatePPM policy)) 1000000)"

definition edgePassesFilters :: "ChannelEdge \<Rightarrow> int \<Rightarrow> bool" where
  "edgePassesFilters edge amountMsat =
     (if Disabled (Policy edge) then False
      else if amountMsat < MinHTLC (Policy edge) then False
      else if MaxHTLC (Policy edge) < amountMsat then False
      else if wrap64 (Capacity edge * 1000) < amountMsat then False
      else True)"

section \<open>The search\<close>

record prevHop =
  next_node :: NodeID
  edge :: ChannelEdge
  amount :: int
  prevCLTV :: "32 word"

record search =
  dist :: "NodeID \<Rightarrow> int option"
  prev :: "NodeID \<Rightarrow> prevHop option"
  queue :: pathHeap
  inHeap :: "NodeID \<Rightarrow> nat option"

datatype router_error = ErrNoPath | ErrSameNode | ErrInvalidAmount

text \<open>The loop over the edges of every node, the nodes in the order of the range.\<close>

definition buildReverseGraph :: "NodeID list \<Rightarrow> Graph \<Rightarrow> NodeID \<Rightarrow> ChannelEdge list option" where
  "buildReverseGraph keys g =
     foldl (\<lambda>rev n. foldl (\<lambda>rev e. rev(To e \<mapsto> edges_at rev (To e) @ [e])) rev (edges_at (Edges g) n)) Map.empty keys"

text \<open>Missing keys of the maps read as zero values.\<close>

definition dist_at :: "(NodeID \<Rightarrow> int option) \<Rightarrow> NodeID \<Rightarrow> int" where
  "dist_at d n = (case d n of None \<Rightarrow> 0 | Some v \<Rightarrow> v)"

definition zero_prev :: prevHop where
  "zero_prev = \<lparr>next_node = replicate 33 0,
     edge = \<lparr>ChannelID = 0, From = replicate 33 0, To = replicate 33 0, Capacity = 0,
       Policy = \<lparr>BaseFee = 0, FeeRatePPM = 0, CLTVDelta = 0, Disabled = False, MinHTLC = 0, MaxHTLC = 0\<rparr>\<rparr>,
     amount = 0, prevCLTV = 0\<rparr>"

definition prev_at :: "(NodeID \<Rightarrow> prevHop option) \<Rightarrow> NodeID \<Rightarrow> prevHop" where
  "prev_at p n = (case p n of None \<Rightarrow> zero_prev | Some h \<Rightarrow> h)"

text \<open>The walk from the source may not end for an arbitrary map.\<close>

partial_function (option) reconstruct_loop ::
    "(NodeID \<Rightarrow> prevHop option) \<Rightarrow> NodeID \<Rightarrow> NodeID \<Rightarrow> int \<Rightarrow> Hop list \<Rightarrow> Hop list option" where
  "reconstruct_loop prv cur dst amountMsat hops =
     (if cur = dst then Some hops
      else let ph = prev_at prv cur;
               amountIn = amount ph;
               amountOut = (if next_node ph = dst then amountMsat else amount (prev_at prv (next_node ph)))
           in reconstruct_loop prv (next_node ph) dst amountMsat
                (hops @ [\<lparr>HopNode = next_node ph, HopChannel = ChannelID (edge ph), AmtToForward = amountOut,
                          Fee = wrap64 (amountIn - amountOut), HopDelta = CLTVDelta (Policy (edge ph))\<rparr>]))"

definition reconstructPath :: "(NodeID \<Rightarrow> prevHop option) \<Rightarrow> NodeID \<Rightarrow> NodeID \<Rightarrow> int \<Rightarrow> Hop list option" where
  "reconstructPath prv src dst amountMsat = reconstruct_loop prv src dst amountMsat []"

text \<open>
  One edge into the node \<open>cur\<close> that has been popped. Nothing in the map \<open>inHeap\<close> points to \<open>cur\<close> any more,
  so no write changes it and it is passed by value.
\<close>

definition relax :: "pathNode \<Rightarrow> search \<Rightarrow> ChannelEdge \<Rightarrow> search" where
  "relax cur s e =
     (let incomingAmount = wrap64 (amountToSend cur + hopFee (Policy e) (amountToSend cur));
          newCLTV = totalCLTV cur + CLTVDelta (Policy e)
      in if edgePassesFilters e incomingAmount \<and> incomingAmount < dist_at (dist s) (From e)
         then let s = s\<lparr>dist := (dist s)(From e \<mapsto> incomingAmount),
                        prev := (prev s)(From e \<mapsto>
                          \<lparr>next_node = node cur, edge = e, amount = incomingAmount, prevCLTV = newCLTV\<rparr>)\<rparr>
              in case inHeap s (From e) of
                   Some r \<Rightarrow>
                     let cs = (cells (queue s))[r := (cells (queue s) ! r)\<lparr>amountToSend := incomingAmount, totalCLTV := newCLTV\<rparr>]
                     in s\<lparr>queue := path_fix (queue s\<lparr>cells := cs\<rparr>) (nat (index (cs ! r)))\<rparr>
                 | None \<Rightarrow>
                     let pn = length (cells (queue s));
                         cs = cells (queue s) @ [\<lparr>node = From e, amountToSend = incomingAmount, totalCLTV = newCLTV, index = 0\<rparr>]
                     in s\<lparr>queue := path_push (queue s\<lparr>cells := cs\<rparr>) pn, inHeap := (inHeap s)(From e \<mapsto> pn)\<rparr>
         else s)"

definition pop_next :: "search \<Rightarrow> pathNode \<times> search" where
  "pop_next s =
     (let (r, q) = path_pop (queue s); cur = cells q ! r
      in (cur, s\<lparr>queue := q, inHeap := (inHeap s)(node cur := None)\<rparr>))"

partial_function (option) FindPath_loop ::
    "(NodeID \<Rightarrow> ChannelEdge list option) \<Rightarrow> NodeID \<Rightarrow> NodeID \<Rightarrow> int \<Rightarrow> search \<Rightarrow> (router_error + Hop list) option" where
  "FindPath_loop reverse src dst amountMsat s =
     (if pathHeap_Len (queue s) = 0 then Some (Inl ErrNoPath)
      else let (cur, s) = pop_next s
           in if node cur = src then map_option Inr (reconstructPath (prev s) src dst amountMsat)
              else FindPath_loop reverse src dst amountMsat (foldl (relax cur) s (edges_at reverse (node cur))))"

declare reconstruct_loop.simps [code] FindPath_loop.simps [code]

definition FindPath_start :: "NodeID list \<Rightarrow> NodeID \<Rightarrow> int \<Rightarrow> search" where
  "FindPath_start nodes dst amountMsat =
     \<lparr>dist = fold (\<lambda>n d. if n \<noteq> dst then d(n \<mapsto> MaxInt64) else d) nodes [dst \<mapsto> amountMsat],
      prev = Map.empty,
      queue = path_push ((path_init \<lparr>cells = [], refs = []\<rparr>)
        \<lparr>cells := [\<lparr>node = dst, amountToSend = amountMsat, totalCLTV = 0, index = 0\<rparr>]\<rparr>) 0,
      inHeap = [dst \<mapsto> 0]\<rparr>"

text \<open>\<open>nodes\<close> and \<open>keys\<close> are the orders of the two ranges over maps.\<close>

definition FindPath :: "NodeID list \<Rightarrow> NodeID list \<Rightarrow> Graph \<Rightarrow> NodeID \<Rightarrow> NodeID \<Rightarrow> int \<Rightarrow> (router_error + Hop list) option" where
  "FindPath nodes keys g src dst amountMsat =
     FindPath_loop (buildReverseGraph keys g) src dst amountMsat (FindPath_start nodes dst amountMsat)"

section \<open>The path heap is a heap of keys\<close>

type_synonym key = "NodeID \<times> int \<times> 32 word"

definition key_of :: "pathNode \<Rightarrow> key" where
  "key_of c = (node c, amountToSend c, totalCLTV c)"

abbreviation keys :: "pathHeap \<Rightarrow> key list" where
  "keys h \<equiv> map key_of (cells h)"

fun cheaper :: "nat \<times> key \<Rightarrow> nat \<times> key \<Rightarrow> bool" where
  "cheaper (r, n, a, t) (r', n', a', t') \<longleftrightarrow> a < a' \<or> a = a' \<and> t < t'"

definition key_view :: "pathHeap \<Rightarrow> (nat \<times> key) list" where
  "key_view h = map (\<lambda>r. (r, keys h ! r)) (refs h)"

text \<open>Every path node of the heap knows its place.\<close>

definition placed :: "pathHeap \<Rightarrow> bool" where
  "placed h \<longleftrightarrow> distinct (refs h) \<and> (\<forall>i<length (refs h). refs h ! i < length (cells h) \<and> index (cells h ! (refs h ! i)) = int i)"

lemma length_key_view [simp]: "length (key_view h) = length (refs h)"
  by (simp add: key_view_def)

lemma length_set_index [simp]: "length (set_index r i cs) = length cs"
  by (simp add: set_index_def)

lemma set_index_nth: "s < length cs \<Longrightarrow> set_index r i cs ! s = (if s = r then (cs ! s)\<lparr>index := i\<rparr> else cs ! s)"
  by (simp add: set_index_def nth_list_update)

lemma key_set_index [simp]: "map key_of (set_index r i cs) = map key_of cs"
  by (rule nth_equalityI) (simp_all add: key_of_def set_index_nth)

lemma keys_Swap [simp]: "keys (pathHeap_Swap h i j) = keys h"
  by (simp add: pathHeap_Swap_def Let_def)

lemma refs_Swap [simp]: "refs (pathHeap_Swap h i j) = swap_at (refs h) i j"
  by (simp add: pathHeap_Swap_def Let_def swap_at_def)

lemma placed_Swap:
  assumes "placed h" and i: "i < length (refs h)" and j: "j < length (refs h)"
  shows "placed (pathHeap_Swap h i j)"
proof -
  let ?rs = "swap_at (refs h) i j"
  have rs: "distinct ?rs" "length ?rs = length (refs h)"
    using assms by (simp_all add: placed_def swap_at_def distinct_swap)
  have e: "pathHeap_Swap h i j = \<lparr>cells = set_index (?rs ! j) (int j) (set_index (?rs ! i) (int i) (cells h)), refs = ?rs\<rparr>"
    by (simp add: pathHeap_Swap_def swap_at_def Let_def)
  have "?rs ! k < length (cells h)" if "k < length (refs h)" for k
    using assms that by (auto simp: placed_def nth_swap_at)
  moreover have "index (cells h ! (?rs ! k)) = int k" if "k < length (refs h)" "k \<noteq> i" "k \<noteq> j" for k
    using assms that by (auto simp: placed_def nth_swap_at)
  ultimately show ?thesis
    using rs i j by (auto simp: placed_def e set_index_nth nth_eq_iff_index_eq)
qed

text \<open>The heap functions permute the pointers and leave all keys \<open>ks\<close> alone.\<close>

interpretation path_heap: heap_order cheaper pathHeap_Less pathHeap_Swap key_view "\<lambda>h. placed h \<and> keys h = ks" for ks
proof unfold_locales
  show "cheaper x y \<Longrightarrow> \<not> cheaper y x" for x y by (cases x; cases y) auto
  show "\<not> cheaper x y \<Longrightarrow> \<not> cheaper y z \<Longrightarrow> \<not> cheaper x z" for x y z
    by (cases x; cases y; cases z) auto
  fix h i j assume h: "placed h \<and> keys h = ks" and i: "i < length (key_view h)" and j: "j < length (key_view h)"
  then have "refs h ! i < length (cells h)" "refs h ! j < length (cells h)" by (auto simp: placed_def)
  then show "pathHeap_Less h i j \<longleftrightarrow> cheaper (key_view h ! i) (key_view h ! j)"
    using i j by (auto simp: pathHeap_Less_def Let_def key_view_def key_of_def)
  show "key_view (pathHeap_Swap h i j) = swap_at (key_view h) i j"
    using i j by (simp add: key_view_def swap_at_def map_update)
  show "placed (pathHeap_Swap h i j) \<and> keys (pathHeap_Swap h i j) = ks" using h i j placed_Swap by simp
qed

definition path_ok :: "pathHeap \<Rightarrow> bool" where
  "path_ok h \<longleftrightarrow> placed h \<and> is_heap cheaper (key_view h)"

lemma mset_refs: "mset (refs h) = image_mset fst (mset (key_view h))"
  by (simp add: key_view_def comp_def flip: mset_map)

lemma path_push_ok:
  assumes h: "path_ok h" and x: "x < length (cells h)" "x \<notin> set (refs h)"
  shows "path_ok (path_push h x) \<and> set (refs (path_push h x)) = insert x (set (refs h)) \<and> keys (path_push h x) = keys h"
proof -
  let ?h = "pathHeap_Push h x"
  have keys: "keys ?h = keys h" by (simp add: pathHeap_Push_def Let_def)
  have "placed ?h"
    using h x by (auto simp: placed_def path_ok_def pathHeap_Push_def Let_def set_index_nth nth_append less_Suc_eq)
  moreover have view: "key_view ?h = key_view h @ [(x, keys h ! x)]"
    by (simp add: key_view_def keys) (simp add: pathHeap_Push_def Let_def)
  moreover have "pathHeap_Len ?h - 1 = length (key_view h)" by (simp add: pathHeap_Len_def pathHeap_Push_def Let_def)
  ultimately have *: "placed (path_push h x) \<and> keys (path_push h x) = keys h" "is_heap cheaper (key_view (path_push h x))"
    "mset (key_view (path_push h x)) = add_mset (x, keys h ! x) (mset (key_view h))"
    using path_heap.heap_up_last [of ?h "keys h", OF _ view] h keys by (simp_all add: path_ok_def heap_Push_def Let_def)
  have "mset (refs (path_push h x)) = add_mset x (mset (refs h))" by (simp add: mset_refs *(3))
  then show ?thesis using * by (metis path_ok_def set_mset_add_mset_insert set_mset_mset)
qed

lemma pathHeap_Pop_last:
  assumes h: "placed h" and refs: "refs h = rs @ [r]"
  shows "fst (pathHeap_Pop h) = r" "refs (snd (pathHeap_Pop h)) = rs" "keys (snd (pathHeap_Pop h)) = keys h"
    "placed (snd (pathHeap_Pop h))"
proof -
  have d: "distinct rs" "r \<notin> set rs" using h by (auto simp: placed_def refs)
  have "rs ! i \<noteq> r \<and> rs ! i < length (cells h) \<and> index (cells h ! (rs ! i)) = int i" if "i < length rs" for i
    using h that d(2) nth_mem [OF that] by (auto simp: placed_def refs nth_append dest!: spec [of _ i])
  then show "placed (snd (pathHeap_Pop h))"
    using d(1) by (simp add: placed_def pathHeap_Pop_def Let_def refs nth_append set_index_nth)
qed (simp_all add: pathHeap_Pop_def Let_def refs nth_append)

lemma path_pop_ok:
  assumes h: "path_ok h" and ne: "refs h \<noteq> []"
  shows "\<exists>r h'. path_pop h = (r, h') \<and> path_ok h' \<and> r \<in> set (refs h) \<and> set (refs h') = set (refs h) - {r} \<and>
    keys h' = keys h \<and> (\<forall>s\<in>set (refs h). fst (snd (keys h ! r)) \<le> fst (snd (keys h ! s)))"
proof -
  let ?h = "heap_sunk pathHeap_Len pathHeap_Less pathHeap_Swap h" and ?r = "refs h ! 0"
  have r0: "key_view h ! 0 = (?r, keys h ! ?r)" using ne by (simp add: key_view_def)
  have heap: "is_heap cheaper (key_view h)" and pl: "placed h" using h by (auto simp: path_ok_def)
  have view_ne: "key_view h \<noteq> []" using ne by (simp add: key_view_def)
  obtain xs where ok: "placed ?h" "keys ?h = keys h" and view: "key_view ?h = xs @ [(?r, keys h ! ?r)]"
    and xs: "is_heap cheaper xs" "mset (key_view h) = add_mset (?r, keys h ! ?r) (mset xs)"
    by (rule path_heap.heap_sunk_view [of h "keys h" pathHeap_Len])
      (use heap pl view_ne r0 in \<open>simp_all add: pathHeap_Len_def\<close>)
  let ?h' = "snd (pathHeap_Pop ?h)"
  have refs: "refs ?h = map fst xs @ [?r]"
    using arg_cong [OF view, of "map fst"] by (simp add: key_view_def comp_def)
  note pop = pathHeap_Pop_last [OF ok(1) refs]
  have "map (\<lambda>r. (r, keys h ! r)) (map fst xs) = xs"
    using view unfolding key_view_def ok(2) refs by simp
  then have view': "key_view ?h' = xs" unfolding key_view_def pop ok(2) .
  have "placed ?h'" using pop by blast
  moreover have "mset (refs h) = add_mset ?r (mset (refs ?h'))" by (simp add: mset_refs xs(2) view')
  then have perm: "mset (refs h) = mset (?r # refs ?h')" by simp
  then have "?r \<in> set (refs h)" "set (refs ?h') = set (refs h) - {?r}"
    using pl mset_eq_imp_distinct_iff [OF perm] mset_eq_setD [OF perm] by (auto simp: placed_def)
  moreover have "fst (snd (keys h ! ?r)) \<le> fst (snd (keys h ! s))" if s: "s \<in> set (refs h)" for s
  proof -
    obtain i where "i < length (key_view h)" "key_view h ! i = (s, keys h ! s)"
      using s by (auto simp: in_set_conv_nth key_view_def)
    then have "\<not> cheaper (s, keys h ! s) (?r, keys h ! ?r)"
      using path_heap.heap_root_least [of "length (key_view h)" "key_view h" i] heap r0 by simp
    then show ?thesis by (cases "keys h ! ?r"; cases "keys h ! s") auto
  qed
  ultimately show ?thesis
    using xs(1) by (intro exI [of _ ?r] exI [of _ ?h']) (simp add: heap_Pop_sunk pop path_ok_def view' prod_eq_iff ok(2))
qed

lemma path_fix_ok:
  fixes t :: "32 word"
  assumes h: "path_ok h" and r: "r \<in> set (refs h)" and a: "a < amountToSend (cells h ! r)"
  defines "cs \<equiv> (cells h)[r := (cells h ! r)\<lparr>amountToSend := a, totalCLTV := t\<rparr>]"
  defines "h' \<equiv> path_fix (h\<lparr>cells := cs\<rparr>) (nat (index (cs ! r)))"
  shows "path_ok h' \<and> set (refs h') = set (refs h) \<and> keys h' = (keys h)[r := (node (cells h ! r), a, t)]"
proof -
  have pl: "placed h" and heap: "is_heap cheaper (key_view h)" using h by (auto simp: path_ok_def)
  obtain i where i: "i < length (refs h)" "refs h ! i = r" using r by (auto simp: in_set_conv_nth)
  then have r': "r < length (cells h)" "index (cells h ! r) = int i" using pl by (auto simp: placed_def)
  let ?h1 = "h\<lparr>cells := cs\<rparr>" and ?ks = "(keys h)[r := (node (cells h ! r), a, t)]"
  have idx: "nat (index (cs ! r)) = i" using r' by (simp add: cs_def)
  have ks: "keys ?h1 = ?ks" by (simp add: cs_def map_update key_of_def)
  have pl1: "placed ?h1" using pl r' by (auto simp: placed_def cs_def nth_list_update)
  let ?v = "key_view h" and ?w = "key_view ?h1"
  have w: "?w ! j = (if j = i then (r, node (cells h ! r), a, t) else ?v ! j)" if "j < length (refs h)" for j
    using that i r' pl unfolding key_view_def ks by (auto simp: placed_def nth_eq_iff_index_eq)
  have vi: "?v ! i = (r, node (cells h ! r), amountToSend (cells h ! r), totalCLTV (cells h ! r))"
    using i r' by (simp add: key_view_def key_of_def)
  have ordered: "\<not> cheaper (?v ! j) (?v ! parent j)" if "j < length (refs h)" "0 < j" for j
    using heap that by (simp add: heap_from_def)
  have below: "\<not> cheaper x (?w ! i)" if "\<not> cheaper x (?v ! i)" for x
    using that a i(1) w vi by (cases x) auto
  have up: "\<not> cheaper (?v ! j) (?v ! parent i)" if "j < length (refs h)" "0 < j" "parent j = i" "0 < i" for j
    using path_heap.neg_trans [OF ordered [OF that(1,2)]] ordered [OF i(1) that(4)] that(3) by blast
  have n: "pathHeap_Len ?h1 = length ?w" by (simp add: pathHeap_Len_def)
  have "(placed h' \<and> keys h' = ?ks) \<and> is_heap cheaper (key_view h') \<and> mset (key_view h') = mset ?w"
    unfolding h'_def idx
  proof (rule path_heap.heap_Fix_decreased [where Len = pathHeap_Len, OF conjI [OF pl1 ks]])
    show "pathHeap_Len ?h1 = length ?w" by (rule n)
    show "i < length ?w" using i by simp
    show "\<forall>j<length ?w. 0 < j \<longrightarrow> j \<noteq> i \<longrightarrow> parent j \<noteq> i \<longrightarrow> \<not> cheaper (?w ! j) (?w ! parent j)"
      using w ordered parent_less_trans by simp
    show "\<forall>j<length ?w. 0 < j \<longrightarrow> parent j = i \<longrightarrow> \<not> cheaper (?w ! j) (?w ! i)"
      using w ordered below parent_less by (metis length_key_view pathHeap.select_convs(2) pathHeap.surjective pathHeap.update_convs(1) order_less_irrefl)
    show "0 < i \<longrightarrow> (\<forall>j<length ?w. 0 < j \<longrightarrow> parent j = i \<longrightarrow> \<not> cheaper (?w ! j) (?w ! parent i))"
    proof (intro impI allI)
      fix j assume j: "0 < i" "j < length ?w" "0 < j" "parent j = i"
      then have "j \<noteq> i" "parent i \<noteq> i" "parent i < length (refs h)" using parent_less [of i] i(1) by auto
      then show "\<not> cheaper (?w ! j) (?w ! parent i)" using up [of j] w [of j] w [of "parent i"] j by simp
    qed
  qed
  moreover from this have "mset (refs h') = mset (refs h)" by (metis mset_refs pathHeap.select_convs(2) pathHeap.surjective pathHeap.update_convs(1))
  ultimately show ?thesis by (metis path_ok_def set_mset_mset)
qed

section \<open>The queue of the search\<close>

text \<open>\<open>inHeap\<close> finds exactly the path nodes of the heap, and their keys are the current distances.\<close>

definition coherent :: "key list \<Rightarrow> nat set \<Rightarrow> (NodeID \<Rightarrow> nat option) \<Rightarrow> (NodeID \<Rightarrow> int option) \<Rightarrow> bool" where
  "coherent ks rs found d \<longleftrightarrow> (\<forall>n r. found n = Some r \<longrightarrow> r \<in> rs \<and> fst (ks ! r) = n) \<and>
     (\<forall>r\<in>rs. r < length ks \<and> found (fst (ks ! r)) = Some r \<and> d (fst (ks ! r)) = Some (fst (snd (ks ! r))))"

definition queue_ok :: "search \<Rightarrow> bool" where
  "queue_ok s \<longleftrightarrow> path_ok (queue s) \<and> coherent (keys (queue s)) (set (refs (queue s))) (inHeap s) (dist s)"

lemma coherentI:
  "(\<And>n r. found n = Some r \<Longrightarrow> r \<in> rs \<and> fst (ks ! r) = n) \<Longrightarrow>
   (\<And>r. r \<in> rs \<Longrightarrow> r < length ks \<and> found (fst (ks ! r)) = Some r \<and> d (fst (ks ! r)) = Some (fst (snd (ks ! r)))) \<Longrightarrow>
   coherent ks rs found d"
  unfolding coherent_def by blast

lemma coherent_found: "coherent ks rs found d \<Longrightarrow> found n = Some r \<Longrightarrow> r \<in> rs \<and> fst (ks ! r) = n"
  unfolding coherent_def by blast

lemma coherent_ref: "coherent ks rs found d \<Longrightarrow> r \<in> rs \<Longrightarrow>
    r < length ks \<and> found (fst (ks ! r)) = Some r \<and> d (fst (ks ! r)) = Some (fst (snd (ks ! r)))"
  unfolding coherent_def by blast

lemma coherent_new:
  assumes c: "coherent ks rs found d" and n: "found n = None"
  shows "coherent (ks @ [(n, a, t)]) (insert (length ks) rs) (found(n \<mapsto> length ks)) (d(n \<mapsto> a))"
proof (rule coherentI)
  fix m r assume "(found(n \<mapsto> length ks)) m = Some r"
  then show "r \<in> insert (length ks) rs \<and> fst ((ks @ [(n, a, t)]) ! r) = m"
    using coherent_found [OF c, of m r] coherent_ref [OF c, of r] by (auto simp: nth_append split: if_splits)
next
  fix r assume "r \<in> insert (length ks) rs"
  then show "r < length (ks @ [(n, a, t)]) \<and> (found(n \<mapsto> length ks)) (fst ((ks @ [(n, a, t)]) ! r)) = Some r \<and>
      (d(n \<mapsto> a)) (fst ((ks @ [(n, a, t)]) ! r)) = Some (fst (snd ((ks @ [(n, a, t)]) ! r)))"
    using coherent_ref [OF c, of r] n by (cases "r = length ks") (auto simp: nth_append)
qed

lemma coherent_update:
  assumes c: "coherent ks rs found d" and n: "found n = Some r"
  shows "coherent (ks[r := (n, a, t)]) rs found (d(n \<mapsto> a))"
proof (rule coherentI)
  fix m u assume m: "found m = Some u"
  show "u \<in> rs \<and> fst (ks[r := (n, a, t)] ! u) = m"
    using coherent_found [OF c m] coherent_found [OF c n] coherent_ref [OF c, of u]
    by (cases "u = r") auto
next
  fix u assume "u \<in> rs"
  then show "u < length (ks[r := (n, a, t)]) \<and> found (fst (ks[r := (n, a, t)] ! u)) = Some u \<and>
      (d(n \<mapsto> a)) (fst (ks[r := (n, a, t)] ! u)) = Some (fst (snd (ks[r := (n, a, t)] ! u)))"
    using coherent_ref [OF c, of u] n by (cases "u = r") auto
qed

lemma coherent_remove:
  assumes c: "coherent ks rs found d" and n: "found n = Some r"
  shows "coherent ks (rs - {r}) (found(n := None)) d"
proof (rule coherentI)
  fix m u assume "(found(n := None)) m = Some u"
  then show "u \<in> rs - {r} \<and> fst (ks ! u) = m"
    using coherent_found [OF c, of m u] coherent_found [OF c n] by (auto split: if_splits)
next
  fix u assume "u \<in> rs - {r}"
  then show "u < length ks \<and> (found(n := None)) (fst (ks ! u)) = Some u \<and> d (fst (ks ! u)) = Some (fst (snd (ks ! u)))"
    using coherent_ref [OF c, of u] n by auto
qed

lemma coherent_empty: "coherent ks rs found d \<Longrightarrow> rs = {} \<longleftrightarrow> dom found = {}"
  using coherent_ref coherent_found by fastforce

lemma path_ok_refs: "path_ok h \<Longrightarrow> r \<in> set (refs h) \<Longrightarrow> r < length (cells h)"
  by (auto simp: path_ok_def placed_def in_set_conv_nth)

lemma path_ok_alloc:
  assumes "path_ok h"
  shows "path_ok (h\<lparr>cells := cells h @ [c]\<rparr>)"
proof -
  have lt: "r < length (cells h)" if "r \<in> set (refs h)" for r using path_ok_refs [OF assms that] .
  then have "key_view (h\<lparr>cells := cells h @ [c]\<rparr>) = key_view h"
    by (auto simp: key_view_def nth_append)
  then show ?thesis using assms by (auto simp: path_ok_def placed_def nth_append less_SucI)
qed

lemma queue_empty: "queue_ok s \<Longrightarrow> refs (queue s) = [] \<longleftrightarrow> dom (inHeap s) = {}"
  unfolding queue_ok_def by (metis coherent_empty set_empty2)

lemma pop_next_ok:
  assumes s: "queue_ok s" and ne: "dom (inHeap s) \<noteq> {}"
  obtains cur s' where "pop_next s = (cur, s')" "queue_ok s'" "dist s' = dist s" "prev s' = prev s"
    "inHeap s' = (inHeap s)(node cur := None)" "node cur \<in> dom (inHeap s)" "amountToSend cur = dist_at (dist s) (node cur)"
    "\<forall>n\<in>dom (inHeap s). amountToSend cur \<le> dist_at (dist s) n"
proof -
  let ?q = "queue s"
  have q: "path_ok ?q" "refs ?q \<noteq> []" using s ne queue_empty by (auto simp: queue_ok_def)
  obtain r q' where pop: "path_pop ?q = (r, q')" "path_ok q'" "r \<in> set (refs ?q)" "set (refs q') = set (refs ?q) - {r}"
    "keys q' = keys ?q" and least: "\<forall>u\<in>set (refs ?q). fst (snd (keys ?q ! r)) \<le> fst (snd (keys ?q ! u))"
    using path_pop_ok [OF q] by blast
  let ?cur = "cells q' ! r"
  have "r < length (cells q')" using path_ok_refs [OF q(1) pop(3)] pop(5) by (metis length_map)
  then have cur: "node ?cur = fst (keys ?q ! r)" "amountToSend ?cur = fst (snd (keys ?q ! r))"
    using arg_cong [OF pop(5), of "\<lambda>ks. ks ! r"] by (simp_all add: key_of_def prod_eq_iff)
  have coh: "coherent (keys ?q) (set (refs ?q)) (inHeap s) (dist s)" using s by (simp add: queue_ok_def)
  have in_r: "inHeap s (node ?cur) = Some r" and dist_r: "dist s (node ?cur) = Some (amountToSend ?cur)"
    using coherent_ref [OF coh pop(3)] by (auto simp: cur)
  show thesis
  proof (rule that)
    show "pop_next s = (?cur, s\<lparr>queue := q', inHeap := (inHeap s)(node ?cur := None)\<rparr>)"
      by (simp add: pop_next_def pop(1) Let_def)
    show "queue_ok (s\<lparr>queue := q', inHeap := (inHeap s)(node ?cur := None)\<rparr>)"
      using s pop(2,4,5) coherent_remove [OF coh in_r] by (simp add: queue_ok_def)
    show "\<forall>n\<in>dom (inHeap s). amountToSend ?cur \<le> dist_at (dist s) n"
    proof
      fix n assume "n \<in> dom (inHeap s)"
      then obtain u where "inHeap s n = Some u" by auto
      with coherent_found [OF coh this] coherent_ref [OF coh, of u] least
      show "amountToSend ?cur \<le> dist_at (dist s) n" unfolding cur by (auto simp: dist_at_def)
    qed
  qed (use in_r dist_r in \<open>auto simp: dist_at_def\<close>)
qed

definition incoming :: "pathNode \<Rightarrow> ChannelEdge \<Rightarrow> int" where
  "incoming cur e = wrap64 (amountToSend cur + hopFee (Policy e) (amountToSend cur))"

definition improves :: "pathNode \<Rightarrow> search \<Rightarrow> ChannelEdge \<Rightarrow> bool" where
  "improves cur s e \<longleftrightarrow> edgePassesFilters e (incoming cur e) \<and> incoming cur e < dist_at (dist s) (From e)"

lemma relax_same: "\<not> improves cur s e \<Longrightarrow> relax cur s e = s"
  unfolding relax_def improves_def incoming_def Let_def by (rule if_not_P)

lemma relax_improves:
  assumes s: "queue_ok s" and imp: "improves cur s e"
  shows "queue_ok (relax cur s e)" "dom (inHeap (relax cur s e)) = insert (From e) (dom (inHeap s))"
    "dist (relax cur s e) = (dist s)(From e \<mapsto> incoming cur e)"
    "prev (relax cur s e) = (prev s)(From e \<mapsto>
       \<lparr>next_node = node cur, edge = e, amount = incoming cur e, prevCLTV = totalCLTV cur + CLTVDelta (Policy e)\<rparr>)"
proof -
  let ?q = "queue s" and ?n = "From e" and ?a = "incoming cur e" and ?t = "totalCLTV cur + CLTVDelta (Policy e)"
  let ?p = "\<lparr>next_node = node cur, edge = e, amount = ?a, prevCLTV = ?t\<rparr>"
  have q: "path_ok ?q" and coh: "coherent (keys ?q) (set (refs ?q)) (inHeap s) (dist s)"
    using s by (simp_all add: queue_ok_def)
  have imp': "edgePassesFilters e ?a" "?a < dist_at (dist s) ?n" using imp by (auto simp: improves_def)
  have "queue_ok (relax cur s e) \<and> dom (inHeap (relax cur s e)) = insert ?n (dom (inHeap s)) \<and>
    dist (relax cur s e) = (dist s)(?n \<mapsto> ?a) \<and> prev (relax cur s e) = (prev s)(?n \<mapsto> ?p)"
  proof (cases "inHeap s ?n")
    case None
    let ?q1 = "?q\<lparr>cells := cells ?q @ [\<lparr>node = ?n, amountToSend = ?a, totalCLTV = ?t, index = 0\<rparr>]\<rparr>" and ?r = "length (cells ?q)"
    let ?q2 = "path_push ?q1 ?r"
    have new: "?r \<notin> set (refs ?q)" using path_ok_refs [OF q] by blast
    have q2: "path_ok ?q2" "set (refs ?q2) = insert ?r (set (refs ?q))" "keys ?q2 = keys ?q @ [(?n, ?a, ?t)]"
      using path_push_ok [OF path_ok_alloc [OF q], of ?r] new by (simp_all add: key_of_def)
    have "relax cur s e = s\<lparr>dist := (dist s)(?n \<mapsto> ?a), prev := (prev s)(?n \<mapsto> ?p), queue := ?q2, inHeap := (inHeap s)(?n \<mapsto> ?r)\<rparr>"
      using imp' None by (simp add: relax_def incoming_def Let_def)
    moreover have "coherent (keys ?q @ [(?n, ?a, ?t)]) (insert ?r (set (refs ?q))) ((inHeap s)(?n \<mapsto> ?r)) ((dist s)(?n \<mapsto> ?a))"
      using coherent_new [of "keys ?q" _ _ _ ?n ?a ?t] s None by (simp add: queue_ok_def)
    ultimately show ?thesis using q2 by (simp add: queue_ok_def)
  next
    case (Some r)
    let ?cs = "(cells ?q)[r := (cells ?q ! r)\<lparr>amountToSend := ?a, totalCLTV := ?t\<rparr>]"
    let ?q2 = "path_fix (?q\<lparr>cells := ?cs\<rparr>) (nat (index (?cs ! r)))"
    have r: "r \<in> set (refs ?q)" "node (cells ?q ! r) = ?n" "dist s ?n = Some (amountToSend (cells ?q ! r))"
      using coherent_found [OF coh Some] coherent_ref [OF coh, of r] by (auto simp: key_of_def)
    have q2: "path_ok ?q2" "set (refs ?q2) = set (refs ?q)" "keys ?q2 = (keys ?q)[r := (?n, ?a, ?t)]"
      using path_fix_ok [OF q r(1), of ?a ?t] imp'(2) r(2,3) by (simp_all add: dist_at_def)
    have "relax cur s e = s\<lparr>dist := (dist s)(?n \<mapsto> ?a), prev := (prev s)(?n \<mapsto> ?p), queue := ?q2\<rparr>"
      using imp' Some by (simp add: relax_def incoming_def Let_def)
    moreover have "coherent ((keys ?q)[r := (?n, ?a, ?t)]) (set (refs ?q)) (inHeap s) ((dist s)(?n \<mapsto> ?a))"
      by (rule coherent_update [OF coh Some])
    ultimately show ?thesis using q2 Some by (auto simp: queue_ok_def)
  qed
  then show "queue_ok (relax cur s e)" "dom (inHeap (relax cur s e)) = insert (From e) (dom (inHeap s))"
    "dist (relax cur s e) = (dist s)(From e \<mapsto> incoming cur e)"
    "prev (relax cur s e) = (prev s)(From e \<mapsto>
       \<lparr>next_node = node cur, edge = e, amount = incoming cur e, prevCLTV = totalCLTV cur + CLTVDelta (Policy e)\<rparr>)"
    by blast+
qed

end
