(* ===== verification/RouteSearch.thy ===== *)
theory RouteSearch
  imports PaymentRouter
begin

text \<open>
  What the payment router promises: the routes of a graph with their outlay, and the proof that the
  search of PaymentRouter finds one, and the cheapest one under the condition that it needs.
\<close>

section \<open>Routes\<close>

text \<open>What the sender of \<open>e\<close> pays for the other end to send \<open>a\<close> on, without the bounds of machine integers.\<close>

definition cost :: "ChannelEdge \<Rightarrow> int \<Rightarrow> int" where
  "cost e a = a + BaseFee (Policy e) + a * FeeRatePPM (Policy e) div 1000000"

fun outlay :: "int \<Rightarrow> ChannelEdge list \<Rightarrow> int" where
  "outlay amt [] = amt"
| "outlay amt (e # es) = cost e (outlay amt es)"

text \<open>A route from \<open>n\<close> along edges of the graph that pass the filters with what is sent over them.\<close>

fun route :: "ChannelEdge set \<Rightarrow> NodeID \<Rightarrow> int \<Rightarrow> ChannelEdge list \<Rightarrow> NodeID \<Rightarrow> bool" where
  "route E dst amt [] n \<longleftrightarrow> n = dst"
| "route E dst amt (e # es) n \<longleftrightarrow> e \<in> E \<and> From e = n \<and> edgePassesFilters e (outlay amt (e # es)) \<and> route E dst amt es (To e)"

fun hops_of :: "int \<Rightarrow> ChannelEdge list \<Rightarrow> Hop list" where
  "hops_of amt [] = []"
| "hops_of amt (e # es) =
     \<lparr>HopNode = To e, HopChannel = ChannelID e, AmtToForward = outlay amt es,
      Fee = outlay amt (e # es) - outlay amt es, HopDelta = CLTVDelta (Policy e)\<rparr> # hops_of amt es"

definition edge_set :: "Graph \<Rightarrow> ChannelEdge set" where
  "edge_set g = (\<Union>n. set (edges_at (Edges g) n))"

text \<open>Policies within the bounds of the network: no amount leaves the range of \<open>int64\<close>.\<close>

definition sane :: "ChannelEdge \<Rightarrow> bool" where
  "sane e \<longleftrightarrow> 0 \<le> BaseFee (Policy e) \<and> BaseFee (Policy e) \<le> 10 ^ 12 \<and> 0 \<le> FeeRatePPM (Policy e) \<and>
     FeeRatePPM (Policy e) \<le> 10 ^ 6 \<and> MaxHTLC (Policy e) \<le> 10 ^ 12 \<and> 0 \<le> Capacity e \<and> Capacity e \<le> 21 * 10 ^ 14"

lemma cost_ge: "sane e \<Longrightarrow> 0 \<le> a \<Longrightarrow> a \<le> cost e a"
  by (simp add: cost_def sane_def pos_imp_zdiv_nonneg_iff)

lemma cost_mono: "sane e \<Longrightarrow> a \<le> b \<Longrightarrow> cost e a \<le> cost e b"
  by (simp add: cost_def sane_def add_mono zdiv_mono1 mult_right_mono)

lemma cost_int64:
  assumes e: "sane e" and a: "0 \<le> a" "a \<le> 10 ^ 12"
  shows "wrap64 (a + hopFee (Policy e) a) = cost e a"
proof -
  let ?r = "FeeRatePPM (Policy e)" and ?b = "BaseFee (Policy e)"
  have r: "0 \<le> ?r" "?r \<le> 10 ^ 6" and b: "0 \<le> ?b" "?b \<le> 10 ^ 12" using e by (auto simp: sane_def)
  have prod: "0 \<le> a * ?r" "a * ?r \<le> 10 ^ 12 * 10 ^ 6" 
    using a r mult_mono [OF a(2) r(2)] by auto
  then have w: "wrap64 (a * ?r) = a * ?r" by simp
  have d: "go_div (a * ?r) 1000000 = a * ?r div 1000000" using prod(1) by (simp add: go_div_nonneg)
  have q: "0 \<le> a * ?r div 1000000" "a * ?r div 1000000 \<le> 10 ^ 12"
    using prod zdiv_mono1 [OF prod(2), of 1000000] by (auto simp: pos_imp_zdiv_nonneg_iff)
  then have "hopFee (Policy e) a = ?b + a * ?r div 1000000" using b by (simp add: hopFee_def w d)
  then show ?thesis using a b q by (simp add: cost_def)
qed

lemma passes_iff:
  "sane e \<Longrightarrow> edgePassesFilters e a \<longleftrightarrow>
   \<not> Disabled (Policy e) \<and> MinHTLC (Policy e) \<le> a \<and> a \<le> MaxHTLC (Policy e) \<and> a \<le> Capacity e * 1000"
  by (auto simp: edgePassesFilters_def sane_def)

lemma outlay_ge: "route E dst amt es n \<Longrightarrow> (\<forall>e\<in>E. sane e) \<Longrightarrow> 0 \<le> amt \<Longrightarrow> amt \<le> outlay amt es"
proof (induction es arbitrary: n)
  case (Cons e es)
  then have "amt \<le> outlay amt es" "sane e" by auto
  then show ?case using cost_ge [of e "outlay amt es"] Cons.prems(3) by simp
qed simp

section \<open>The invariant of the search\<close>

text \<open>
  \<open>S\<close> is the list of nodes that have been popped, in that order, \<open>K\<close> the distance of the last one, \<open>R\<close> the
  edges that have been relaxed. \<open>linked\<close> says what the entry of a node in \<open>prev\<close> records.
\<close>

definition linked :: "ChannelEdge set \<Rightarrow> NodeID set \<Rightarrow> search \<Rightarrow> NodeID \<Rightarrow> bool" where
  "linked E S s n \<longleftrightarrow> (let p = prev_at (prev s) n; e = edge p in
     e \<in> E \<and> From e = n \<and> To e = next_node p \<and> To e \<in> S \<and> amount p = dist_at (dist s) n \<and>
     dist_at (dist s) n = cost e (dist_at (dist s) (To e)) \<and> edgePassesFilters e (dist_at (dist s) n))"

definition reached :: "NodeID list \<Rightarrow> search \<Rightarrow> NodeID set" where
  "reached S s = set S \<union> dom (inHeap s)"

definition book :: "NodeID set \<Rightarrow> NodeID \<Rightarrow> int \<Rightarrow> NodeID list \<Rightarrow> search \<Rightarrow> bool" where
  "book N dst amt S s \<longleftrightarrow> queue_ok s \<and> distinct S \<and> set S \<inter> dom (inHeap s) = {} \<and> reached S s \<subseteq> insert dst N \<and>
     (\<forall>n\<in>insert dst N. n \<notin> reached S s \<longrightarrow> dist_at (dist s) n = MaxInt64) \<and>
     dist_at (dist s) dst = amt \<and> dst \<in> reached S s"

definition trail :: "ChannelEdge set \<Rightarrow> NodeID \<Rightarrow> NodeID list \<Rightarrow> search \<Rightarrow> bool" where
  "trail E dst S s \<longleftrightarrow> (\<forall>n\<in>reached S s. n \<noteq> dst \<longrightarrow> linked E (set S) s n) \<and>
     (\<forall>i<length S. S ! i \<noteq> dst \<longrightarrow> next_node (prev_at (prev s) (S ! i)) \<in> set (take i S))"

definition ordered :: "int \<Rightarrow> NodeID list \<Rightarrow> int \<Rightarrow> search \<Rightarrow> bool" where
  "ordered amt S K s \<longleftrightarrow> 0 \<le> amt \<and> amt \<le> K \<and> K \<le> 10 ^ 12 \<and> (\<forall>n\<in>set S. amt \<le> dist_at (dist s) n \<and> dist_at (dist s) n \<le> K) \<and>
     (\<forall>n\<in>dom (inHeap s). K \<le> dist_at (dist s) n \<and> dist_at (dist s) n \<le> 10 ^ 12)"

definition relaxed :: "ChannelEdge set \<Rightarrow> search \<Rightarrow> bool" where
  "relaxed R s \<longleftrightarrow> (\<forall>e\<in>R. edgePassesFilters e (cost e (dist_at (dist s) (To e))) \<longrightarrow>
     dist_at (dist s) (From e) \<le> cost e (dist_at (dist s) (To e)))"

definition search_inv :: "ChannelEdge set \<Rightarrow> NodeID set \<Rightarrow> NodeID \<Rightarrow> int \<Rightarrow> ChannelEdge set \<Rightarrow> NodeID list \<Rightarrow> int \<Rightarrow> search \<Rightarrow> bool" where
  "search_inv E N dst amt R S K s \<longleftrightarrow> book N dst amt S s \<and> trail E dst S s \<and> ordered amt S K s \<and> relaxed R s"

lemmas search_invD = search_inv_def [THEN iffD1, THEN conjunct1] search_inv_def [THEN iffD1, THEN conjunct2, THEN conjunct1]
  search_inv_def [THEN iffD1, THEN conjunct2, THEN conjunct2, THEN conjunct1]
  search_inv_def [THEN iffD1, THEN conjunct2, THEN conjunct2, THEN conjunct2]

lemma dist_at_upd: "dist_at (d(n \<mapsto> a)) m = (if m = n then a else dist_at d m)"
  by (simp add: dist_at_def)

lemma prev_at_upd: "prev_at (p(n \<mapsto> h)) m = (if m = n then h else prev_at p m)"
  by (simp add: prev_at_def)

text \<open>
  Relaxing one edge into the node that has just been popped. When it improves the route of its source, the
  parts of the invariant are kept one by one, from what the step does to \<open>dist\<close>, \<open>prev\<close> and the queue.
\<close>

lemma relax_trail:
  assumes inv: "trail E dst S s" and e: "e \<in> E" "To e \<in> set S" "edgePassesFilters e a" "From e \<notin> set S" "From e \<noteq> dst"
    and a: "a = cost e (dist_at (dist s) (To e))" and h: "next_node h = To e" "edge h = e" "amount h = a"
    and s': "dom (inHeap s') = insert (From e) (dom (inHeap s))" "dist s' = (dist s)(From e \<mapsto> a)"
      "prev s' = (prev s)(From e \<mapsto> h)"
  shows "trail E dst S s'"
  unfolding trail_def
proof (intro conjI ballI impI allI)
  fix m assume m: "m \<in> reached S s'" "m \<noteq> dst"
  show "linked E (set S) s' m"
  proof (cases "m = From e")
    case True
    then show ?thesis using e a h by (auto simp: linked_def Let_def s'(2,3) prev_at_upd dist_at_upd)
  next
    case False
    then have "linked E (set S) s m" using inv m by (auto simp: trail_def reached_def s'(1))
    then show ?thesis using False e(4) by (auto simp: linked_def Let_def s'(2,3) prev_at_upd dist_at_upd)
  qed
next
  fix i assume i: "i < length S" "S ! i \<noteq> dst"
  then have "S ! i \<noteq> From e" using e(4) nth_mem by metis
  then show "next_node (prev_at (prev s') (S ! i)) \<in> set (take i S)"
    using inv i by (simp add: trail_def s'(3) prev_at_upd)
qed

lemma relax_relaxed:
  assumes inv: "relaxed R s" and e: "From e \<noteq> To e" "\<forall>f\<in>R. To f \<noteq> From e"
    and a: "a = cost e (dist_at (dist s) (To e))" "a < dist_at (dist s) (From e)"
    and s': "dist s' = (dist s)(From e \<mapsto> a)"
  shows "relaxed (insert e R) s'"
  unfolding relaxed_def
proof (intro ballI impI)
  fix f assume f: "f \<in> insert e R" "edgePassesFilters f (cost f (dist_at (dist s') (To f)))"
  have to: "dist_at (dist s') (To f) = dist_at (dist s) (To f)" using f(1) e by (auto simp: s' dist_at_upd)
  show "dist_at (dist s') (From f) \<le> cost f (dist_at (dist s') (To f))"
  proof (cases "f = e")
    case True
    then show ?thesis unfolding to by (simp add: s' dist_at_upd a(1))
  next
    case False
    then have "dist_at (dist s) (From f) \<le> cost f (dist_at (dist s) (To f))"
      using f to inv by (auto simp: relaxed_def)
    then show ?thesis unfolding to using a(2) by (auto simp: s' dist_at_upd)
  qed
qed

lemma relax_inv:
  assumes inv: "search_inv E N dst amt R S K s" and e: "e \<in> E" "To e = node cur" "From e \<in> N" and sane: "sane e"
    and cur: "node cur \<in> set S" "amountToSend cur = K" "dist_at (dist s) (node cur) = K"
    and R: "\<forall>e\<in>R. To e \<in> set S"
  shows "search_inv E N dst amt (insert e R) S K (relax cur s e) \<and> (\<forall>n\<in>set S. dist_at (dist (relax cur s e)) n = dist_at (dist s) n)"
proof -
  note inv = inv [unfolded search_inv_def]
  have K: "0 \<le> amt" "amt \<le> K" "0 \<le> K" "K \<le> 10 ^ 12" using inv by (auto simp: ordered_def)
  have inc: "incoming cur e = cost e K" using cost_int64 [OF sane K(3,4)] by (simp add: incoming_def cur(2))
  have ge: "K \<le> cost e K" using cost_ge [OF sane K(3)] .
  show ?thesis
  proof (cases "improves cur s e")
    case False
    then have "relaxed (insert e R) s" using inv by (auto simp: relaxed_def improves_def inc e(2) cur(3))
    then show ?thesis using inv by (simp add: relax_same [OF False] search_inv_def)
  next
    case True
    let ?n = "From e" and ?a = "cost e K" and ?s = "relax cur s e"
    have passes: "edgePassesFilters e ?a" and less: "?a < dist_at (dist s) ?n" using True by (auto simp: improves_def inc)
    have q: "queue_ok s" using inv by (simp add: book_def)
    note s' = relax_improves [OF q True, unfolded inc]
    have n: "?n \<notin> set S" "?n \<noteq> dst" using inv less ge K by (auto simp: ordered_def book_def)
    have a: "?a \<le> 10 ^ 12" "?a = cost e (dist_at (dist s) (To e))"
      using passes sane by (simp_all add: passes_iff sane_def e(2) cur(3))
    have d: "dist_at (dist ?s) m = (if m = ?n then ?a else dist_at (dist s) m)" for m by (simp add: s'(3) dist_at_upd)
    have "reached S ?s = insert ?n (reached S s)" by (auto simp: reached_def s'(2))
    then have "book N dst amt S ?s" using inv n e(3) by (auto simp: book_def s'(1,2) d)
    moreover have "trail E dst S ?s"
      by (rule relax_trail [OF _ e(1) _ passes n a(2) _ _ _ s'(2,3,4)]) (use inv e(2) cur(1) in simp_all)
    moreover have "ordered amt S K ?s" using inv n ge a(1) by (auto simp: ordered_def s'(2) d)
    moreover have "relaxed (insert e R) ?s"
      by (rule relax_relaxed [OF _ _ _ a(2) less s'(3)]) (use inv e(2) cur(1) n(1) R in auto)
    ultimately show ?thesis using n by (auto simp: search_inv_def d)
  qed
qed

lemma relax_all_inv:
  assumes "search_inv E N dst amt R S K s" and "set es \<subseteq> E" and "\<forall>e\<in>set es. To e = node cur \<and> From e \<in> N" and "\<forall>e\<in>E. sane e"
    and "node cur \<in> set S" "amountToSend cur = K" "dist_at (dist s) (node cur) = K" and "\<forall>e\<in>R. To e \<in> set S"
  shows "search_inv E N dst amt (set es \<union> R) S K (foldl (relax cur) s es)"
  using assms
proof (induction es arbitrary: s R)
  case (Cons e es)
  have step: "search_inv E N dst amt (insert e R) S K (relax cur s e)"
    "dist_at (dist (relax cur s e)) (node cur) = K"
    using relax_inv [OF Cons.prems(1), of e cur] Cons.prems by auto
  have "search_inv E N dst amt (set es \<union> insert e R) S K (foldl (relax cur) (relax cur s e) es)"
    by (rule Cons.IH [OF step(1)]) (use Cons.prems step(2) in auto)
  then show ?case by simp
qed simp

section \<open>The outer loop\<close>

text \<open>The next node is popped.\<close>

lemma pop_trail:
  assumes inv: "trail E dst S s" and c: "c \<in> reached S s" and s': "dist s' = dist s" "prev s' = prev s"
    "reached (S @ [c]) s' = reached S s"
  shows "trail E dst (S @ [c]) s'"
  unfolding trail_def s'(3)
proof (intro conjI ballI impI allI)
  fix n assume "n \<in> reached S s" "n \<noteq> dst"
  then have "linked E (set S) s n" using inv by (auto simp: trail_def)
  then show "linked E (set (S @ [c])) s' n" by (auto simp: linked_def Let_def s')
next
  fix i assume i: "i < length (S @ [c])" "(S @ [c]) ! i \<noteq> dst"
  show "next_node (prev_at (prev s') ((S @ [c]) ! i)) \<in> set (take i (S @ [c]))"
  proof (cases "i < length S")
    case True
    then show ?thesis using inv i by (auto simp: trail_def s'(2) nth_append)
  next
    case False
    then have at: "i = length S" using i(1) by simp
    moreover from this have "linked E (set S) s c" using inv i c by (auto simp: trail_def)
    ultimately show ?thesis by (auto simp: linked_def Let_def s'(2))
  qed
qed

lemma pop_inv:
  assumes inv: "search_inv E N dst amt R S K s" and ne: "dom (inHeap s) \<noteq> {}"
  obtains cur s' where "pop_next s = (cur, s')" "node cur \<in> dom (inHeap s)" "dist s' = dist s" "prev s' = prev s"
    "amountToSend cur = dist_at (dist s) (node cur)" "\<forall>n\<in>dom (inHeap s). amountToSend cur \<le> dist_at (dist s) n"
    "search_inv E N dst amt R (S @ [node cur]) (amountToSend cur) s'"
proof -
  have q: "queue_ok s" using inv by (simp add: search_inv_def book_def)
  obtain cur s' where p: "pop_next s = (cur, s')" "queue_ok s'" "dist s' = dist s" "prev s' = prev s"
    "inHeap s' = (inHeap s)(node cur := None)" "node cur \<in> dom (inHeap s)" "amountToSend cur = dist_at (dist s) (node cur)"
    "\<forall>n\<in>dom (inHeap s). amountToSend cur \<le> dist_at (dist s) n"
    by (rule pop_next_ok [OF q ne])
  note inv = inv [unfolded search_inv_def]
  let ?c = "node cur" and ?S = "S @ [node cur]"
  have new: "?c \<notin> set S" "?c \<in> reached S s" using inv p(6) by (auto simp: book_def reached_def)
  have reached: "reached ?S s' = reached S s" using new(2) by (auto simp: reached_def p(5))
  have "book N dst amt ?S s'" using inv new p(2) unfolding book_def reached p(3) by (auto simp: p(5))
  moreover have "trail E dst ?S s'" using inv by (intro pop_trail [OF _ new(2) p(3,4) reached]) simp
  moreover have "ordered amt ?S (amountToSend cur) s'"
  proof -
    have "K \<le> dist_at (dist s) ?c" "dist_at (dist s) ?c \<le> 10 ^ 12" using inv p(6) by (auto simp: ordered_def)
    moreover from this have "dist_at (dist s) n \<le> dist_at (dist s) ?c" if "n \<in> set S" for n
      using inv that by (fastforce simp: ordered_def)
    ultimately show ?thesis using inv p(8) unfolding ordered_def p(3,5,7) by auto
  qed
  moreover have "relaxed R s'" using inv by (simp add: relaxed_def p(3))
  ultimately have "search_inv E N dst amt R ?S (amountToSend cur) s'" by (simp add: search_inv_def)
  then show thesis using that p by blast
qed

text \<open>The route that \<open>prev\<close> records for a node that has been popped.\<close>

lemma reconstruct_route:
  assumes "trail E dst S s" and "dist_at (dist s) dst = amt" and "\<forall>n\<in>set S. 0 \<le> dist_at (dist s) n \<and> dist_at (dist s) n \<le> 10 ^ 12"
    and "0 \<le> amt" "amt \<le> 10 ^ 12"
  shows "i < length S \<Longrightarrow> \<exists>es. route E dst amt es (S ! i) \<and> outlay amt es = dist_at (dist s) (S ! i) \<and>
    (\<forall>hops. reconstruct_loop (prev s) (S ! i) dst amt hops = Some (hops @ hops_of amt es))"
proof (induction i rule: less_induct)
  case (less i)
  show ?case
  proof (cases "S ! i = dst")
    case True
    then show ?thesis using assms(2) by (intro exI [of _ "[]"]) (simp add: reconstruct_loop.simps)
  next
    case False
    let ?p = "prev_at (prev s) (S ! i)"
    let ?e = "edge ?p" and ?m = "next_node ?p"
    have link: "linked E (set S) s (S ! i)" "?m \<in> set (take i S)"
      using assms(1) less.prems False by (auto simp: trail_def reached_def)
    then obtain j where j: "j < i" "S ! j = ?m" using less.prems by (auto simp: in_set_conv_nth)
    then obtain es where es: "route E dst amt es ?m" "outlay amt es = dist_at (dist s) ?m"
      "\<And>hops. reconstruct_loop (prev s) ?m dst amt hops = Some (hops @ hops_of amt es)"
      using less.IH [of j] less.prems by auto
    have e: "?e \<in> E" "From ?e = S ! i" "To ?e = ?m" "amount ?p = cost ?e (dist_at (dist s) ?m)"
      "dist_at (dist s) (S ! i) = cost ?e (dist_at (dist s) ?m)" "edgePassesFilters ?e (dist_at (dist s) (S ! i))"
      using link(1) by (auto simp: linked_def Let_def)
    have r: "route E dst amt (?e # es) (S ! i)" using e es by simp
    have m: "?m \<in> set S" using link(2) by (meson in_set_takeD)
    have out: "(if ?m = dst then amt else amount (prev_at (prev s) ?m)) = dist_at (dist s) ?m"
    proof (cases "?m = dst")
      case False
      then have "linked E (set S) s ?m" using assms(1) m by (auto simp: trail_def reached_def)
      then show ?thesis using False by (simp add: linked_def Let_def)
    qed (use assms(2) in simp)
    have "wrap64 (amount ?p - dist_at (dist s) ?m) = amount ?p - dist_at (dist s) ?m"
    proof (intro wrap64_id)
      have "0 \<le> dist_at (dist s) ?m" "dist_at (dist s) ?m \<le> 10 ^ 12" "0 \<le> amount ?p" "amount ?p \<le> 10 ^ 12"
        using assms(3) m nth_mem [OF less.prems] unfolding e(4) e(5) [symmetric] by blast+
      then show "- (2 ^ 63) \<le> amount ?p - dist_at (dist s) ?m" "amount ?p - dist_at (dist s) ?m < 2 ^ 63" by simp_all
    qed
    then have "reconstruct_loop (prev s) (S ! i) dst amt hops = Some (hops @ hops_of amt (?e # es))" for hops
      by (subst reconstruct_loop.simps) (use False out es e in \<open>simp add: Let_def\<close>)
    then show ?thesis using r e es by (intro exI [of _ "?e # es"]) auto
  qed
qed

text \<open>When no minimum stands in the way of a cheaper route, the queue is never behind one.\<close>

lemma route_bound:
  assumes inv: "search_inv E N dst amt {e \<in> E. To e \<in> set S} S K s" and sane: "\<forall>e\<in>E. sane e \<and> From e \<in> N"
    and minimum: "\<forall>e\<in>E. MinHTLC (Policy e) \<le> amt"
  shows "route E dst amt es n \<Longrightarrow>
    n \<in> set S \<and> dist_at (dist s) n \<le> outlay amt es \<or> (\<exists>m\<in>dom (inHeap s). dist_at (dist s) m \<le> outlay amt es)"
proof (induction es arbitrary: n)
  case Nil
  then show ?case using inv by (auto simp: search_inv_def book_def reached_def)
next
  case (Cons e es)
  note inv = inv [unfolded search_inv_def]
  let ?m = "To e" and ?o = "outlay amt es"
  have e: "e \<in> E" "From e = n" "edgePassesFilters e (cost e ?o)" "route E dst amt es ?m" "sane e" "n \<in> N"
    using Cons.prems sane by auto
  have amt: "0 \<le> amt" using inv by (simp add: ordered_def)
  have o: "amt \<le> ?o" using outlay_ge [OF e(4)] sane amt by blast
  from Cons.IH [OF e(4)] show ?case
  proof
    assume m: "?m \<in> set S \<and> dist_at (dist s) ?m \<le> ?o"
    let ?c = "cost e (dist_at (dist s) ?m)"
    have le: "?c \<le> cost e ?o" using cost_mono [OF e(5)] m by blast
    have dm: "amt \<le> dist_at (dist s) ?m" using inv m by (auto simp: ordered_def)
    then have "amt \<le> ?c" using cost_ge [OF e(5), of "dist_at (dist s) ?m"] amt by simp
    then have "edgePassesFilters e ?c" using e(1,3,5) le minimum by (auto simp: passes_iff)
    then have dn: "dist_at (dist s) n \<le> ?c" using inv e m by (auto simp: relaxed_def)
    have "cost e ?o \<le> 10 ^ 12" using e(3,5) by (simp add: passes_iff sane_def)
    then have "dist_at (dist s) n \<noteq> MaxInt64" using dn le by (simp add: MaxInt64_def)
    then have "n \<in> reached S s" using inv e(6) by (auto simp: book_def)
    then show ?thesis using dn le by (auto simp: reached_def intro: order_trans)
  next
    assume "\<exists>m\<in>dom (inHeap s). dist_at (dist s) m \<le> ?o"
    then obtain m where m: "m \<in> dom (inHeap s)" "dist_at (dist s) m \<le> ?o" by blast
    moreover have "?o \<le> cost e ?o" using cost_ge [OF e(5), of ?o] o amt by simp
    ultimately have "dist_at (dist s) m \<le> outlay amt (e # es)" by simp
    with m(1) show ?thesis by blast
  qed
qed

text \<open>The search ends, as every node is popped at most once, and its result is a route, or none if there is none.\<close>

definition correct_result :: "ChannelEdge set \<Rightarrow> NodeID \<Rightarrow> NodeID \<Rightarrow> int \<Rightarrow> router_error + Hop list \<Rightarrow> bool" where
  "correct_result E src dst amt res \<longleftrightarrow> (case res of
     Inl err \<Rightarrow> err = ErrNoPath \<and> ((\<forall>e\<in>E. MinHTLC (Policy e) \<le> amt) \<longrightarrow> (\<nexists>es. route E dst amt es src))
   | Inr hops \<Rightarrow> \<exists>es. route E dst amt es src \<and> hops = hops_of amt es \<and>
       ((\<forall>e\<in>E. MinHTLC (Policy e) \<le> amt) \<longrightarrow> (\<forall>es'. route E dst amt es' src \<longrightarrow> outlay amt es \<le> outlay amt es')))"

lemma popped_result:
  assumes inv: "search_inv E N dst amt {e \<in> E. To e \<in> set S} S K s" and sane: "\<forall>e\<in>E. sane e \<and> From e \<in> N"
    and src: "src \<notin> set S"
    and inv': "search_inv E N dst amt R (S @ [src]) (dist_at (dist s) src) s'" and same: "dist s' = dist s"
    and least: "\<forall>n\<in>dom (inHeap s). dist_at (dist s) src \<le> dist_at (dist s) n"
  shows "\<exists>hops. reconstructPath (prev s') src dst amt = Some hops \<and> correct_result E src dst amt (Inr hops)"
proof -
  let ?S = "S @ [src]"
  have "trail E dst ?S s'" "dist_at (dist s') dst = amt" "ordered amt ?S (dist_at (dist s) src) s'"
    using inv' by (auto simp: search_inv_def book_def)
  then obtain es where es: "route E dst amt es src" "outlay amt es = dist_at (dist s) src"
    "reconstructPath (prev s') src dst amt = Some (hops_of amt es)"
    using reconstruct_route [of E dst ?S s' amt "length S"] by (fastforce simp: ordered_def reconstructPath_def same)
  moreover have "outlay amt es \<le> outlay amt es'" if "\<forall>e\<in>E. MinHTLC (Policy e) \<le> amt" "route E dst amt es' src" for es'
    using route_bound [OF inv sane that] src least es(2) by force
  ultimately show ?thesis by (auto simp: correct_result_def)
qed

lemma expand_inv:
  assumes rev: "\<And>n. set (edges_at reverse n) = {e \<in> E. To e = n}" and sane: "\<forall>e\<in>E. sane e \<and> From e \<in> N"
    and inv: "search_inv E N dst amt {e \<in> E. To e \<in> set S} (S @ [node cur]) (amountToSend cur) s"
    and cur: "amountToSend cur = dist_at (dist s) (node cur)"
  shows "search_inv E N dst amt {e \<in> E. To e \<in> set (S @ [node cur])} (S @ [node cur]) (amountToSend cur)
    (foldl (relax cur) s (edges_at reverse (node cur)))"
proof -
  have "set (edges_at reverse (node cur)) \<union> {e \<in> E. To e \<in> set S} = {e \<in> E. To e \<in> set (S @ [node cur])}"
    using rev [of "node cur"] by auto
  moreover have "search_inv E N dst amt (set (edges_at reverse (node cur)) \<union> {e \<in> E. To e \<in> set S})
      (S @ [node cur]) (amountToSend cur) (foldl (relax cur) s (edges_at reverse (node cur)))"
    by (rule relax_all_inv [OF inv]) (use rev sane cur in auto)
  ultimately show ?thesis by simp
qed

lemma loop_result:
  assumes rev: "\<And>n. set (edges_at reverse n) = {e \<in> E. To e = n}" and sane: "\<forall>e\<in>E. sane e \<and> From e \<in> N" and N: "finite N"
  shows "search_inv E N dst amt {e \<in> E. To e \<in> set S} S K s \<Longrightarrow> src \<notin> set S \<Longrightarrow>
    \<exists>res. FindPath_loop reverse src dst amt s = Some res \<and> correct_result E src dst amt res"
proof (induction "card (insert dst N - set S)" arbitrary: S K s rule: less_induct)
  case less
  note inv = less.prems(1)
  have book: "book N dst amt S s" and q: "queue_ok s" using inv by (simp_all add: search_inv_def book_def)
  show ?case
  proof (cases "dom (inHeap s) = {}")
    case True
    then have "FindPath_loop reverse src dst amt s = Some (Inl ErrNoPath)"
      using queue_empty [OF q] by (subst FindPath_loop.simps) (simp add: pathHeap_Len_def)
    moreover have "\<not> route E dst amt es src" if "\<forall>e\<in>E. MinHTLC (Policy e) \<le> amt" for es
      using route_bound [OF inv sane that] True less.prems(2) by blast
    ultimately show ?thesis by (simp add: correct_result_def)
  next
    case False
    obtain cur s' where p: "pop_next s = (cur, s')" "node cur \<in> dom (inHeap s)" "dist s' = dist s" "prev s' = prev s"
      "amountToSend cur = dist_at (dist s) (node cur)" "\<forall>n\<in>dom (inHeap s). amountToSend cur \<le> dist_at (dist s) n"
      "search_inv E N dst amt {e \<in> E. To e \<in> set S} (S @ [node cur]) (amountToSend cur) s'"
      by (rule pop_inv [OF inv False])
    have step: "FindPath_loop reverse src dst amt s =
      (if node cur = src then map_option Inr (reconstructPath (prev s') src dst amt)
       else FindPath_loop reverse src dst amt (foldl (relax cur) s' (edges_at reverse (node cur))))"
      using False queue_empty [OF q] by (subst FindPath_loop.simps) (simp add: pathHeap_Len_def p(1))
    show ?thesis
    proof (cases "node cur = src")
      case True
      then show ?thesis
        using popped_result [OF inv sane less.prems(2), of "{e \<in> E. To e \<in> set S}" s'] p step by auto
    next
      case neq: False
      have c: "node cur \<notin> set S" "node cur \<in> insert dst N" using p(2) book by (auto simp: book_def reached_def)
      have "insert dst N - set (S @ [node cur]) \<subset> insert dst N - set S" using c by auto
      then have "card (insert dst N - set (S @ [node cur])) < card (insert dst N - set S)"
        using N by (intro psubset_card_mono) auto
      from less.hyps [OF this expand_inv [OF rev sane p(7)]] show ?thesis using neq less.prems(2) step p(3,5) by auto
    qed
  qed
qed

section \<open>The whole function\<close>

text \<open>A graph as its users build it.\<close>

definition graph_of :: "ChannelEdge list \<Rightarrow> Graph" where
  "graph_of es = foldl AddEdge NewGraph es"

lemma set_edges_at_upd: "set (edges_at (m(n \<mapsto> xs)) k) = (if k = n then set xs else set (edges_at m k))"
  by (simp add: edges_at_def)

lemma graph_of_facts:
  "Nodes (graph_of es) = From ` set es \<union> To ` set es \<and> dom (Edges (graph_of es)) = From ` set es \<and>
   (\<forall>n. set (edges_at (Edges (graph_of es)) n) = {e \<in> set es. From e = n})"
proof (induction es rule: rev_induct)
  case (snoc e es)
  let ?g = "graph_of es"
  have g: "Nodes (graph_of (es @ [e])) = insert (To e) (insert (From e) (Nodes ?g))"
    "Edges (graph_of (es @ [e])) = (Edges ?g)(From e \<mapsto> edges_at (Edges ?g) (From e) @ [e])"
    by (simp_all add: graph_of_def AddEdge_def)
  show ?case unfolding g set_edges_at_upd dom_fun_upd using snoc by auto
qed (simp add: graph_of_def NewGraph_def edges_at_def)

lemma reverse_inner:
  "set (edges_at (foldl (\<lambda>rev e. rev(To e \<mapsto> edges_at rev (To e) @ [e])) m es) n) = set (edges_at m n) \<union> {e \<in> set es. To e = n}"
proof (induction es arbitrary: m)
  case (Cons e es)
  show ?case unfolding foldl_Cons Cons.IH set_edges_at_upd by auto
qed simp

lemma reverse_outer:
  "set (edges_at (foldl (\<lambda>rev k. foldl (\<lambda>rev e. rev(To e \<mapsto> edges_at rev (To e) @ [e])) rev (f k)) m ks) n) =
   set (edges_at m n) \<union> {e \<in> (\<Union>k\<in>set ks. set (f k)). To e = n}"
proof (induction ks arbitrary: m)
  case (Cons k ks)
  show ?case unfolding foldl_Cons Cons.IH reverse_inner by auto
qed simp

lemma set_buildReverseGraph:
  assumes "set ks = dom (Edges (graph_of es))"
  shows "set (edges_at (buildReverseGraph ks (graph_of es)) n) = {e \<in> set es. To e = n}"
  unfolding buildReverseGraph_def reverse_outer assms using graph_of_facts [of es] by (auto simp: edges_at_def)

lemma start_dist:
  "fold (\<lambda>n d. if n \<noteq> dst then d(n \<mapsto> v) else d) ns m k = (if k \<in> set ns \<and> k \<noteq> dst then Some v else m k)"
  by (induction ns arbitrary: m) auto

lemma start_inv:
  assumes amt: "0 \<le> amt" "amt \<le> 10 ^ 12" and N: "set nodes = N"
  shows "search_inv E N dst amt {} [] amt (FindPath_start nodes dst amt)"
proof -
  let ?s = "FindPath_start nodes dst amt" and ?c = "\<lparr>node = dst, amountToSend = amt, totalCLTV = 0, index = 0\<rparr>"
  have h0: "path_init \<lparr>cells = [], refs = []\<rparr> = \<lparr>cells = [], refs = []\<rparr>"
    by (simp add: heap_Init_def pathHeap_Len_def)
  have "path_ok \<lparr>cells = [?c], refs = []\<rparr>" by (simp add: path_ok_def placed_def heap_from_ge)
  from path_push_ok [OF this, of 0] have q: "path_ok (queue ?s)" "set (refs (queue ?s)) = {0}" "keys (queue ?s) = [(dst, amt, 0)]"
    by (simp_all add: FindPath_start_def h0 key_of_def)
  have d: "dist ?s n = (if n = dst then Some amt else if n \<in> N then Some MaxInt64 else None)" for n
    by (auto simp: FindPath_start_def start_dist N)
  have f: "inHeap ?s = [dst \<mapsto> 0]" by (simp add: FindPath_start_def)
  have "queue_ok ?s"
    unfolding queue_ok_def q(2,3) f using q(1) by (auto intro!: coherentI simp: d split: if_splits)
  then show ?thesis
    using amt by (auto simp: search_inv_def book_def trail_def ordered_def relaxed_def reached_def f d dist_at_def)
qed

lemma FindPath_result:
  assumes "list_all sane es" and "0 \<le> amt" "amt \<le> 10 ^ 12"
    and "set nodes = Nodes (graph_of es)" and "set ks = dom (Edges (graph_of es))"
  shows "\<exists>res. FindPath nodes ks (graph_of es) src dst amt = Some res \<and> correct_result (set es) src dst amt res"
  unfolding FindPath_def
proof (rule loop_result)
  show "\<And>n. set (edges_at (buildReverseGraph ks (graph_of es)) n) = {e \<in> set es. To e = n}"
    by (rule set_buildReverseGraph [OF assms(5)])
  show "search_inv (set es) (Nodes (graph_of es)) dst amt {e \<in> set es. To e \<in> set []} [] amt (FindPath_start nodes dst amt)"
    using start_inv [OF assms(2,3,4)] by simp
qed (use assms(1) graph_of_facts [of es] in \<open>auto simp: list_all_iff\<close>)

section \<open>The properties\<close>

text \<open>
  C14: on every graph whose policies are within the bounds of the network, whatever the order of the ranges
  over maps, \<open>FindPath\<close> returns: \<open>ErrNoPath\<close>, or the hops of a route of the graph from the source to the
  destination on which every edge passes its filters with the amount sent over it, the last hop delivers
  the payment, and every hop's fee is what its policy asks for on what it forwards.
\<close>

theorem router_finds_routes:
  assumes "list_all sane es" and "0 \<le> amt" "amt \<le> 10 ^ 12"
    and "set nodes = Nodes (graph_of es)" and "set ks = dom (Edges (graph_of es))"
  shows "FindPath nodes ks (graph_of es) src dst amt = Some (Inl ErrNoPath) \<or>
    (\<exists>r. route (set es) dst amt r src \<and> FindPath nodes ks (graph_of es) src dst amt = Some (Inr (hops_of amt r)))"
proof -
  obtain res where "FindPath nodes ks (graph_of es) src dst amt = Some res" "correct_result (set es) src dst amt res"
    using FindPath_result [OF assms, of src dst] by blast
  then show ?thesis by (cases res) (auto simp: correct_result_def)
qed

text \<open>
  C4: within the bounds of \<open>sane\<close>, for an amount up to \<open>10^12\<close> and when no channel's minimum exceeds it, \<open>FindPath\<close> returns
  in every order of iteration: \<open>ErrNoPath\<close> exactly if there is no route, otherwise the hops of a route
  with the least outlay of all.
\<close>

theorem router_cheapest:
  assumes "list_all sane es" and "0 \<le> amt" "amt \<le> 10 ^ 12"
    and "set nodes = Nodes (graph_of es)" and "set ks = dom (Edges (graph_of es))"
    and "\<forall>e\<in>set es. MinHTLC (Policy e) \<le> amt"
  shows "case FindPath nodes ks (graph_of es) src dst amt of
      None \<Rightarrow> False
    | Some (Inl err) \<Rightarrow> err = ErrNoPath \<and> (\<nexists>r. route (set es) dst amt r src)
    | Some (Inr hops) \<Rightarrow> \<exists>best. hops = hops_of amt best \<and> route (set es) dst amt best src \<and>
        (\<forall>r. route (set es) dst amt r src \<longrightarrow> outlay amt best \<le> outlay amt r)"
proof -
  obtain res where "FindPath nodes ks (graph_of es) src dst amt = Some res" "correct_result (set es) src dst amt res"
    using FindPath_result [OF assms(1-5), of src dst] by blast
  then show ?thesis using assms(6) by (cases res) (auto simp: correct_result_def)
qed

text \<open>Three nodes; between the last two a free channel and one that charges.\<close>

definition channel :: "64 word \<Rightarrow> NodeID \<Rightarrow> NodeID \<Rightarrow> int \<Rightarrow> int \<Rightarrow> ChannelEdge" where
  "channel c a b fee low = \<lparr>ChannelID = c, From = a, To = b, Capacity = 1000,
     Policy = \<lparr>BaseFee = fee, FeeRatePPM = 0, CLTVDelta = 1, Disabled = False, MinHTLC = low, MaxHTLC = 10000\<rparr>\<rparr>"

definition three_channels :: "int \<Rightarrow> ChannelEdge list" where
  "three_channels low = [channel 1 [0] [1] 0 low, channel 2 [1] [2] 0 0, channel 3 [1] [2] 50 0]"

lemma three_channels_checked:
  "list_all sane (three_channels low)" "low \<le> 100 \<Longrightarrow> \<forall>e\<in>set (three_channels low). MinHTLC (Policy e) \<le> 100"
  "set [[0], [1], [2]] = Nodes (graph_of (three_channels low))" "set [[0], [1]] = dom (Edges (graph_of (three_channels low)))"
  "low \<le> 150 \<Longrightarrow> route (set (three_channels low)) [2] 100 [channel 1 [0] [1] 0 low, channel 3 [1] [2] 50 0] [0]"
  using graph_of_facts [of "three_channels low"]
  by (auto simp: three_channels_def channel_def sane_def cost_def passes_iff)

theorem router_finds_routes_witness:
  "FindPath [[0], [1], [2]] [[0], [1]] (graph_of (three_channels 120)) [0] [2] 100 = Some (Inl ErrNoPath) \<or>
    (\<exists>r. route (set (three_channels 120)) [2] 100 r [0] \<and>
       FindPath [[0], [1], [2]] [[0], [1]] (graph_of (three_channels 120)) [0] [2] 100 = Some (Inr (hops_of 100 r)))"
  by (rule router_finds_routes) (use three_channels_checked [of 120] in simp_all)

text \<open>The free channel is found; nothing leads back to the first node.\<close>

theorem router_cheapest_witness:
  "(\<exists>best. FindPath [[0], [1], [2]] [[0], [1]] (graph_of (three_channels 0)) [0] [2] 100 = Some (Inr (hops_of 100 best)) \<and>
      route (set (three_channels 0)) [2] 100 best [0] \<and>
      outlay 100 best \<le> outlay 100 [channel 1 [0] [1] 0 0, channel 3 [1] [2] 50 0]) \<and>
    FindPath [[0], [1], [2]] [[0], [1]] (graph_of (three_channels 0)) [2] [0] 100 = Some (Inl ErrNoPath)"
proof -
  note found = router_cheapest [where es = "three_channels 0" and amt = 100 and nodes = "[[0], [1], [2]]" and ks = "[[0], [1]]",
    OF three_channels_checked(1) _ _ three_channels_checked(3,4) three_channels_checked(2), simplified]
  define r where "r = [channel 1 [0] [1] 0 0, channel 3 [1] [2] 50 0]"
  have r: "route (set (three_channels 0)) [2] 100 r [0]" using three_channels_checked(5) [of 0] by (simp add: r_def)
  have none: "\<not> route (set (three_channels 0)) [0] 100 es [2]" for es
    by (cases es) (auto simp: three_channels_def channel_def)
  show ?thesis
    using found [where src = "[0]" and dst = "[2]"] found [where src = "[2]" and dst = "[0]"] r none
    unfolding r_def [symmetric] by (auto simp del: outlay.simps route.simps split: option.splits sum.splits)
qed

text \<open>
  A minimum makes the search miss a route. The first channel carries at least 120; over the second, free
  one it would be asked for 100. The route over the third, which charges 50, passes every filter, but
  \<open>FindPath\<close> answers \<open>ErrNoPath\<close>: it keeps only the least amount for every node.
\<close>

lemma router_misses_minimum:
  "FindPath [[0], [1], [2]] [[0], [1]] (graph_of (three_channels 120)) [0] [2] 100 = Some (Inl ErrNoPath) \<and>
   route (set (three_channels 120)) [2] 100 [channel 1 [0] [1] 0 120, channel 3 [1] [2] 50 0] [0]"
proof (rule conjI)
  show "FindPath [[0], [1], [2]] [[0], [1]] (graph_of (three_channels 120)) [0] [2] 100 = Some (Inl ErrNoPath)"
    by code_simp
qed (rule three_channels_checked(5), simp)

end
