(* ===== verification/MetricsRing.thy ===== *)
theory MetricsRing
  imports MachineInts
begin

text \<open>
  The two ring buffers of \<open>src/practice/metrics_buffer.go\<close>. Their structs differ in the type of the
  samples only, so they share a record; the read-write lock makes every method one step. Sums of indexes
  stay below twice a slice length. The operations on \<open>float64\<close> that \<open>Average\<close> uses are its arguments.
\<close>

section \<open>The buffers\<close>

record 'e ring =
  buffer :: "'e list"
  writeIdx :: int
  filled :: int
  bufSize :: int

definition NewMetricsBuffer :: "'f \<Rightarrow> int \<Rightarrow> 'f ring go" where
  "NewMetricsBuffer zero sz =
     go_bind (go_make zero sz) (\<lambda>b. Ok \<lparr>buffer = b, writeIdx = 0, filled = 0, bufSize = sz\<rparr>)"

definition MetricsBuffer_Push :: "'f ring \<Rightarrow> 'f \<Rightarrow> 'f ring go" where
  "MetricsBuffer_Push mb v =
     go_bind (go_store (buffer mb) (writeIdx mb) v) (\<lambda>b.
     go_bind (go_rem (writeIdx mb + 1) (bufSize mb)) (\<lambda>w.
     Ok (mb\<lparr>buffer := b, writeIdx := w, filled := (if filled mb < bufSize mb then filled mb + 1 else filled mb)\<rparr>)))"

text \<open>The copy of the samples from \<open>start\<close> to \<open>end_pos\<close>, in one piece or around the end of the buffer.\<close>

definition copy_out :: "'f list \<Rightarrow> int \<Rightarrow> int \<Rightarrow> 'f list \<Rightarrow> 'f list go" where
  "copy_out b start end_pos dest =
     (if start < end_pos
      then go_bind (go_slice b start (end_pos + 1)) (\<lambda>src. Ok (fst (go_copy dest src)))
      else go_bind (go_slice b start (int (length b))) (\<lambda>src.
           case go_copy dest src of (dest, m) \<Rightarrow>
           go_bind (go_slice b 0 (end_pos + 1)) (\<lambda>src.
           Ok (take m dest @ fst (go_copy (drop m dest) src)))))"

definition GetRecent :: "'f \<Rightarrow> 'f ring \<Rightarrow> int \<Rightarrow> 'f list go" where
  "GetRecent zero mb n =
     (let n = (if filled mb < n then filled mb else n)
      in go_bind (go_rem (writeIdx mb - 1 + bufSize mb) (bufSize mb)) (\<lambda>last.
         go_bind (go_rem (writeIdx mb - n + bufSize mb) (bufSize mb)) (\<lambda>start.
         go_bind (go_make zero n) (\<lambda>dest.
           copy_out (buffer mb) start last dest))))"

text \<open>The position of the \<open>i\<close>-th sample from the newest, as both loops over the buffer compute it.\<close>

definition back_pos :: "'e ring \<Rightarrow> int \<Rightarrow> int" where
  "back_pos mb i = (let pos = writeIdx mb - 1 - i in if pos < 0 then bufSize mb + pos else pos)"

fun Average_loop :: "('f \<Rightarrow> 'f \<Rightarrow> 'f) \<Rightarrow> 'f ring \<Rightarrow> nat \<Rightarrow> nat \<Rightarrow> 'f \<Rightarrow> 'f go" where
  "Average_loop add mb i 0 acc = Ok acc"
| "Average_loop add mb i (Suc k) acc =
     go_bind (go_index (buffer mb) (back_pos mb (int i))) (\<lambda>x. Average_loop add mb (Suc i) k (add acc x))"

definition Average :: "'f \<Rightarrow> ('f \<Rightarrow> 'f \<Rightarrow> 'f) \<Rightarrow> ('f \<Rightarrow> 'f \<Rightarrow> 'f) \<Rightarrow> (int \<Rightarrow> 'f) \<Rightarrow> 'f ring \<Rightarrow> 'f go" where
  "Average zero add quot float mb =
     (if filled mb = 0 then Ok zero
      else go_bind (Average_loop add mb 0 (nat (filled mb)) zero) (\<lambda>total. Ok (quot total (float (filled mb)))))"

section \<open>Timestamped samples\<close>

record 'f TimestampedSample =
  Value :: 'f
  Timestamp :: int

definition NewTimestampedMetricsBuffer :: "'f TimestampedSample \<Rightarrow> int \<Rightarrow> 'f TimestampedSample ring go" where
  "NewTimestampedMetricsBuffer zero sz =
     go_bind (go_make zero sz) (\<lambda>b. Ok \<lparr>buffer = b, writeIdx = 0, filled = 0, bufSize = sz\<rparr>)"

text \<open>\<open>now\<close> is what the clock shows.\<close>

definition Timestamped_Push :: "int \<Rightarrow> 'f TimestampedSample ring \<Rightarrow> 'f \<Rightarrow> 'f TimestampedSample ring go" where
  "Timestamped_Push now tmb v =
     go_bind (go_store (buffer tmb) (writeIdx tmb) \<lparr>Value = v, Timestamp = now\<rparr>) (\<lambda>b.
     go_bind (go_rem (writeIdx tmb + 1) (bufSize tmb)) (\<lambda>w.
     Ok (tmb\<lparr>buffer := b, writeIdx := w, filled := (if filled tmb < bufSize tmb then filled tmb + 1 else filled tmb)\<rparr>)))"

text \<open>The clock is read for every sample.\<close>

fun GetWindow_loop :: "(nat \<Rightarrow> int) \<Rightarrow> 'f TimestampedSample ring \<Rightarrow> int \<Rightarrow> nat \<Rightarrow> nat \<Rightarrow> 'f TimestampedSample list \<Rightarrow>
    'f TimestampedSample list go" where
  "GetWindow_loop now tmb duration i 0 result = Ok result"
| "GetWindow_loop now tmb duration i (Suc k) result =
     go_bind (go_index (buffer tmb) (back_pos tmb (int i))) (\<lambda>sample.
       if time_Since (now i) (Timestamp sample) \<le> duration
       then GetWindow_loop now tmb duration (Suc i) k (result @ [sample])
       else Ok result)"

definition GetWindow :: "(nat \<Rightarrow> int) \<Rightarrow> 'f TimestampedSample ring \<Rightarrow> int \<Rightarrow> 'f TimestampedSample list go" where
  "GetWindow now tmb duration =
     (if filled tmb = 0 then Ok [] else GetWindow_loop now tmb duration 0 (nat (filled tmb)) [])"

section \<open>The buffer holds the end of the history\<close>

definition recent :: "nat \<Rightarrow> 'e list \<Rightarrow> 'e list" where
  "recent n xs = drop (length xs - n) xs"

definition holds :: "'e list \<Rightarrow> 'e ring \<Rightarrow> bool" where
  "holds xs mb \<longleftrightarrow> 0 < bufSize mb \<and> int (length (buffer mb)) = bufSize mb \<and> filled mb = min (int (length xs)) (bufSize mb) \<and>
     writeIdx mb = int (length xs mod length (buffer mb)) \<and>
     (\<forall>j<length xs. length xs \<le> j + length (buffer mb) \<longrightarrow> buffer mb ! (j mod length (buffer mb)) = xs ! j)"

lemma holds_length: "holds xs mb \<Longrightarrow> int (length (buffer mb)) = bufSize mb"
  by (simp add: holds_def)

lemma holds_filled:
  assumes "holds xs mb"
  shows "filled mb = int (min (length xs) (length (buffer mb)))" "filled mb = 0 \<longleftrightarrow> xs = []"
proof -
  have *: "filled mb = min (int (length xs)) (bufSize mb)" "0 < bufSize mb" "int (length (buffer mb)) = bufSize mb"
    using assms by (simp_all only: holds_def)
  then show "filled mb = int (min (length xs) (length (buffer mb)))" by simp
  show "filled mb = 0 \<longleftrightarrow> xs = []" unfolding *(1) using *(2) by (auto simp: min_def)
qed

lemma length_recent [simp]: "length (recent n xs) = min n (length xs)"
  by (simp add: recent_def)

lemma recent_nth: "i < min n (length xs) \<Longrightarrow> recent n xs ! i = xs ! (length xs - min n (length xs) + i)"
  by (auto simp: recent_def min_def)

lemma mod_window: "j < k \<Longrightarrow> k < j + n \<Longrightarrow> j mod n \<noteq> k mod (n :: nat)"
proof
  assume "j < k" "k < j + n" "j mod n = k mod n"
  then have "n dvd k - j" by (metis less_imp_le_nat mod_eq_dvd_iff_nat)
  with \<open>j < k\<close> \<open>k < j + n\<close> show False by (auto dest: dvd_imp_le)
qed

text \<open>A list of calls of \<open>Push\<close>.\<close>

fun pushes :: "('r \<Rightarrow> 'v \<Rightarrow> 'r go) \<Rightarrow> 'r \<Rightarrow> 'v list \<Rightarrow> 'r go" where
  "pushes push mb [] = Ok mb"
| "pushes push mb (v # vs) = go_bind (push mb v) (\<lambda>mb. pushes push mb vs)"

text \<open>The contract of \<open>Push\<close>, which both buffers keep: \<open>item\<close> is the sample that it stores.\<close>

locale ring_push =
  fixes push :: "'e ring \<Rightarrow> 'v \<Rightarrow> 'e ring go"
    and item :: "'v \<Rightarrow> 'e"
  assumes push_holds: "holds xs mb \<Longrightarrow> \<exists>mb'. push mb v = Ok mb' \<and> holds (xs @ [item v]) mb' \<and> bufSize mb' = bufSize mb"
begin

lemma pushes_hold:
  "holds xs mb \<Longrightarrow> \<exists>mb'. pushes push mb vs = Ok mb' \<and> holds (xs @ map item vs) mb' \<and> bufSize mb' = bufSize mb"
proof (induction vs arbitrary: xs mb)
  case (Cons v vs)
  obtain mb' where "push mb v = Ok mb'" "holds (xs @ [item v]) mb'" "bufSize mb' = bufSize mb"
    using push_holds [OF Cons.prems] by blast
  with Cons.IH [of "xs @ [item v]" mb'] show ?case by simp
qed simp

end

definition ring_put :: "'e ring \<Rightarrow> 'e \<Rightarrow> 'e ring go" where
  "ring_put mb x =
     go_bind (go_store (buffer mb) (writeIdx mb) x) (\<lambda>b.
     go_bind (go_rem (writeIdx mb + 1) (bufSize mb)) (\<lambda>w.
     Ok (mb\<lparr>buffer := b, writeIdx := w, filled := (if filled mb < bufSize mb then filled mb + 1 else filled mb)\<rparr>)))"

lemma ring_put_holds:
  assumes h: "holds xs mb"
  shows "\<exists>mb'. ring_put mb x = Ok mb' \<and> holds (xs @ [x]) mb' \<and> bufSize mb' = bufSize mb"
proof -
  let ?n = "length (buffer mb)" and ?k = "length xs"
  have n: "0 < ?n" "bufSize mb = int ?n" "filled mb = min (int ?k) (int ?n)" "writeIdx mb = int (?k mod ?n)"
    and b: "\<And>j. j < ?k \<Longrightarrow> ?k \<le> j + ?n \<Longrightarrow> buffer mb ! (j mod ?n) = xs ! j"
    using h by (auto simp: holds_def)
  let ?b = "(buffer mb)[?k mod ?n := x]"
  let ?mb = "mb\<lparr>buffer := ?b, writeIdx := int (Suc ?k mod ?n), filled := min (int (Suc ?k)) (int ?n)\<rparr>"
  have "go_store (buffer mb) (writeIdx mb) x = Ok ?b" using n(1) by (simp add: go_store_def n(4) del: of_nat_mod)
  moreover have "go_rem (writeIdx mb + 1) (bufSize mb) = Ok (int (Suc ?k mod ?n))"
  proof -
    have "int (?k mod ?n) + 1 = int (Suc (?k mod ?n))" by simp
    then have "(int (?k mod ?n) + 1) mod int ?n = int (Suc (?k mod ?n) mod ?n)" by (simp only: zmod_int)
    then show ?thesis using n(1) by (simp add: go_rem_nonneg n(2,4) mod_Suc_eq del: of_nat_mod)
  qed
  moreover have "(if filled mb < bufSize mb then filled mb + 1 else filled mb) = min (int (Suc ?k)) (int ?n)"
    by (auto simp: n(2,3))
  ultimately have put: "ring_put mb x = Ok ?mb" by (simp add: ring_put_def)
  have "?b ! (j mod ?n) = (xs @ [x]) ! j" if j: "j < Suc ?k" "Suc ?k \<le> j + ?n" for j
  proof (cases "j = ?k")
    case True
    then show ?thesis using n(1) by simp
  next
    case False
    then have "j mod ?n \<noteq> ?k mod ?n" using j by (intro mod_window) auto
    then show ?thesis using j False b [of j] by (simp add: nth_append)
  qed
  moreover have "bufSize ?mb = int ?n" "length ?b = ?n" by (simp_all add: n(2))
  ultimately have "holds (xs @ [x]) ?mb" using n(1) unfolding holds_def by (simp del: of_nat_mod nth_append)
  then show ?thesis using put by (intro exI [of _ ?mb]) simp
qed

interpretation plain: ring_push MetricsBuffer_Push "\<lambda>v. v"
  by unfold_locales (unfold MetricsBuffer_Push_def, rule ring_put_holds [unfolded ring_put_def])

interpretation stamped: ring_push "\<lambda>tmb p. Timestamped_Push (fst p) tmb (snd p)" "\<lambda>p. \<lparr>Value = snd p, Timestamp = fst p\<rparr>"
  by unfold_locales (unfold Timestamped_Push_def, rule ring_put_holds [unfolded ring_put_def])

lemma new_holds:
  "0 < sz \<Longrightarrow> holds [] \<lparr>buffer = replicate (nat sz) z, writeIdx = 0, filled = 0, bufSize = sz\<rparr>"
  by (simp add: holds_def)

section \<open>Reading the buffer\<close>

lemma back_pos_holds:
  assumes h: "holds xs mb" and i: "i < nat (filled mb)"
  shows "go_index (buffer mb) (back_pos mb (int i)) = Ok (rev (recent (length (buffer mb)) xs) ! i)"
proof -
  let ?n = "length (buffer mb)" and ?k = "length xs" and ?j = "length xs - 1 - i"
  have n: "0 < ?n" "bufSize mb = int ?n" "writeIdx mb = int (?k mod ?n)" "filled mb = min (int ?k) (int ?n)"
    and b: "\<And>j. j < ?k \<Longrightarrow> ?k \<le> j + ?n \<Longrightarrow> buffer mb ! (j mod ?n) = xs ! j"
    using h by (auto simp: holds_def)
  have i': "i < ?k" "i < ?n" using i n(4) by auto
  have "back_pos mb (int i) = int (?j mod ?n)"
  proof -
    have "int ?j = int (?k div ?n) * int ?n + (int (?k mod ?n) - 1 - int i)"
      using i'(1) by (simp add: of_nat_diff algebra_simps flip: of_nat_mult of_nat_add)
    then have "int (?j mod ?n) = (int (?k mod ?n) - 1 - int i) mod int ?n" by (simp add: zmod_int)
    also have "\<dots> = back_pos mb (int i)"
    proof -
      have lt: "?k mod ?n < ?n" using n(1) by simp
      show ?thesis
      proof (cases "int (?k mod ?n) - 1 - int i < 0")
        case True
        have "(int (?k mod ?n) - 1 - int i) mod int ?n = (int ?n + (int (?k mod ?n) - 1 - int i)) mod int ?n" by simp
        also have "\<dots> = int ?n + (int (?k mod ?n) - 1 - int i)" using True i'(2) by (intro mod_pos_pos_trivial) auto
        finally show ?thesis using True by (simp add: back_pos_def n(2,3) Let_def del: of_nat_mod)
      next
        case False
        then have "(int (?k mod ?n) - 1 - int i) mod int ?n = int (?k mod ?n) - 1 - int i"
          using lt by (intro mod_pos_pos_trivial) auto
        then show ?thesis using False by (simp add: back_pos_def n(2,3) Let_def del: of_nat_mod)
      qed
    qed
    finally show ?thesis ..
  qed
  then have "go_index (buffer mb) (back_pos mb (int i)) = Ok (buffer mb ! (?j mod ?n))" using n(1) by (simp del: of_nat_mod)
  also have "buffer mb ! (?j mod ?n) = xs ! ?j" using i' by (intro b) auto
  also have "\<dots> = rev (recent ?n xs) ! i" using i' by (auto simp: rev_nth recent_nth min_def)
  finally show ?thesis .
qed

lemma Average_loop_holds:
  assumes h: "holds xs mb"
  shows "i + k = nat (filled mb) \<Longrightarrow>
    Average_loop add mb i k acc = Ok (foldl add acc (drop i (rev (recent (length (buffer mb)) xs))))"
proof (induction k arbitrary: i acc)
  case 0
  have "length (rev (recent (length (buffer mb)) xs)) = nat (filled mb)" using h by (auto simp: holds_def)
  with 0 show ?case by simp
next
  case (Suc k)
  have "i < length (rev (recent (length (buffer mb)) xs))" using h Suc.prems by (auto simp: holds_def)
  from Cons_nth_drop_Suc [OF this, symmetric] show ?case
    using back_pos_holds [OF h, of i] Suc.IH [of "Suc i"] Suc.prems by simp
qed

text \<open>\<open>m\<close> samples from position \<open>s\<close> on, around the end of the buffer.\<close>

lemma cyclic_slice:
  assumes "s < length b" "m \<le> length b"
  shows "(if s + m \<le> length b then take m (drop s b) else drop s b @ take (s + m - length b) b) =
    map (\<lambda>i. b ! ((s + i) mod length b)) [0..<m]"
proof (rule nth_equalityI)
  fix i assume "i < length (if s + m \<le> length b then take m (drop s b) else drop s b @ take (s + m - length b) b)"
  then have i: "i < m" using assms by (auto split: if_splits)
  show "(if s + m \<le> length b then take m (drop s b) else drop s b @ take (s + m - length b) b) ! i =
      map (\<lambda>i. b ! ((s + i) mod length b)) [0..<m] ! i"
  proof (cases "s + i < length b")
    case True
    then show ?thesis using i by (auto simp: nth_append)
  next
    case False
    then have "(s + i) mod length b = s + i - length b" using i assms by (simp add: mod_if)
    moreover have "length b < s + m" "i - (length b - s) = s + i - length b" "\<not> i < length b - s" using False i assms(1) by auto
    ultimately show ?thesis using i by (simp add: nth_append)
  qed
qed (use assms in auto)

lemma go_slice_nat: "int hi = h \<Longrightarrow> lo \<le> hi \<Longrightarrow> hi \<le> length b \<Longrightarrow> go_slice b (int lo) h = Ok (take (hi - lo) (drop lo b))"
  using go_slice_Ok by auto

lemma go_copy_Nil [simp]: "go_copy [] src = ([], 0)"
  by (simp add: go_copy_def)

lemma GetRecent_cyclic:
  assumes s: "s < length b" "0 < m" "m \<le> length b" and l: "l = (s + (m - 1)) mod length b" and d: "length dest = m"
  shows "copy_out b (int s) (int l) dest =
    Ok (map (\<lambda>i. b ! ((s + i) mod length b)) [0..<m])"
proof (cases "s + m \<le> length b")
  case True
  then have l': "l = s + (m - 1)" using l s(2) by simp
  show ?thesis
  proof (cases "m = 1")
    case m: True
    have "l < length b" unfolding l using s(1) by (intro mod_less_divisor) linarith
    then have "go_slice b (int s) (int (length b)) = Ok (drop s b)" "go_slice b 0 (int l + 1) = Ok (take (l + 1) b)"
      using s(1) go_slice_nat [of "length b" _ s b] go_slice_nat [of "l + 1" "int l + 1" 0 b] by simp_all
    moreover have "go_copy dest (drop s b) = ([b ! s], 1)"
      using s(1) d m by (auto simp: go_copy_def min_def take_Suc_conv_app_nth hd_drop_conv_nth Let_def)
    ultimately show ?thesis using s(1) m l' by (simp add: copy_out_def)
  next
    case False
    then have "s < l" "l + 1 = s + m" using l' s(2) by auto
    moreover from this have "go_slice b (int s) (int l + 1) = Ok (take m (drop s b))"
      using go_slice_nat [of "s + m" "int l + 1" s b] True by simp
    moreover have "fst (go_copy dest (take m (drop s b))) = take m (drop s b)"
      using d True by (simp add: go_copy_def Let_def)
    ultimately show ?thesis using cyclic_slice [OF s(1,3)] True by (simp add: copy_out_def)
  qed
next
  case False
  then have l': "l = s + m - 1 - length b" using l s by (simp add: mod_if)
  then have "\<not> int s < int l" "l + 1 = s + m - length b" using False s by auto
  moreover from this have "go_slice b 0 (int l + 1) = Ok (take (s + m - length b) b)"
    using go_slice_nat [of "s + m - length b" "int l + 1" 0 b] s by simp
  moreover have "go_slice b (int s) (int (length b)) = Ok (drop s b)"
    using s(1) go_slice_nat [of "length b" _ s b] by simp
  moreover have "go_copy dest (drop s b) = (drop s b @ drop (length b - s) dest, length b - s)"
    using d False s(1) by (auto simp: go_copy_def Let_def min_def)
  ultimately show ?thesis
    using cyclic_slice [OF s(1,3)] False d s by (simp add: copy_out_def) (simp add: go_copy_def Let_def add.commute)
qed

lemma GetRecent_none:
  assumes "s < length b" "l < length b"
  shows "copy_out b (int s) (int l) [] = Ok []"
  using assms go_slice_nat [of "l + 1" "int l + 1" s b] go_slice_nat [of "l + 1" "int l + 1" 0 b]
    go_slice_nat [of "length b" "int (length b)" s b]
  by (simp add: copy_out_def)

text \<open>
  The two indices that the getter computes: the slot of the first entry to return, and the slot of
  the newest one. Both sums stay non-negative, so the remainder of the machine is the modulus.
\<close>

lemma start_index:
  assumes h: "holds xs mb" and m: "m \<le> length xs" "m \<le> length (buffer mb)"
  shows "go_rem (writeIdx mb - int m + bufSize mb) (bufSize mb) = Ok (int ((length xs - m) mod length (buffer mb)))"
proof -
  let ?N = "length (buffer mb)" and ?k = "length xs"
  have N: "0 < ?N" "bufSize mb = int ?N" "writeIdx mb = int (?k mod ?N)" using h by (auto simp: holds_def)
  have "writeIdx mb - int m + bufSize mb = int (?k mod ?N + ?N - m)" using m(2) by (simp add: N(2,3) del: of_nat_mod)
  moreover have "(?k mod ?N + ?N - m) mod ?N = (?k - m) mod ?N"
  proof -
    have "(?k mod ?N + ?N - m) + ?k div ?N * ?N = (?k - m) + ?N"
      using m div_mult_mod_eq [of ?k ?N] by linarith
    from arg_cong [OF this, of "\<lambda>x. x mod ?N"] show ?thesis by simp
  qed
  ultimately show ?thesis using N(1) by (simp only: N(2) go_rem_nonneg of_nat_0_le_iff of_nat_0_less_iff flip: zmod_int)
qed

lemma newest_index:
  assumes h: "holds xs mb"
  shows "go_rem (writeIdx mb - 1 + bufSize mb) (bufSize mb) =
    Ok (int ((length xs + (length (buffer mb) - 1)) mod length (buffer mb)))"
proof -
  let ?N = "length (buffer mb)" and ?k = "length xs"
  have N: "0 < ?N" "bufSize mb = int ?N" "writeIdx mb = int (?k mod ?N)" using h by (auto simp: holds_def)
  have "int (?N - 1) = int ?N - 1" using N(1) by linarith
  then have "writeIdx mb - 1 + bufSize mb = int (?k mod ?N + (?N - 1))" by (simp add: N(2,3) del: of_nat_mod)
  then show ?thesis using N(1) by (simp only: N(2) go_rem_nonneg of_nat_0_le_iff of_nat_0_less_iff mod_add_left_eq flip: zmod_int)
qed

lemma cyclic_recent:
  assumes h: "holds xs mb" and m: "m \<le> length xs" "m \<le> length (buffer mb)"
  shows "map (\<lambda>i. buffer mb ! (((length xs - m) mod length (buffer mb) + i) mod length (buffer mb))) [0..<m] = recent m xs"
proof (rule nth_equalityI)
  fix i
  assume "i < length (map (\<lambda>i. buffer mb ! (((length xs - m) mod length (buffer mb) + i) mod length (buffer mb))) [0..<m])"
  then have i: "i < m" by simp
  have "buffer mb ! ((length xs - m + i) mod length (buffer mb)) = xs ! (length xs - m + i)"
    using h i m by (auto simp: holds_def)
  then show "map (\<lambda>i. buffer mb ! (((length xs - m) mod length (buffer mb) + i) mod length (buffer mb))) [0..<m] ! i = recent m xs ! i"
    using i m by (simp add: recent_nth mod_add_left_eq)
qed (use m in simp)

lemma GetRecent_holds:
  assumes h: "holds xs mb" and n: "0 \<le> n"
  shows "GetRecent zero mb n = Ok (recent (min (nat n) (length (buffer mb))) xs)"
proof -
  let ?N = "length (buffer mb)" and ?k = "length xs"
  have N: "0 < ?N" "filled mb = min (int ?k) (int ?N)" using h by (auto simp: holds_def)
  define m where "m = min (nat n) (min ?k ?N)"
  have m: "(if filled mb < n then filled mb else n) = int m" "m \<le> ?k" "m \<le> ?N" using n by (auto simp: m_def N(2))
  have recent: "recent (min (nat n) ?N) xs = recent m xs" by (simp add: m_def recent_def min_def)
  have make: "go_make zero (int m) = Ok (replicate m zero)" by (simp add: go_make_def)
  note run = GetRecent_def Let_def m(1) start_index [OF h m(2,3)] newest_index [OF h] make go_bind.simps
  show ?thesis
  proof (cases "m = 0")
    case True
    then have "recent m xs = []" by (simp add: recent_def)
    moreover have "GetRecent zero mb n = Ok []"
      unfolding run unfolding True replicate_0 using N(1) by (intro GetRecent_none mod_less_divisor)
    ultimately show ?thesis by (simp add: recent)
  next
    case False
    let ?s = "(?k - m) mod ?N"
    have "?k + (?N - 1) = (?k - m) + (m - 1) + ?N" using False m(2) N(1) by linarith
    then have l: "(?k + (?N - 1)) mod ?N = (?s + (m - 1)) mod ?N" by (simp add: mod_add_left_eq)
    have "GetRecent zero mb n = Ok (map (\<lambda>i. buffer mb ! ((?s + i) mod ?N)) [0..<m])"
      unfolding run
      using GetRecent_cyclic [of ?s "buffer mb" m "(?k + (?N - 1)) mod ?N" "replicate m zero"] False m(3) N(1) l by simp
    then show ?thesis by (simp only: recent cyclic_recent [OF h m(2,3)])
  qed
qed

end
