(* ===== verification/MetricsHistory.thy ===== *)
theory MetricsHistory
  imports MetricsRing
begin

text \<open>
  What the ring buffers of MetricsRing promise: the list of all samples ever pushed, of which a buffer
  answers for the end, and the window of the timestamped buffer.
\<close>

lemma GetRecent_negative:
  assumes h: "holds xs mb" and n: "n < 0"
  shows "GetRecent zero mb n = Panic MakeNegative"
proof -
  have "0 < bufSize mb" "0 \<le> filled mb" "0 \<le> writeIdx mb" using h by (auto simp: holds_def)
  then show ?thesis using n by (simp add: GetRecent_def Let_def go_rem_def go_make_def)
qed

text \<open>The window ends at the first sample that is too old.\<close>

lemma GetWindow_loop_holds:
  assumes h: "holds xs tmb"
  defines "R \<equiv> rev (recent (length (buffer tmb)) xs)"
  shows "i + k = nat (filled tmb) \<Longrightarrow> \<exists>j. i \<le> j \<and> j \<le> i + k \<and>
    GetWindow_loop now tmb d i k acc = Ok (acc @ take (j - i) (drop i R)) \<and>
    (\<forall>l. i \<le> l \<longrightarrow> l < j \<longrightarrow> time_Since (now l) (Timestamp (R ! l)) \<le> d) \<and>
    (j < i + k \<longrightarrow> d < time_Since (now j) (Timestamp (R ! j)))"
proof (induction k arbitrary: i acc)
  case 0
  show ?case by (rule exI [of _ i]) auto
next
  case (Suc k)
  have i: "i < length R" using h Suc.prems by (auto simp: R_def holds_def)
  have read: "go_index (buffer tmb) (back_pos tmb (int i)) = Ok (R ! i)"
    using back_pos_holds [OF h, of i] Suc.prems by (simp add: R_def)
  show ?case
  proof (cases "time_Since (now i) (Timestamp (R ! i)) \<le> d")
    case True
    obtain j where j: "Suc i \<le> j" "j \<le> Suc i + k"
      "GetWindow_loop now tmb d (Suc i) k (acc @ [R ! i]) = Ok ((acc @ [R ! i]) @ take (j - Suc i) (drop (Suc i) R))"
      "\<forall>l. Suc i \<le> l \<longrightarrow> l < j \<longrightarrow> time_Since (now l) (Timestamp (R ! l)) \<le> d"
      "j < Suc i + k \<longrightarrow> d < time_Since (now j) (Timestamp (R ! j))"
      using Suc.IH [of "Suc i" "acc @ [R ! i]"] Suc.prems by auto
    have "drop i R = R ! i # drop (Suc i) R" using i by (rule Cons_nth_drop_Suc [symmetric])
    moreover have "j - i = Suc (j - Suc i)" using j(1) by simp
    ultimately have "take (j - i) (drop i R) = R ! i # take (j - Suc i) (drop (Suc i) R)" by (simp only: take_Suc_Cons)
    then have "GetWindow_loop now tmb d i (Suc k) acc = Ok (acc @ take (j - i) (drop i R))"
      using j(3) True by (simp add: read)
    moreover have "time_Since (now l) (Timestamp (R ! l)) \<le> d" if "i \<le> l" "l < j" for l
      using j(4) True that by (cases "l = i") auto
    ultimately show ?thesis using j(1,2,5) by (intro exI [of _ j]) auto
  next
    case False
    then show ?thesis by (intro exI [of _ i]) (auto simp: read)
  qed
qed

section \<open>The properties\<close>

datatype 'f metrics_op = PushOp 'f | RecentOp int | AverageOp

datatype 'f metrics_out = Pushed "unit go" | Samples "'f list go" | Mean "'f go"

text \<open>A call that panics leaves the buffer as it is: the reads change nothing, and \<open>Push\<close> does not panic.\<close>

fun metrics_step :: "'f \<Rightarrow> ('f \<Rightarrow> 'f \<Rightarrow> 'f) \<Rightarrow> ('f \<Rightarrow> 'f \<Rightarrow> 'f) \<Rightarrow> (int \<Rightarrow> 'f) \<Rightarrow> 'f ring \<Rightarrow> 'f metrics_op \<Rightarrow> 'f metrics_out \<times> 'f ring" where
  "metrics_step zero add quot float mb (PushOp v) =
     (case MetricsBuffer_Push mb v of Inl e \<Rightarrow> (Pushed (Inl e), mb) | Inr mb' \<Rightarrow> (Pushed (Ok ()), mb'))"
| "metrics_step zero add quot float mb (RecentOp n) = (Samples (GetRecent zero mb n), mb)"
| "metrics_step zero add quot float mb AverageOp = (Mean (Average zero add quot float mb), mb)"

text \<open>The specification keeps every value that was ever pushed.\<close>

fun history_step :: "nat \<Rightarrow> 'f \<Rightarrow> ('f \<Rightarrow> 'f \<Rightarrow> 'f) \<Rightarrow> ('f \<Rightarrow> 'f \<Rightarrow> 'f) \<Rightarrow> (int \<Rightarrow> 'f) \<Rightarrow> 'f list \<Rightarrow> 'f metrics_op \<Rightarrow> 'f metrics_out \<times> 'f list" where
  "history_step N zero add quot float xs (PushOp v) = (Pushed (Ok ()), xs @ [v])"
| "history_step N zero add quot float xs (RecentOp n) =
     (Samples (if n < 0 then Panic MakeNegative else Ok (recent (min (nat n) N) xs)), xs)"
| "history_step N zero add quot float xs AverageOp =
     (Mean (Ok (if xs = [] then zero else quot (foldl add zero (rev (recent N xs))) (float (int (min (length xs) N))))), xs)"

interpretation metrics: refines "metrics_step zero add quot float" "history_step N zero add quot float"
  "\<lambda>mb xs. holds xs mb \<and> length (buffer mb) = N" "\<lambda>p. True" for zero :: 'f and add quot float N
proof unfold_locales
  fix mb :: "'f ring" and xs p
  assume R: "holds xs mb \<and> length (buffer mb) = N"
  have "fst (metrics_step zero add quot float mb p) = fst (history_step N zero add quot float xs p) \<and>
    holds (snd (history_step N zero add quot float xs p)) (snd (metrics_step zero add quot float mb p)) \<and>
    length (buffer (snd (metrics_step zero add quot float mb p))) = N"
  proof (cases p)
    case (PushOp v)
    obtain mb' where mb': "MetricsBuffer_Push mb v = Ok mb'" "holds (xs @ [v]) mb'" "bufSize mb' = bufSize mb"
      using plain.push_holds [of xs mb v] R by blast
    then have "length (buffer mb') = N" using holds_length [of xs mb] holds_length [of "xs @ [v]" mb'] R by linarith
    then show ?thesis using mb'(1,2) by (simp add: PushOp)
  next
    case (RecentOp n)
    then show ?thesis using R GetRecent_holds [of xs mb n zero] GetRecent_negative [of xs mb n zero] by (cases "n < 0") auto
  next
    case AverageOp
    have "filled mb = int (min (length xs) N)" "filled mb = 0 \<longleftrightarrow> xs = []" using R holds_filled by auto
    moreover have "Average_loop add mb 0 (nat (filled mb)) zero = Ok (foldl add zero (rev (recent N xs)))"
      using R Average_loop_holds [of xs mb 0 "nat (filled mb)" add zero] by simp
    ultimately show ?thesis using R AverageOp by (simp add: Average_def)
  qed
  then show "fst (metrics_step zero add quot float mb p) = fst (history_step N zero add quot float xs p)"
    and "holds (snd (history_step N zero add quot float xs p)) (snd (metrics_step zero add quot float mb p)) \<and>
      length (buffer (snd (metrics_step zero add quot float mb p))) = N" by blast+
qed

text \<open>
  C11: a metrics buffer of any positive size answers every sequence of \<open>Push\<close>, \<open>GetRecent\<close> and \<open>Average\<close>
  as the list of all values pushed: the last \<open>n\<close> of those it still has room for, in order, the
  average over these, added up from the newest, and a panic for a negative \<open>n\<close> only.
\<close>

theorem metrics_refines_history:
  assumes "0 < sz"
  shows "\<exists>mb. NewMetricsBuffer zero sz = Ok mb \<and>
    fst (run_ops (metrics_step zero add quot float) mb ops) = fst (run_ops (history_step (nat sz) zero add quot float) [] ops)"
proof -
  let ?mb = "\<lparr>buffer = replicate (nat sz) zero, writeIdx = 0, filled = 0, bufSize = sz\<rparr>"
  have "NewMetricsBuffer zero sz = Ok ?mb" using assms by (simp add: NewMetricsBuffer_def go_make_def)
  moreover have "holds [] ?mb \<and> length (buffer ?mb) = nat sz" using new_holds [OF assms] by simp
  from metrics.run_outputs [OF this] have
    "fst (run_ops (metrics_step zero add quot float) ?mb ops) = fst (run_ops (history_step (nat sz) zero add quot float) [] ops)" by simp
  ultimately show ?thesis by blast
qed

theorem metrics_refines_history_witness:
  "\<exists>mb. NewMetricsBuffer 0 3 = Ok mb \<and>
    fst (run_ops (metrics_step 0 (+) (div) id) mb [PushOp 1, PushOp 2, PushOp 3, PushOp (7 :: int), RecentOp 2, AverageOp]) =
      [Pushed (Ok ()), Pushed (Ok ()), Pushed (Ok ()), Pushed (Ok ()), Samples (Ok [3, 7]), Mean (Ok 4)]"
  using metrics_refines_history [of 3 0 "(+)" "(div)" id "[PushOp 1, PushOp 2, PushOp 3, PushOp (7 :: int), RecentOp 2, AverageOp]"]
  by (simp add: recent_def numeral_eq_Suc)

text \<open>
  C37: \<open>GetWindow\<close> on a timestamped buffer gives a front part of the samples it holds, newest first, that
  ends where the window ends: all of them were within the duration when the loop began, and all samples
  left out were already too old when it stopped.
\<close>

theorem window_exact:
  assumes "0 < sz" and "sorted (map fst ps)" and "mono now"
  defines "R \<equiv> rev (recent (nat sz) (map (\<lambda>p. \<lparr>Value = snd p, Timestamp = fst p\<rparr>) ps))"
  shows "\<exists>tmb j. go_bind (NewTimestampedMetricsBuffer zero sz) (\<lambda>tmb. pushes (\<lambda>tmb p. Timestamped_Push (fst p) tmb (snd p)) tmb ps) = Ok tmb \<and>
    GetWindow now tmb d = Ok (take j R) \<and>
    (\<forall>s\<in>set (take j R). time_Since (now 0) (Timestamp s) \<le> d) \<and> (\<forall>s\<in>set (drop j R). d < time_Since (now j) (Timestamp s))"
proof -
  let ?item = "\<lambda>p. \<lparr>Value = snd p, Timestamp = fst p\<rparr>"
  let ?mb = "\<lparr>buffer = replicate (nat sz) zero, writeIdx = 0, filled = 0, bufSize = sz\<rparr>"
  obtain tmb where push: "pushes (\<lambda>tmb p. Timestamped_Push (fst p) tmb (snd p)) ?mb ps = Ok tmb" "holds (map ?item ps) tmb" "bufSize tmb = sz"
    using stamped.pushes_hold [OF new_holds [OF assms(1)], of zero ps] by auto
  then have N: "length (buffer tmb) = nat sz" by (auto simp: holds_def)
  have len: "length R = nat (filled tmb)" using holds_filled(1) [OF push(2)] N by (simp add: R_def min.commute)
  have desc: "Timestamp (R ! l) \<le> Timestamp (R ! j)" if "j \<le> l" "l < length R" for j l
  proof -
    have "sorted (map Timestamp (recent (nat sz) (map ?item ps)))" using assms(2) by (simp add: recent_def comp_def flip: drop_map)
    then show ?thesis using that unfolding R_def by (simp add: rev_nth sorted_iff_nth_mono del: length_recent)
  qed
  obtain j where j: "j \<le> length R" "GetWindow_loop now tmb d 0 (length R) [] = Ok (take j R)"
    "\<forall>l<j. time_Since (now l) (Timestamp (R ! l)) \<le> d" "j < length R \<longrightarrow> d < time_Since (now j) (Timestamp (R ! j))"
    using GetWindow_loop_holds [OF push(2), unfolded N, folded R_def, of 0 "length R" now d "[]"] len by auto
  have "GetWindow now tmb d = Ok (take j R)" using j(2) len by (auto simp: GetWindow_def)
  moreover have "time_Since (now 0) (Timestamp s) \<le> d" if "s \<in> set (take j R)" for s
  proof -
    obtain l where l: "l < j" "s = R ! l" using \<open>s \<in> set (take j R)\<close> j(1) by (auto simp: in_set_conv_nth)
    have "time_Since (now 0) (Timestamp s) \<le> time_Since (now l) (Timestamp s)"
      using assms(3) by (intro time_Since_mono) (auto simp: mono_def)
    then show ?thesis using j(3) l by fastforce
  qed
  moreover have "d < time_Since (now j) (Timestamp s)" if "s \<in> set (drop j R)" for s
  proof -
    obtain l where l: "l < length R - j" "s = R ! (j + l)" using \<open>s \<in> set (drop j R)\<close> by (auto simp: in_set_conv_nth)
    then have "Timestamp s \<le> Timestamp (R ! j)" using desc [of j "j + l"] by simp
    then have "time_Since (now j) (Timestamp (R ! j)) \<le> time_Since (now j) (Timestamp s)" by (intro time_Since_mono) auto
    then show ?thesis using j(4) l(1) by linarith
  qed
  moreover have "go_bind (NewTimestampedMetricsBuffer zero sz) (\<lambda>tmb. pushes (\<lambda>tmb p. Timestamped_Push (fst p) tmb (snd p)) tmb ps) = Ok tmb"
    using push(1) assms(1) by (simp add: NewTimestampedMetricsBuffer_def go_make_def)
  ultimately show ?thesis by blast
qed

theorem window_exact_witness:
  "\<exists>tmb j. go_bind (NewTimestampedMetricsBuffer \<lparr>Value = 0, Timestamp = 0\<rparr> 2)
      (\<lambda>tmb. pushes (\<lambda>tmb p. Timestamped_Push (fst p) tmb (snd p)) tmb [(1, 10), (4, 20), (6, 30 :: int)]) = Ok tmb \<and>
    GetWindow (\<lambda>i. 7) tmb 2 =
      Ok (take j (rev (recent (nat 2) (map (\<lambda>p. \<lparr>Value = snd p, Timestamp = fst p\<rparr>) [(1, 10), (4, 20), (6, 30 :: int)])))) \<and>
    (\<forall>s\<in>set (take j (rev (recent (nat 2) (map (\<lambda>p. \<lparr>Value = snd p, Timestamp = fst p\<rparr>) [(1, 10), (4, 20), (6, 30 :: int)])))).
      time_Since 7 (Timestamp s) \<le> 2) \<and>
    (\<forall>s\<in>set (drop j (rev (recent (nat 2) (map (\<lambda>p. \<lparr>Value = snd p, Timestamp = fst p\<rparr>) [(1, 10), (4, 20), (6, 30 :: int)])))).
      2 < time_Since 7 (Timestamp s))"
  by (rule window_exact [of 2 _ "\<lambda>i. 7"]) (simp_all add: mono_def)

end
