(* ===== verification/RoutingTrie.thy ===== *)
theory RoutingTrie
  imports MachineInts
begin

unbundle bit_operations_syntax

text \<open>
  The routing table of \<open>src/practice/routing_table.go\<close>: a binary trie over the bits of an IPv4 address. The
  trie is owned by its table and no node has two parents, so the writes along a path are a functional
  update. The parsers of \<open>net\<close> are arguments: \<open>ParseCIDR\<close> gives an error, or the network's address in 4
  or 16 bytes and the length of its mask; \<open>ParseIP\<close> gives nil or an address. The theorems hold for any.
\<close>

section \<open>The table\<close>

datatype TrieNode = TrieNode (child0: "TrieNode option") (child1: "TrieNode option") (gateway: string)

record RoutingTable =
  root :: TrieNode

abbreviation new_node :: TrieNode where
  "new_node \<equiv> TrieNode None None []"

definition NewRoutingTable :: RoutingTable where
  "NewRoutingTable = \<lparr>root = new_node\<rparr>"

text \<open>\<open>net.IP.To4\<close>: an address of 4 bytes, or the last 4 of an IPv4-mapped one of 16.\<close>

definition To4 :: "8 word list \<Rightarrow> 8 word list option" where
  "To4 ip =
     (if length ip = 4 then Some ip
      else if length ip = 16 \<and> take 10 ip = replicate 10 0 \<and> ip ! 10 = 0xff \<and> ip ! 11 = 0xff then Some (drop 12 ip)
      else None)"

definition ipv4ToUint32 :: "8 word list \<Rightarrow> 32 word" where
  "ipv4ToUint32 ip =
     (case To4 ip of None \<Rightarrow> 0
      | Some b \<Rightarrow> push_bit 24 (ucast (b ! 0)) OR push_bit 16 (ucast (b ! 1)) OR push_bit 8 (ucast (b ! 2)) OR ucast (b ! 3))"

text \<open>The conversion of a negative position to \<open>uint\<close> wraps to 64 bits.\<close>

definition getBit :: "32 word \<Rightarrow> int \<Rightarrow> 32 word" where
  "getBit addr pos = drop_bit (nat (pos mod 2 ^ 64)) addr AND 1"

definition child :: "TrieNode \<Rightarrow> 32 word \<Rightarrow> TrieNode option" where
  "child n b = (if b = 0 then child0 n else child1 n)"

fun set_child :: "TrieNode \<Rightarrow> 32 word \<Rightarrow> TrieNode \<Rightarrow> TrieNode" where
  "set_child (TrieNode c0 c1 g) b c = (if b = 0 then TrieNode (Some c) c1 g else TrieNode c0 (Some c) g)"

fun set_gateway :: "TrieNode \<Rightarrow> string \<Rightarrow> TrieNode" where
  "set_gateway (TrieNode c0 c1 g) g' = TrieNode c0 c1 g'"

function AddRoute_walk :: "32 word \<Rightarrow> int \<Rightarrow> string \<Rightarrow> int \<Rightarrow> TrieNode \<Rightarrow> TrieNode" where
  "AddRoute_walk addr ones gw i n =
     (if 32 - ones \<le> i
      then let bit = getBit addr i; c = (case child n bit of None \<Rightarrow> new_node | Some c \<Rightarrow> c)
           in set_child n bit (AddRoute_walk addr ones gw (i - 1) c)
      else set_gateway n gw)"
  by pat_completeness auto
termination by (relation "measure (\<lambda>(addr, ones, gw, i, n). nat (i + ones - 31))") auto

declare AddRoute_walk.simps [simp del]

definition AddRoute :: "(string \<Rightarrow> 'e + (8 word list \<times> int)) \<Rightarrow> RoutingTable \<Rightarrow> string \<Rightarrow> string \<Rightarrow> 'e option \<times> RoutingTable" where
  "AddRoute ParseCIDR rt cidr gw =
     (case ParseCIDR cidr of
        Inl err \<Rightarrow> (Some err, rt)
      | Inr (ip, ones) \<Rightarrow> (None, rt\<lparr>root := AddRoute_walk (ipv4ToUint32 ip) ones gw 31 (root rt)\<rparr>))"

function FindRoute_walk :: "32 word \<Rightarrow> int \<Rightarrow> TrieNode option \<Rightarrow> string \<Rightarrow> TrieNode option \<times> string" where
  "FindRoute_walk addr i n best =
     (case n of
        None \<Rightarrow> (n, best)
      | Some t \<Rightarrow>
          if 0 \<le> i
          then let best = (if gateway t \<noteq> [] then gateway t else best)
               in FindRoute_walk addr (i - 1) (child t (getBit addr i)) best
          else (n, best))"
  by pat_completeness auto
termination by (relation "measure (\<lambda>(addr, i, n, best). nat (i + 1))") auto

declare FindRoute_walk.simps [simp del]

definition FindRoute :: "(string \<Rightarrow> 8 word list option) \<Rightarrow> RoutingTable \<Rightarrow> string \<Rightarrow> string" where
  "FindRoute ParseIP rt ip =
     (case ParseIP ip of
        None \<Rightarrow> []
      | Some parsed \<Rightarrow>
          (case FindRoute_walk (ipv4ToUint32 parsed) 31 (Some (root rt)) [] of
             (Some n, best) \<Rightarrow> if gateway n \<noteq> [] then gateway n else best
           | (None, best) \<Rightarrow> best))"

section \<open>Paths of bits\<close>

text \<open>The bits of an address from the top, as far as a mask of length \<open>l\<close> reaches, and beyond.\<close>

definition bits_of :: "32 word \<Rightarrow> nat \<Rightarrow> bool list" where
  "bits_of addr l = map (\<lambda>j. j < 32 \<and> bit addr (31 - j)) [0..<l]"

fun at :: "TrieNode option \<Rightarrow> bool list \<Rightarrow> string" where
  "at None p = []"
| "at (Some t) [] = gateway t"
| "at (Some t) (b # p) = at (if b then child1 t else child0 t) p"

lemma getBit_of_bool:
  assumes "- (2 ^ 63) \<le> i" "i < 32"
  shows "getBit addr i = of_bool (0 \<le> i \<and> bit addr (nat i))"
proof (cases "0 \<le> i")
  case True
  then have "nat (i mod 2 ^ 64) = nat i" using assms(2) by simp
  then show ?thesis using True by (simp add: getBit_def and_one_eq mod_2_eq_odd bit_iff_odd_drop_bit)
next
  case False
  have "i mod 2 ^ 64 = (i + 2 ^ 64) mod 2 ^ 64" by simp
  also have "\<dots> = i + 2 ^ 64" using False assms(1) by (intro mod_pos_pos_trivial) auto
  finally have "32 \<le> nat (i mod 2 ^ 64)" using assms(1) by simp
  then have "drop_bit (nat (i mod 2 ^ 64)) addr = 0"
    by (intro bit_word_eqI) (auto simp: bit_drop_bit_eq dest: bit_imp_le_length)
  then show ?thesis using False by (simp add: getBit_def)
qed

lemma length_bits_of [simp]: "length (bits_of addr l) = l"
  by (simp add: bits_of_def)

text \<open>Two masked addresses have the same path exactly if they are the same network.\<close>

lemma bits_of_eq_iff: "bits_of a l = bits_of b l' \<longleftrightarrow> l = l' \<and> drop_bit (32 - l) a = drop_bit (32 - l) b"
proof (cases "l = l'")
  case True
  have "bits_of a l = bits_of b l \<longleftrightarrow> (\<forall>j<l. j < 32 \<longrightarrow> bit a (31 - j) = bit b (31 - j))"
    by (auto simp: bits_of_def list_eq_iff_nth_eq)
  also have "\<dots> \<longleftrightarrow> (\<forall>k. 32 - l \<le> k \<longrightarrow> k < 32 \<longrightarrow> bit a k = bit b k)"
  proof (rule iffI; intro allI impI)
    fix k assume *: "\<forall>j<l. j < 32 \<longrightarrow> bit a (31 - j) = bit b (31 - j)" and k: "32 - l \<le> k" "k < 32"
    have "31 - (31 - k) = k" "31 - k < l" "31 - k < 32" using k by auto
    then show "bit a k = bit b k" using * by metis
  next
    fix j assume *: "\<forall>k. 32 - l \<le> k \<longrightarrow> k < 32 \<longrightarrow> bit a k = bit b k" and j: "j < l" "j < (32 :: nat)"
    then show "bit a (31 - j) = bit b (31 - j)" by auto
  qed
  also have "\<dots> \<longleftrightarrow> drop_bit (32 - l) a = drop_bit (32 - l) b"
  proof (rule iffI; (intro allI impI)?)
    assume *: "\<forall>k. 32 - l \<le> k \<longrightarrow> k < 32 \<longrightarrow> bit a k = bit b k"
    show "drop_bit (32 - l) a = drop_bit (32 - l) b"
    proof (rule bit_word_eqI)
      fix n
      show "bit (drop_bit (32 - l) a) n = bit (drop_bit (32 - l) b) n"
        using * bit_imp_le_length [of a "32 - l + n"] bit_imp_le_length [of b "32 - l + n"]
        by (cases "32 - l + n < 32") (auto simp: bit_drop_bit_eq)
    qed
  next
    fix k assume e: "drop_bit (32 - l) a = drop_bit (32 - l) b" and k: "32 - l \<le> k"
    have "bit (drop_bit (32 - l) a) (k - (32 - l)) = bit (drop_bit (32 - l) b) (k - (32 - l))" by (simp only: e)
    then show "bit a k = bit b k" using k by (simp add: bit_drop_bit_eq)
  qed
  finally show ?thesis using True by simp
next
  case False
  then show ?thesis by (metis length_bits_of)
qed

section \<open>The two walks\<close>

lemma child_getBit: "- (2 ^ 63) \<le> i \<Longrightarrow> i < 32 \<Longrightarrow>
    child t (getBit addr i) = (if 0 \<le> i \<and> bit addr (nat i) then child1 t else child0 t)"
  by (simp add: getBit_of_bool child_def)

lemma at_set_gateway: "at (Some (set_gateway t g)) p = (if p = [] then g else at (Some t) p)"
  by (cases t; cases p) auto

lemma at_new_node: "at (Some new_node) p = []"
  by (cases p) auto

text \<open>The rest of the path from position \<open>i\<close> on.\<close>

definition path_from :: "32 word \<Rightarrow> int \<Rightarrow> int \<Rightarrow> bool list" where
  "path_from addr i ones = drop (nat (31 - i)) (bits_of addr (nat ones))"

lemma path_from_step:
  assumes "i \<le> 31" "32 - ones \<le> i"
  shows "path_from addr i ones = (0 \<le> i \<and> bit addr (nat i)) # path_from addr (i - 1) ones"
proof -
  have n: "nat (31 - i) < nat ones" "nat (31 - (i - 1)) = Suc (nat (31 - i))" using assms by auto
  moreover have "bits_of addr (nat ones) ! nat (31 - i) = (0 \<le> i \<and> bit addr (nat i))"
  proof (cases "0 \<le> i")
    case True
    then have "31 - nat (31 - i) = nat i" "nat (31 - i) < 32" using assms(1) by auto
    then show ?thesis using n(1) True by (simp add: bits_of_def)
  next
    case False
    then have "\<not> nat (31 - i) < 32" by auto
    then show ?thesis using n(1) False by (simp add: bits_of_def)
  qed
  ultimately show ?thesis by (simp add: path_from_def Cons_nth_drop_Suc [symmetric])
qed

lemma path_from_end: "\<not> 32 - ones \<le> i \<Longrightarrow> path_from addr i ones = []"
  by (simp add: path_from_def)

lemma at_AddRoute_walk:
  "ones \<le> 2 ^ 63 \<Longrightarrow> i \<le> 31 \<Longrightarrow>
   at (Some (AddRoute_walk addr ones gw i t)) p = (if p = path_from addr i ones then gw else at (Some t) p)"
proof (induction addr ones gw i t arbitrary: p rule: AddRoute_walk.induct)
  case (1 addr ones gw i t)
  show ?case
  proof (cases "32 - ones \<le> i")
    case True
    let ?b = "0 \<le> i \<and> bit addr (nat i)" and ?bit = "getBit addr i"
    let ?c = "case child t ?bit of None \<Rightarrow> new_node | Some c \<Rightarrow> c"
    have i: "- (2 ^ 63) \<le> i" "i < 32" using True "1.prems" by auto
    have bit: "?bit = of_bool ?b" by (rule getBit_of_bool [OF i])
    have IH: "at (Some (AddRoute_walk addr ones gw (i - 1) ?c)) q = (if q = path_from addr (i - 1) ones then gw else at (Some ?c) q)" for q
      using "1.IH" [OF True refl refl] "1.prems" by simp
    have old: "at (Some ?c) q = at (child t ?bit) q" for q by (cases "child t ?bit") (simp_all add: at_new_node)
    obtain c0 c1 g where t: "t = TrieNode c0 c1 g" by (cases t)
    show ?thesis
      using True path_from_step [OF "1.prems"(2) True, of addr] IH old
      by (cases p) (auto simp: AddRoute_walk.simps [of addr ones gw i] Let_def bit t child_def split: if_splits)
  next
    case False
    then show ?thesis by (simp add: AddRoute_walk.simps [of addr ones gw i] at_set_gateway path_from_end)
  qed
qed

text \<open>The best match is the last gateway that is not empty on the way down.\<close>

definition best_of :: "(nat \<Rightarrow> string) \<Rightarrow> string \<Rightarrow> nat list \<Rightarrow> string" where
  "best_of f best ls = foldl (\<lambda>b l. if f l \<noteq> [] then f l else b) best ls"

lemma best_of_Cons: "best_of f best (l # ls) = best_of f (if f l \<noteq> [] then f l else best) ls"
  by (simp add: best_of_def)

lemma best_of_map: "best_of f best (map g ls) = best_of (\<lambda>l. f (g l)) best ls"
  by (induction ls arbitrary: best) (simp_all add: best_of_def)

lemma best_of_cong: "(\<And>l. l \<in> set ls \<Longrightarrow> f l = g l) \<Longrightarrow> best_of f best ls = best_of g best ls"
  by (induction ls arbitrary: best) (simp_all add: best_of_def)

lemma best_of_last:
  "best_of f best ls = (let hits = filter (\<lambda>l. f l \<noteq> []) ls in if hits = [] then best else f (last hits))"
  by (induction ls rule: rev_induct) (simp_all add: best_of_def Let_def)

definition walk_result :: "TrieNode option \<times> string \<Rightarrow> string" where
  "walk_result r = (case r of (Some n, best) \<Rightarrow> if gateway n \<noteq> [] then gateway n else best | (None, best) \<Rightarrow> best)"

lemma at_None: "best_of (\<lambda>l. []) best ls = best"
  by (induction ls arbitrary: best) (simp_all add: best_of_def)

lemma FindRoute_walk_best:
  "n \<le> 32 \<Longrightarrow> walk_result (FindRoute_walk addr (int n - 1) t best) =
   best_of (\<lambda>l. at t (map (\<lambda>j. bit addr (n - 1 - j)) [0..<l])) best [0..<Suc n]"
proof (induction n arbitrary: t best)
  case 0
  show ?case
    by (cases t) (simp_all add: FindRoute_walk.simps walk_result_def best_of_def)
next
  case (Suc n)
  show ?case
  proof (cases t)
    case None
    then show ?thesis by (simp add: FindRoute_walk.simps walk_result_def at_None del: upt_Suc)
  next
    case (Some m)
    let ?best = "if gateway m \<noteq> [] then gateway m else best" and ?c = "child m (getBit addr (int n))"
    have "map (\<lambda>j. bit addr (Suc n - 1 - j)) [0..<Suc l] = bit addr n # map (\<lambda>j. bit addr (n - 1 - j)) [0..<l]" for l
      by (rule nth_equalityI) (auto simp: nth_Cons split: nat.split simp del: upt_Suc)
    moreover have "?c = (if bit addr n then child1 m else child0 m)" using Suc.prems by (simp add: child_getBit)
    ultimately have seg: "at t (map (\<lambda>j. bit addr (Suc n - 1 - j)) [0..<Suc l]) = at ?c (map (\<lambda>j. bit addr (n - 1 - j)) [0..<l])" for l
      by (simp only: Some at.simps)
    have "walk_result (FindRoute_walk addr (int (Suc n) - 1) t best) = walk_result (FindRoute_walk addr (int n - 1) ?c ?best)"
      by (subst FindRoute_walk.simps) (simp add: Some Let_def)
    also have "\<dots> = best_of (\<lambda>l. at ?c (map (\<lambda>j. bit addr (n - 1 - j)) [0..<l])) ?best [0..<Suc n]"
      using Suc.IH Suc.prems by simp
    also have "\<dots> = best_of (\<lambda>l. at t (map (\<lambda>j. bit addr (Suc n - 1 - j)) [0..<l])) ?best (map Suc [0..<Suc n])"
      unfolding best_of_map seg ..
    also have "\<dots> = best_of (\<lambda>l. at t (map (\<lambda>j. bit addr (Suc n - 1 - j)) [0..<l])) best (0 # map Suc [0..<Suc n])"
      by (simp add: best_of_Cons Some)
    also have "0 # map Suc [0..<Suc n] = [0..<Suc (Suc n)]" by (simp add: map_Suc_upt upt_conv_Cons del: upt_Suc)
    finally show ?thesis .
  qed
qed

section \<open>Longest prefix match\<close>

text \<open>
  The specification: a table from networks, that is a mask length and the bits under the mask, to
  gateways, where the empty gateway is no route. An address is sent to the gateway of the longest mask
  under which its network has a route.
\<close>

type_synonym network = "nat \<times> 32 word"

definition network :: "32 word \<Rightarrow> nat \<Rightarrow> network" where
  "network addr l = (l, drop_bit (32 - l) addr)"

definition longest_match :: "(network \<Rightarrow> string) \<Rightarrow> 32 word \<Rightarrow> string" where
  "longest_match tbl addr =
     (let hits = filter (\<lambda>l. tbl (network addr l) \<noteq> []) [0..<33]
      in if hits = [] then [] else tbl (network addr (last hits)))"

definition add_network :: "(string \<Rightarrow> 'e + (8 word list \<times> int)) \<Rightarrow> (network \<Rightarrow> string) \<Rightarrow> string \<times> string \<Rightarrow> (network \<Rightarrow> string)" where
  "add_network ParseCIDR tbl call =
     (case ParseCIDR (fst call) of Inl err \<Rightarrow> tbl
      | Inr (ip, ones) \<Rightarrow> tbl(network (ipv4ToUint32 ip) (nat ones) := snd call))"

definition routes :: "(network \<Rightarrow> string) \<Rightarrow> RoutingTable \<Rightarrow> bool" where
  "routes tbl rt \<longleftrightarrow> (\<forall>addr l. at (Some (root rt)) (bits_of addr l) = tbl (network addr l))"

lemma network_eq_iff: "network a l = network b l' \<longleftrightarrow> bits_of a l = bits_of b l'"
  by (auto simp: network_def bits_of_eq_iff)

lemma AddRoute_routes:
  assumes rt: "routes tbl rt" and ones: "\<And>ip ones. ParseCIDR cidr = Inr (ip, ones) \<Longrightarrow> ones \<le> 128"
  shows "routes (add_network ParseCIDR tbl (cidr, gw)) (snd (AddRoute ParseCIDR rt cidr gw))"
proof (cases "ParseCIDR cidr")
  case (Inl e)
  then show ?thesis using rt by (simp add: AddRoute_def add_network_def)
next
  case (Inr r)
  obtain ip l where r: "r = (ip, l)" by (cases r)
  have "path_from a 31 l = bits_of a (nat l)" for a by (simp add: path_from_def)
  then show ?thesis
    using rt ones [of ip l] Inr r at_AddRoute_walk [of l 31 "ipv4ToUint32 ip" gw "root rt"]
    by (auto simp: routes_def AddRoute_def add_network_def network_eq_iff)
qed

lemma FindRoute_routes:
  assumes rt: "routes tbl rt"
  shows "FindRoute ParseIP rt ip = (case ParseIP ip of None \<Rightarrow> [] | Some a \<Rightarrow> longest_match tbl (ipv4ToUint32 a))"
proof (cases "ParseIP ip")
  case (Some a)
  let ?a = "ipv4ToUint32 a"
  have "FindRoute ParseIP rt ip = walk_result (FindRoute_walk ?a (int 32 - 1) (Some (root rt)) [])"
    by (simp add: FindRoute_def Some walk_result_def)
  also have "\<dots> = best_of (\<lambda>l. at (Some (root rt)) (map (\<lambda>j. bit ?a (32 - 1 - j)) [0..<l])) [] [0..<Suc 32]"
    by (rule FindRoute_walk_best) simp
  also have "\<dots> = best_of (\<lambda>l. tbl (network ?a l)) [] [0..<Suc 32]"
  proof (rule best_of_cong)
    fix l assume "l \<in> set [0..<Suc 32]"
    then have "map (\<lambda>j. bit ?a (32 - 1 - j)) [0..<l] = bits_of ?a l" by (auto simp: bits_of_def)
    then show "at (Some (root rt)) (map (\<lambda>j. bit ?a (32 - 1 - j)) [0..<l]) = tbl (network ?a l)"
      using rt by (simp only: routes_def)
  qed
  finally show ?thesis by (simp add: Some best_of_last longest_match_def del: upt_Suc)
qed (simp add: FindRoute_def)

lemma routes_new: "routes (\<lambda>_. []) NewRoutingTable"
  by (simp add: routes_def NewRoutingTable_def at_new_node)

section \<open>The properties\<close>

abbreviation add_routes :: "(string \<Rightarrow> 'e + (8 word list \<times> int)) \<Rightarrow> (string \<times> string) list \<Rightarrow> RoutingTable" where
  "add_routes ParseCIDR calls \<equiv> foldl (\<lambda>rt call. snd (AddRoute ParseCIDR rt (fst call) (snd call))) NewRoutingTable calls"

lemma add_routes_routes:
  assumes "\<And>c ip ones. ParseCIDR c = Inr (ip, ones) \<Longrightarrow> ones \<le> 128"
  shows "routes (foldl (add_network ParseCIDR) (\<lambda>_. []) calls) (add_routes ParseCIDR calls)"
proof (induction calls rule: rev_induct)
  case (snoc call calls)
  then show ?case using AddRoute_routes [OF snoc assms, where cidr = "fst call" and gw = "snd call"] by simp
qed (simp add: routes_new)

text \<open>
  C8: after any calls of \<open>AddRoute\<close>, and whatever the parsers of \<open>net\<close> accept as long as no mask is longer
  than 128 bits, \<open>FindRoute\<close> gives the gateway of the longest mask under which the network of the address
  has a route: the last gateway set for that network, where the empty one takes a route away.
\<close>

theorem routing_longest_prefix:
  assumes "\<And>c ip ones. ParseCIDR c = Inr (ip, ones) \<Longrightarrow> ones \<le> 128"
  shows "FindRoute ParseIP (add_routes ParseCIDR calls) ip =
    (case ParseIP ip of None \<Rightarrow> []
     | Some a \<Rightarrow> longest_match (foldl (add_network ParseCIDR) (\<lambda>_. []) calls) (ipv4ToUint32 a))"
  by (rule FindRoute_routes [OF add_routes_routes [OF assms]])

text \<open>Two networks, one inside the other, under a parser that knows their names and one address.\<close>

definition two_networks :: "string \<Rightarrow> unit + (8 word list \<times> int)" where
  "two_networks c =
     (if c = ''10.0.0.0/8'' then Inr ([10, 0, 0, 0], 8) else if c = ''10.1.0.0/16'' then Inr ([10, 1, 0, 0], 16) else Inl ())"

definition one_address :: "string \<Rightarrow> 8 word list option" where
  "one_address s = (if s = ''10.1.5.7'' then Some [10, 1, 5, 7] else None)"

lemma two_networks_mask: "two_networks c = Inr (ip, ones) \<Longrightarrow> ones \<le> 128"
  by (simp add: two_networks_def split: if_splits)

theorem routing_longest_prefix_witness:
  "FindRoute one_address (add_routes two_networks [(''10.1.0.0/16'', ''gw2''), (''10.0.0.0/8'', ''gw1'')]) ''10.1.5.7'' =
     longest_match (foldl (add_network two_networks) (\<lambda>_. []) [(''10.1.0.0/16'', ''gw2''), (''10.0.0.0/8'', ''gw1'')])
       (ipv4ToUint32 [10, 1, 5, 7])"
  using routing_longest_prefix [of two_networks one_address "[(''10.1.0.0/16'', ''gw2''), (''10.0.0.0/8'', ''gw1'')]" "''10.1.5.7''"]
    two_networks_mask by (simp add: one_address_def)

text \<open>Networks and addresses of IPv6 are taken for those of 0.0.0.0 with the same mask.\<close>

lemma routing_ipv6_as_zero:
  assumes "To4 ip6 = None" "ParseCIDR c6 = Inr (ip6, ones)" "ParseCIDR c4 = Inr ([0, 0, 0, 0], ones)"
  shows "AddRoute ParseCIDR rt c6 gw = AddRoute ParseCIDR rt c4 gw"
  using assms by (simp add: AddRoute_def ipv4ToUint32_def To4_def)

end
