(* ===== verification/HealthPool.thy ===== *)
theory HealthPool
  imports MachineInts
begin

text \<open>
  The health checker of \<open>src/practice/parallel_url_health.go\<close>. \<open>RunChecker\<close> is a step relation: the feeder,
  the workers of the error group and the caller of \<open>Wait\<close> take one channel operation, select or request
  at a time, in any order. A request's outcome is chosen by the network. The report is in HealthReport; \<open>float64\<close> operations are arguments.
\<close>

section \<open>Results and their summary\<close>

record Result =
  URL :: string
  StatusCode :: int
  LatencyMs :: int
  Err :: "string option"

record 'f Summary =
  Total :: int
  Healthy :: int
  Errors :: int
  AvgLatency :: 'f

fun summary_loop :: "Result list \<Rightarrow> 'f Summary \<Rightarrow> int \<Rightarrow> 'f Summary \<times> int" where
  "summary_loop [] s lat = (s, lat)"
| "summary_loop (r # rs) s lat =
     (let s = s\<lparr>Total := Total s + 1\<rparr>
      in if Err r \<noteq> None then summary_loop rs (s\<lparr>Errors := Errors s + 1\<rparr>) lat
         else if 200 \<le> StatusCode r \<and> StatusCode r < 300
              then summary_loop rs (s\<lparr>Healthy := Healthy s + 1\<rparr>) (wrap64 (lat + LatencyMs r))
              else summary_loop rs s lat)"

definition ComputeSummary :: "'f \<Rightarrow> (int \<Rightarrow> 'f) \<Rightarrow> ('f \<Rightarrow> 'f \<Rightarrow> 'f) \<Rightarrow> Result list \<Rightarrow> 'f Summary" where
  "ComputeSummary zero float quot results =
     (case summary_loop results \<lparr>Total = 0, Healthy = 0, Errors = 0, AvgLatency = zero\<rparr> 0 of
        (s, lat) \<Rightarrow> if 0 < Healthy s then s\<lparr>AvgLatency := quot (float lat) (float (Healthy s))\<rparr> else s)"

text \<open>How a request ends: it cannot be built, it fails after some milliseconds, or it has a response.\<close>

datatype outcome = BadRequest string | Failed string int | Responded int int

fun checkUrl :: "string \<Rightarrow> outcome \<Rightarrow> Result" where
  "checkUrl url (BadRequest e) = \<lparr>URL = url, StatusCode = 0, LatencyMs = 0, Err = Some e\<rparr>"
| "checkUrl url (Failed e ms) = \<lparr>URL = url, StatusCode = 0, LatencyMs = ms, Err = Some e\<rparr>"
| "checkUrl url (Responded code ms) = \<lparr>URL = url, StatusCode = code, LatencyMs = ms, Err = None\<rparr>"

section \<open>The file of URLs\<close>

text \<open>\<open>strings.TrimSpace\<close> and \<open>strings.Split\<close> at a newline, for ASCII text.\<close>

definition is_space :: "char \<Rightarrow> bool" where
  "is_space c = (c \<in> set [CHR 0x09, CHR 0x0A, CHR 0x0B, CHR 0x0C, CHR 0x0D, CHR '' ''])"

definition TrimSpace :: "string \<Rightarrow> string" where
  "TrimSpace s = rev (dropWhile is_space (rev (dropWhile is_space s)))"

fun split_lines :: "string \<Rightarrow> string list" where
  "split_lines [] = [[]]"
| "split_lines (c # s) =
     (if c = CHR 0x0A then [] # split_lines s
      else case split_lines s of [] \<Rightarrow> [[c]] | l # ls \<Rightarrow> (c # l) # ls)"

text \<open>The argument is what \<open>os.ReadFile\<close> gives.\<close>

definition readURLsFromFile :: "'e + string \<Rightarrow> 'e + string list" where
  "readURLsFromFile file =
     (case file of Inl err \<Rightarrow> Inl err
      | Inr data \<Rightarrow> Inr (filter (\<lambda>l. l \<noteq> []) (map TrimSpace (split_lines (TrimSpace data)))))"

lemma TrimSpace_ends:
  assumes "TrimSpace s \<noteq> []"
  shows "\<not> is_space (hd (TrimSpace s))" "\<not> is_space (last (TrimSpace s))"
proof -
  let ?d = "dropWhile is_space s"
  have ne: "dropWhile is_space (rev ?d) \<noteq> []" using assms by (simp add: TrimSpace_def)
  then show "\<not> is_space (last (TrimSpace s))" by (simp add: TrimSpace_def last_rev hd_dropWhile)
  obtain xs where xs: "rev ?d = xs @ dropWhile is_space (rev ?d)" by (metis takeWhile_dropWhile_id)
  then have "?d = rev (dropWhile is_space (rev ?d)) @ rev xs" by (metis rev_append rev_rev_ident)
  then have "hd ?d = hd (TrimSpace s)" "?d \<noteq> []" using ne assms unfolding TrimSpace_def by (metis hd_append2, metis Nil_is_append_conv)
  then show "\<not> is_space (hd (TrimSpace s))" using hd_dropWhile [of is_space s] by simp
qed

lemma readURLs_trimmed:
  "readURLsFromFile (Inr data) = Inr urls \<Longrightarrow> u \<in> set urls \<Longrightarrow> u \<noteq> [] \<and> \<not> is_space (hd u) \<and> \<not> is_space (last u)"
  using TrimSpace_ends by (auto simp: readURLsFromFile_def)

section \<open>The worker pool\<close>

text \<open>A worker waits for a job, is at the select with one, is in the request, has a result to send, or has returned.\<close>

datatype worker = Ready | Holding string | Checking string | Reporting Result | Exited "string option"

record pool =
  pending :: "string list"
  jobs :: "string list"
  room :: nat
  closed :: bool
  workers :: "worker list"
  results :: "Result list"
  capacity :: nat
  cancelled :: bool
  egErr :: "string option"
  returned :: "(Result list \<times> string option) option"

definition RunChecker_start :: "string list \<Rightarrow> int \<Rightarrow> pool go" where
  "RunChecker_start urls poolSize =
     (if poolSize < 0 then Panic MakeNegative
      else Ok \<lparr>pending = urls, jobs = [], room = nat poolSize, closed = False,
               workers = replicate (nat poolSize) Ready, results = [], capacity = length urls,
               cancelled = False, egErr = None, returned = None\<rparr>)"

datatype pool_event = Interrupt | Step

text \<open>
  The errgroup cancels the context at the first error and when \<open>Wait\<close> returns. The default case of the
  workers' select is taken only when the context is not done. The context of the command is that of
  \<open>signal.NotifyContext\<close> over the background, so its only error is the cancellation.
\<close>

inductive pool_step :: "pool \<Rightarrow> pool_event \<Rightarrow> pool \<Rightarrow> bool" where
  interrupt: "pool_step s Interrupt (s\<lparr>cancelled := True\<rparr>)"
| feed: "\<not> closed s \<Longrightarrow> pending s = u # us \<Longrightarrow> length (jobs s) < room s \<Longrightarrow>
    pool_step s Step (s\<lparr>pending := us, jobs := jobs s @ [u]\<rparr>)"
| feed_cancelled: "\<not> closed s \<Longrightarrow> pending s \<noteq> [] \<Longrightarrow> cancelled s \<Longrightarrow> pool_step s Step (s\<lparr>closed := True\<rparr>)"
| feed_end: "\<not> closed s \<Longrightarrow> pending s = [] \<Longrightarrow> pool_step s Step (s\<lparr>closed := True\<rparr>)"
| receive: "i < length (workers s) \<Longrightarrow> workers s ! i = Ready \<Longrightarrow> jobs s = u # us \<Longrightarrow>
    pool_step s Step (s\<lparr>jobs := us, workers := (workers s)[i := Holding u]\<rparr>)"
| jobs_end: "i < length (workers s) \<Longrightarrow> workers s ! i = Ready \<Longrightarrow> jobs s = [] \<Longrightarrow> closed s \<Longrightarrow>
    pool_step s Step (s\<lparr>workers := (workers s)[i := Exited None]\<rparr>)"
| bail: "i < length (workers s) \<Longrightarrow> workers s ! i = Holding u \<Longrightarrow> cancelled s \<Longrightarrow>
    pool_step s Step (s\<lparr>workers := (workers s)[i := Exited (Some ''context canceled'')],
      egErr := (if egErr s = None then Some ''context canceled'' else egErr s), cancelled := True\<rparr>)"
| request: "i < length (workers s) \<Longrightarrow> workers s ! i = Holding u \<Longrightarrow> \<not> cancelled s \<Longrightarrow>
    pool_step s Step (s\<lparr>workers := (workers s)[i := Checking u]\<rparr>)"
| response: "i < length (workers s) \<Longrightarrow> workers s ! i = Checking u \<Longrightarrow>
    pool_step s Step (s\<lparr>workers := (workers s)[i := Reporting (checkUrl u out)]\<rparr>)"
| send: "i < length (workers s) \<Longrightarrow> workers s ! i = Reporting r \<Longrightarrow> length (results s) < capacity s \<Longrightarrow>
    pool_step s Step (s\<lparr>workers := (workers s)[i := Ready], results := results s @ [r]\<rparr>)"
| wait: "\<forall>w\<in>set (workers s). \<exists>e. w = Exited e \<Longrightarrow> returned s = None \<Longrightarrow>
    pool_step s Step (s\<lparr>returned := Some (results s, egErr s), cancelled := True\<rparr>)"

inductive pool_run :: "pool \<Rightarrow> pool_event list \<Rightarrow> pool \<Rightarrow> bool" for s where
  nil: "pool_run s [] s"
| snoc: "pool_run s es t \<Longrightarrow> pool_step t e u \<Longrightarrow> pool_run s (es @ [e]) u"

section \<open>Where the URLs are\<close>

fun held :: "worker \<Rightarrow> string multiset" where
  "held Ready = {#}"
| "held (Holding u) = {#u#}"
| "held (Checking u) = {#u#}"
| "held (Reporting r) = {#URL r#}"
| "held (Exited e) = {#}"

definition held_all :: "worker list \<Rightarrow> string multiset" where
  "held_all ws = (\<Sum>w\<leftarrow>ws. held w)"

lemma held_all_update:
  "i < length ws \<Longrightarrow> held_all (ws[i := w]) + held (ws ! i) = held_all ws + held w"
  unfolding held_all_def
proof (induction ws arbitrary: i)
  case (Cons v ws)
  then show ?case by (cases i) (auto simp: ac_simps)
qed simp

lemma held_all_idle: "\<forall>w\<in>set ws. held w = {#} \<Longrightarrow> held_all ws = {#}"
  unfolding held_all_def by (induction ws) auto

lemma URL_checkUrl [simp]: "URL (checkUrl u out) = u"
  by (cases out) auto

text \<open>The weight of what is left to do.\<close>

fun effort :: "worker \<Rightarrow> nat" where
  "effort Ready = 1"
| "effort (Holding u) = 4"
| "effort (Checking u) = 3"
| "effort (Reporting r) = 2"
| "effort (Exited e) = 0"

definition left :: "pool \<Rightarrow> nat" where
  "left s = 5 * length (pending s) + 4 * length (jobs s) + (\<Sum>w\<leftarrow>workers s. effort w) + of_bool (\<not> closed s) + of_bool (returned s = None)"

lemma effort_update:
  "i < length ws \<Longrightarrow> (\<Sum>w\<leftarrow>ws[i := v]. effort w) + effort (ws ! i) = (\<Sum>w\<leftarrow>ws. effort w) + effort v"
proof (induction ws arbitrary: i)
  case (Cons w ws)
  then show ?case by (cases i) auto
qed simp

lemma step_left:
  assumes "pool_step s Step s'"
  shows "left s' < left s"
  using assms
proof cases
  case (receive i u us)
  then show ?thesis using effort_update [of i "workers s" "Holding u"] by (simp add: left_def)
next
  case (jobs_end i)
  then show ?thesis using effort_update [of i "workers s" "Exited None"] by (simp add: left_def)
next
  case (bail i u)
  then show ?thesis using effort_update [of i "workers s" "Exited (Some ''context canceled'')"] by (simp add: left_def)
next
  case (request i u)
  then show ?thesis using effort_update [of i "workers s" "Checking u"] by (simp add: left_def)
next
  case (response i u out)
  then show ?thesis using effort_update [of i "workers s" "Reporting (checkUrl u out)"] by (simp add: left_def)
next
  case (send i r)
  then show ?thesis using effort_update [of i "workers s" Ready] by (simp add: left_def)
qed (auto simp: left_def)

section \<open>Runs without an interrupt\<close>

definition pool_inv :: "string list \<Rightarrow> nat \<Rightarrow> pool \<Rightarrow> bool" where
  "pool_inv urls n s \<longleftrightarrow> length (workers s) = n \<and> capacity s = length urls \<and> room s = n \<and>
     mset urls = mset (pending s) + mset (jobs s) + held_all (workers s) + mset (map URL (results s)) \<and>
     (cancelled s \<longleftrightarrow> returned s \<noteq> None) \<and> (closed s \<longrightarrow> pending s = []) \<and> egErr s = None \<and>
     (\<forall>w\<in>set (workers s). \<forall>e. w = Exited e \<longrightarrow> e = None \<and> closed s \<and> jobs s = []) \<and>
     (\<forall>p. returned s = Some p \<longrightarrow> p = (results s, None) \<and> (\<forall>w\<in>set (workers s). \<exists>e. w = Exited e))"

lemma pool_start_inv: "0 \<le> n \<Longrightarrow> RunChecker_start urls n = Ok s \<Longrightarrow> pool_inv urls (nat n) s"
  by (auto simp: RunChecker_start_def pool_inv_def held_all_idle)

lemma inv_not_returned:
  assumes inv: "pool_inv urls n s" and i: "i < length (workers s)" "\<forall>e. workers s ! i \<noteq> Exited e"
  shows "returned s = None" "\<not> cancelled s"
proof -
  show "returned s = None" using inv i nth_mem [OF i(1)] unfolding pool_inv_def by (metis not_None_eq)
  then show "\<not> cancelled s" using inv by (simp add: pool_inv_def)
qed

lemma inv_worker:
  assumes inv: "pool_inv urls n s" and i: "i < length (workers s)" "\<forall>e. workers s ! i \<noteq> Exited e"
    and kept: "mset js + held w + mset (map URL rs) = mset (jobs s) + held (workers s ! i) + mset (map URL (results s))"
    and exited: "\<forall>e. w = Exited e \<longrightarrow> e = None \<and> closed s \<and> js = []" and js: "jobs s = [] \<longrightarrow> js = []"
  shows "pool_inv urls n (s\<lparr>jobs := js, workers := (workers s)[i := w], results := rs\<rparr>)"
proof -
  have "held_all ((workers s)[i := w]) + held (workers s ! i) = held_all (workers s) + held w"
    by (rule held_all_update [OF i(1)])
  then have "mset js + held_all ((workers s)[i := w]) + mset (map URL rs) + held (workers s ! i) =
    mset (jobs s) + held_all (workers s) + mset (map URL (results s)) + held (workers s ! i)"
    using kept by (metis (no_types, opaque_lifting) add.assoc add.commute)
  then have "mset js + held_all ((workers s)[i := w]) + mset (map URL rs) =
    mset (jobs s) + held_all (workers s) + mset (map URL (results s))" by simp
  then have "mset urls = mset (pending s) + mset js + held_all ((workers s)[i := w]) + mset (map URL rs)"
    using inv unfolding pool_inv_def by (metis (no_types, opaque_lifting) add.assoc)
  moreover have "x \<in> set (workers s) \<or> x = w" if "x \<in> set ((workers s)[i := w])" for x
    using that set_update_subset_insert [of "workers s" i w] by auto
  ultimately show ?thesis
    using inv inv_not_returned [OF inv i] exited js unfolding pool_inv_def by (simp, blast)
qed

lemma inv_returned:
  assumes inv: "pool_inv urls n s" and "0 < n" and "returned s = Some p"
  shows "closed s" "jobs s = []" "held_all (workers s) = {#}"
proof -
  have all: "\<forall>w\<in>set (workers s). \<exists>e. w = Exited e" "length (workers s) = n" using inv assms(3) by (auto simp: pool_inv_def)
  then show "held_all (workers s) = {#}" by (intro held_all_idle) auto
  have "hd (workers s) \<in> set (workers s)" using all(2) assms(2) by (intro hd_in_set) auto
  then show "closed s" "jobs s = []" using inv all(1) by (auto simp: pool_inv_def)
qed

lemma step_inv:
  assumes inv: "pool_inv urls n s" and n: "0 < n" and step: "pool_step s Step s'"
  shows "pool_inv urls n s'"
  using step
proof cases
  case (receive i u us)
  show ?thesis
    using inv_worker [OF inv, of i us "Holding u" "results s"] receive by simp
next
  case (jobs_end i)
  have "pool_inv urls n (s\<lparr>jobs := jobs s, workers := (workers s)[i := Exited None], results := results s\<rparr>)"
    by (rule inv_worker [OF inv]) (use jobs_end in simp_all)
  then show ?thesis by (simp add: jobs_end(1))
next
  case (bail i u)
  then show ?thesis using inv_not_returned [OF inv, of i] by simp
next
  case (request i u)
  show ?thesis using inv_worker [OF inv, of i "jobs s" "Checking u" "results s"] request by simp
next
  case (response i u out)
  show ?thesis using inv_worker [OF inv, of i "jobs s" "Reporting (checkUrl u out)" "results s"] response by simp
next
  case (send i r)
  show ?thesis using inv_worker [OF inv, of i "jobs s" Ready "results s @ [r]"] send by simp
next
  case feed_cancelled
  then show ?thesis using inv_returned(1) [OF inv n] inv by (auto simp: pool_inv_def)
qed (use inv in \<open>auto simp: pool_inv_def\<close>)

section \<open>Runs with interrupts\<close>

text \<open>What is left of the invariant after an interrupt: no URL is checked twice, and the only error is the context's.\<close>

definition whereabouts :: "pool \<Rightarrow> string multiset" where
  "whereabouts s = mset (pending s) + mset (jobs s) + held_all (workers s) + mset (map URL (results s))"

definition pool_safe :: "string list \<Rightarrow> nat \<Rightarrow> pool \<Rightarrow> bool" where
  "pool_safe urls n s \<longleftrightarrow> length (workers s) = n \<and> capacity s = length urls \<and> room s = n \<and> whereabouts s \<subseteq># mset urls \<and>
     (egErr s = None \<or> egErr s = Some ''context canceled'') \<and>
     (\<forall>p. returned s = Some p \<longrightarrow> p = (results s, egErr s) \<and> (\<forall>w\<in>set (workers s). \<exists>e. w = Exited e))"

lemma inv_safe: "pool_inv urls n s \<Longrightarrow> pool_safe urls n s"
  by (auto simp: pool_inv_def pool_safe_def whereabouts_def)

lemma safe_not_returned:
  assumes "pool_safe urls n s" and i: "i < length (workers s)" "\<forall>e. workers s ! i \<noteq> Exited e"
  shows "returned s = None"
  using assms(1) nth_mem [OF i(1)] i(2) unfolding pool_safe_def by (metis not_None_eq)

lemma safe_worker:
  assumes safe: "pool_safe urls n s" and i: "i < length (workers s)" "\<forall>e. workers s ! i \<noteq> Exited e"
    and kept: "mset js + held w + mset (map URL rs) \<subseteq># mset (jobs s) + held (workers s ! i) + mset (map URL (results s))"
    and err: "e = egErr s \<or> e = Some ''context canceled''"
  shows "pool_safe urls n (s\<lparr>jobs := js, workers := (workers s)[i := w], results := rs, egErr := e, cancelled := c\<rparr>)"
proof -
  let ?s = "s\<lparr>jobs := js, workers := (workers s)[i := w], results := rs, egErr := e, cancelled := c\<rparr>"
  have "held_all ((workers s)[i := w]) + held (workers s ! i) = held_all (workers s) + held w"
    by (rule held_all_update [OF i(1)])
  then have "whereabouts ?s + held (workers s ! i) =
      mset (pending s) + held_all (workers s) + (mset js + held w + mset (map URL rs))"
    by (simp add: whereabouts_def ac_simps)
  also have "\<dots> \<subseteq># mset (pending s) + held_all (workers s) + (mset (jobs s) + held (workers s ! i) + mset (map URL (results s)))"
    using kept by simp
  also have "\<dots> = whereabouts s + held (workers s ! i)" by (simp add: whereabouts_def ac_simps)
  finally have "whereabouts ?s \<subseteq># whereabouts s" by simp
  then have "whereabouts ?s \<subseteq># mset urls" using safe by (auto simp: pool_safe_def)
  then show ?thesis using safe err safe_not_returned [OF safe i] by (auto simp: pool_safe_def)
qed

lemma step_safe:
  assumes safe: "pool_safe urls n s" and step: "pool_step s e s'"
  shows "pool_safe urls n s'"
  using step
proof cases
  case (receive i u us)
  show ?thesis using safe_worker [OF safe, of i us "Holding u" "results s" "egErr s" "cancelled s"] receive by simp
next
  case (jobs_end i)
  have "pool_safe urls n (s\<lparr>jobs := jobs s, workers := (workers s)[i := Exited None], results := results s,
      egErr := egErr s, cancelled := cancelled s\<rparr>)"
    by (rule safe_worker [OF safe]) (use jobs_end in simp_all)
  then show ?thesis by (simp add: jobs_end(2))
next
  case (bail i u)
  show ?thesis
    using safe_worker [OF safe, of i "jobs s" "Exited (Some ''context canceled'')" "results s"
        "if egErr s = None then Some ''context canceled'' else egErr s" True] bail by simp
next
  case (request i u)
  have "pool_safe urls n (s\<lparr>jobs := jobs s, workers := (workers s)[i := Checking u], results := results s,
      egErr := egErr s, cancelled := cancelled s\<rparr>)"
    by (rule safe_worker [OF safe]) (use request in simp_all)
  then show ?thesis by (simp add: request(2))
next
  case (response i u out)
  show ?thesis
    using safe_worker [OF safe, of i "jobs s" "Reporting (checkUrl u out)" "results s" "egErr s" "cancelled s"] response by simp
next
  case (send i r)
  show ?thesis using safe_worker [OF safe, of i "jobs s" Ready "results s @ [r]" "egErr s" "cancelled s"] send by simp
qed (use safe in \<open>auto simp: pool_safe_def whereabouts_def\<close>)

text \<open>Something can happen until \<open>Wait\<close> returns: the results channel has room for every result.\<close>

lemma step_possible:
  assumes safe: "pool_safe urls n s" and n: "0 < n" and "returned s = None"
  shows "\<exists>s'. pool_step s Step s'"
proof (cases "\<forall>w\<in>set (workers s). \<exists>e. w = Exited e")
  case True
  then show ?thesis using assms(3) pool_step.wait by blast
next
  case False
  then obtain i where i: "i < length (workers s)" "\<forall>e. workers s ! i \<noteq> Exited e" by (metis in_set_conv_nth)
  show ?thesis
  proof (cases "workers s ! i")
    case Ready
    show ?thesis
    proof (cases "jobs s")
      case Nil
      then show ?thesis
        using i(1) Ready pool_step.jobs_end [of i s] pool_step.feed_end [of s] pool_step.feed [of s] n safe
        by (cases "closed s"; cases "pending s") (auto simp: pool_safe_def)
    next
      case (Cons u us)
      then show ?thesis using i(1) Ready pool_step.receive by blast
    qed
  next
    case (Holding u)
    then show ?thesis using i(1) pool_step.request pool_step.bail by blast
  next
    case (Checking u)
    then show ?thesis using i(1) pool_step.response by blast
  next
    case (Reporting r)
    have "held_all ((workers s)[i := Ready]) + held (workers s ! i) = held_all (workers s)"
      using held_all_update [OF i(1), of Ready] by simp
    then have "size (held_all (workers s)) > 0" using Reporting by (metis held.simps(4) size_union size_single add_gr_0 zero_less_one)
    moreover have "size (whereabouts s) \<le> size (mset urls)" using safe by (intro size_mset_mono) (simp add: pool_safe_def)
    ultimately have "length (results s) < capacity s" using safe by (simp add: pool_safe_def whereabouts_def)
    then show ?thesis using i(1) Reporting pool_step.send by blast
  next
    case (Exited e)
    then show ?thesis using i(2) by blast
  qed
qed

lemma run_safe:
  "pool_run s es t \<Longrightarrow> pool_safe urls n s \<Longrightarrow> pool_safe urls n t \<and> left t + length (filter (\<lambda>e. e = Step) es) \<le> left s"
proof (induction rule: pool_run.induct)
  case (snoc es t e u)
  have "left u = left t" if "e = Interrupt" using snoc.hyps(2) that by cases (simp_all add: left_def)
  with snoc show ?case using step_safe [of urls n t e u] step_left [of t u] by (cases e) auto
qed simp

lemma start_left: "RunChecker_start urls n = Ok s \<Longrightarrow> left s = 5 * length urls + nat n + 2"
  by (auto simp: RunChecker_start_def left_def sum_list_replicate split: if_splits)

section \<open>The properties\<close>

lemma run_inv:
  "pool_run s es t \<Longrightarrow> pool_inv urls n s \<Longrightarrow> 0 < n \<Longrightarrow> Interrupt \<notin> set es \<Longrightarrow> pool_inv urls n t \<and> left t + length es \<le> left s"
proof (induction rule: pool_run.induct)
  case (snoc es t e u)
  then have "e = Step" by (cases e) auto
  with snoc show ?case using step_inv [of urls n t u] step_left [of t u] by auto
qed simp

lemma run_complete:
  assumes "0 < n" and "RunChecker_start urls n = Ok s" and "pool_run s es t" and "Interrupt \<notin> set es"
    and r: "returned t = Some (rs, err)"
  shows "err = None \<and> mset (map URL rs) = mset urls"
proof -
  have inv: "pool_inv urls (nat n) t" using run_inv [OF assms(3) pool_start_inv [OF _ assms(2)] _ assms(4)] assms(1) by auto
  then have "rs = results t" "err = None" using r by (auto simp: pool_inv_def)
  then show ?thesis using inv_returned [OF inv _ r] inv assms(1) by (simp add: pool_inv_def)
qed

text \<open>
  C12: with at least one worker and no interrupt, \<open>RunChecker\<close> checks every URL exactly once and returns no
  error: no run has more than \<open>5 len(urls) + poolSize + 2\<close> steps, none is stuck before \<open>Wait\<close> returns, as
  the buffer of results has room for every send, and then there is one result for every URL.
\<close>

theorem health_checks_all:
  assumes "0 < n" and "RunChecker_start urls n = Ok s" and "pool_run s es t" and "Interrupt \<notin> set es"
  shows "length es \<le> 5 * length urls + nat n + 2 \<and>
    (case returned t of None \<Rightarrow> \<exists>u. pool_step t Step u
     | Some (rs, err) \<Rightarrow> err = None \<and> mset (map URL rs) = mset urls)"
proof -
  have inv: "pool_inv urls (nat n) t" and steps: "left t + length es \<le> left s"
    using run_inv [OF assms(3) pool_start_inv [OF _ assms(2)] _ assms(4)] assms(1) by auto
  have "left s = 5 * length urls + nat n + 2" by (rule start_left [OF assms(2)])
  moreover have "err = None \<and> mset (map URL rs) = mset urls" if "returned t = Some (rs, err)" for rs err
    by (rule run_complete [OF assms that])
  ultimately show ?thesis using steps step_possible [OF inv_safe [OF inv]] assms(1) by (auto split: option.split)
qed

text \<open>One URL and one worker, step by step.\<close>

definition one_worker :: "string list \<Rightarrow> string list \<Rightarrow> bool \<Rightarrow> worker \<Rightarrow> Result list \<Rightarrow> bool \<Rightarrow> (Result list \<times> string option) option \<Rightarrow> pool" where
  "one_worker us js cl w rs ca ret =
     \<lparr>pending = us, jobs = js, room = 1, closed = cl, workers = [w], results = rs, capacity = 1, cancelled = ca, egErr = None, returned = ret\<rparr>"

lemma run_one:
  "pool_run (one_worker [u] [] False Ready [] False None) (replicate 8 Step)
     (one_worker [] [] True (Exited None) [checkUrl u out] True (Some ([checkUrl u out], None)))"
proof -
  have "pool_step (one_worker [u] [] False Ready [] False None) Step (one_worker [] [u] False Ready [] False None)"
    using pool_step.feed [of "one_worker [u] [] False Ready [] False None" u "[]"] by (simp add: one_worker_def)
  moreover have "pool_step (one_worker [] [u] False Ready [] False None) Step (one_worker [] [u] True Ready [] False None)"
    using pool_step.feed_end [of "one_worker [] [u] False Ready [] False None"] by (simp add: one_worker_def)
  moreover have "pool_step (one_worker [] [u] True Ready [] False None) Step (one_worker [] [] True (Holding u) [] False None)"
    using pool_step.receive [of 0 "one_worker [] [u] True Ready [] False None" u "[]"] by (simp add: one_worker_def)
  moreover have "pool_step (one_worker [] [] True (Holding u) [] False None) Step (one_worker [] [] True (Checking u) [] False None)"
    using pool_step.request [of 0 "one_worker [] [] True (Holding u) [] False None" u] by (simp add: one_worker_def)
  moreover have "pool_step (one_worker [] [] True (Checking u) [] False None) Step (one_worker [] [] True (Reporting (checkUrl u out)) [] False None)"
    using pool_step.response [of 0 "one_worker [] [] True (Checking u) [] False None" u out] by (simp add: one_worker_def)
  moreover have "pool_step (one_worker [] [] True (Reporting (checkUrl u out)) [] False None) Step
      (one_worker [] [] True Ready [checkUrl u out] False None)"
    using pool_step.send [of 0 "one_worker [] [] True (Reporting (checkUrl u out)) [] False None" "checkUrl u out"] by (simp add: one_worker_def)
  moreover have "pool_step (one_worker [] [] True Ready [checkUrl u out] False None) Step
      (one_worker [] [] True (Exited None) [checkUrl u out] False None)"
    using pool_step.jobs_end [of 0 "one_worker [] [] True Ready [checkUrl u out] False None"] by (simp add: one_worker_def)
  moreover have "pool_step (one_worker [] [] True (Exited None) [checkUrl u out] False None) Step
      (one_worker [] [] True (Exited None) [checkUrl u out] True (Some ([checkUrl u out], None)))"
    using pool_step.wait [of "one_worker [] [] True (Exited None) [checkUrl u out] False None"] by (simp add: one_worker_def)
  ultimately have "pool_run (one_worker [u] [] False Ready [] False None)
      (((((((([] @ [Step]) @ [Step]) @ [Step]) @ [Step]) @ [Step]) @ [Step]) @ [Step]) @ [Step])
      (one_worker [] [] True (Exited None) [checkUrl u out] True (Some ([checkUrl u out], None)))"
    by (blast intro: pool_run.intros)
  then show ?thesis by (simp add: numeral_eq_Suc)
qed

lemma start_one: "RunChecker_start [u] 1 = Ok (one_worker [u] [] False Ready [] False None)"
  by (simp add: RunChecker_start_def one_worker_def)

theorem health_checks_all_witness:
  "\<exists>t es. pool_run (one_worker [''http://a''] [] False Ready [] False None) es t \<and> length es = 8 \<and>
     (case returned t of None \<Rightarrow> \<exists>u. pool_step t Step u
      | Some (rs, err) \<Rightarrow> err = None \<and> mset (map URL rs) = mset [''http://a''])"
  using health_checks_all [OF _ start_one run_one [of "''http://a''" "Responded 200 12"]] run_one [of "''http://a''" "Responded 200 12"]
  by fastforce

text \<open>
  C21: interrupts at any moments do not stop \<open>RunChecker\<close> from returning: it takes no more steps than without
  them and is never stuck before. It then has at most one result for every URL, and the error is nil or
  that of the cancelled context; a nil error does not say that all URLs were checked.
\<close>

theorem health_interrupted:
  assumes "0 < n" and "RunChecker_start urls n = Ok s" and "pool_run s es t"
  shows "length (filter (\<lambda>e. e = Step) es) \<le> 5 * length urls + nat n + 2 \<and>
    (case returned t of None \<Rightarrow> \<exists>u. pool_step t Step u
     | Some (rs, err) \<Rightarrow> mset (map URL rs) \<subseteq># mset urls \<and> (err = None \<or> err = Some ''context canceled'' \<and> Interrupt \<in> set es))"
proof -
  have start: "pool_inv urls (nat n) s" using pool_start_inv [OF _ assms(2)] assms(1) by simp
  have safe: "pool_safe urls (nat n) t" and steps: "left t + length (filter (\<lambda>e. e = Step) es) \<le> left s"
    using run_safe [OF assms(3) inv_safe [OF start]] by auto
  have "mset (map URL rs) \<subseteq># mset urls \<and> (err = None \<or> err = Some ''context canceled'' \<and> Interrupt \<in> set es)"
    if r: "returned t = Some (rs, err)" for rs err
  proof -
    have eq: "rs = results t" "err = egErr t" using safe r by (auto simp: pool_safe_def)
    have "egErr t = None" if "Interrupt \<notin> set es" using run_inv [OF assms(3) start _ that] assms(1) by (simp add: pool_inv_def)
    moreover have "err = None \<or> err = Some ''context canceled''" using safe eq(2) by (simp add: pool_safe_def)
    moreover have "mset (map URL rs) \<subseteq># mset urls"
    proof (rule subset_mset.order_trans)
      show "mset (map URL rs) \<subseteq># whereabouts t" by (simp add: eq whereabouts_def)
      show "whereabouts t \<subseteq># mset urls" using safe by (simp add: pool_safe_def)
    qed
    ultimately show ?thesis using eq(2) by (cases "Interrupt \<in> set es") auto
  qed
  then have "case returned t of None \<Rightarrow> \<exists>u. pool_step t Step u
     | Some (rs, err) \<Rightarrow> mset (map URL rs) \<subseteq># mset urls \<and> (err = None \<or> err = Some ''context canceled'' \<and> Interrupt \<in> set es)"
    using step_possible [OF safe] assms(1) by (simp split: option.split)
  then show ?thesis using steps start_left [OF assms(2)] by linarith
qed

theorem health_interrupted_witness:
  "\<exists>t es. pool_run (one_worker [''http://a''] [] False Ready [] False None) es t \<and> Interrupt \<in> set es \<and>
     length (filter (\<lambda>e. e = Step) es) \<le> 8 \<and> (\<exists>u. pool_step t Step u)"
proof -
  let ?s = "one_worker [''http://a''] [] False Ready [] False None"
  have run: "pool_run ?s ([] @ [Interrupt]) (?s\<lparr>cancelled := True\<rparr>)" by (rule pool_run.snoc [OF pool_run.nil pool_step.interrupt])
  have "returned (?s\<lparr>cancelled := True\<rparr>) = None" by (simp add: one_worker_def)
  then have "length (filter (\<lambda>e. e = Step) ([] @ [Interrupt])) \<le> 8 \<and> (\<exists>u. pool_step (?s\<lparr>cancelled := True\<rparr>) Step u)"
    using health_interrupted [OF _ start_one run] by simp
  then show ?thesis using run by (intro exI [of _ "?s\<lparr>cancelled := True\<rparr>"] exI [of _ "[] @ [Interrupt]"]) simp
qed

text \<open>
  An interrupt can be lost. When the feeder sees the cancelled context first, it closes the channel of
  jobs, the workers find it empty and return nil, and \<open>RunChecker\<close> gives no error and no result at all, as
  if all URLs had been checked; without workers it does so at once.
\<close>

lemma health_interrupt_lost:
  "(\<exists>s es t. RunChecker_start (u # us) 1 = Ok s \<and> pool_run s es t \<and> returned t = Some ([], None)) \<and>
   (\<exists>s t. RunChecker_start (u # us) 0 = Ok s \<and> pool_run s [Step] t \<and> returned t = Some ([], None))"
proof (rule conjI)
  define st where "st cl w ca ret = \<lparr>pending = u # us, jobs = [], room = 1, closed = cl, workers = [w], results = [],
    capacity = length (u # us), cancelled = ca, egErr = None, returned = ret\<rparr>" for cl w ca ret
  have "pool_step (st False Ready False None) Interrupt (st False Ready True None)"
    using pool_step.interrupt [of "st False Ready False None"] by (simp add: st_def)
  moreover have "pool_step (st False Ready True None) Step (st True Ready True None)"
    using pool_step.feed_cancelled [of "st False Ready True None"] by (simp add: st_def)
  moreover have "pool_step (st True Ready True None) Step (st True (Exited None) True None)"
    using pool_step.jobs_end [of 0 "st True Ready True None"] by (simp add: st_def)
  moreover have "pool_step (st True (Exited None) True None) Step (st True (Exited None) True (Some ([], None)))"
    using pool_step.wait [of "st True (Exited None) True None"] by (simp add: st_def)
  ultimately have "pool_run (st False Ready False None) (((([] @ [Interrupt]) @ [Step]) @ [Step]) @ [Step])
      (st True (Exited None) True (Some ([], None)))"
    by (blast intro: pool_run.intros)
  moreover have "RunChecker_start (u # us) 1 = Ok (st False Ready False None)" by (simp add: RunChecker_start_def st_def)
  moreover have "returned (st True (Exited None) True (Some ([], None))) = Some ([], None)" by (simp add: st_def)
  ultimately show "\<exists>s es t. RunChecker_start (u # us) 1 = Ok s \<and> pool_run s es t \<and> returned t = Some ([], None)" by blast
next
  let ?s = "\<lparr>pending = u # us, jobs = [], room = 0, closed = False, workers = [], results = [],
    capacity = length (u # us), cancelled = False, egErr = None, returned = None\<rparr>"
  have "pool_step ?s Step (?s\<lparr>returned := Some ([], None), cancelled := True\<rparr>)"
    using pool_step.wait [of ?s] by simp
  then have "pool_run ?s ([] @ [Step]) (?s\<lparr>returned := Some ([], None), cancelled := True\<rparr>)" by (blast intro: pool_run.intros)
  then show "\<exists>s t. RunChecker_start (u # us) 0 = Ok s \<and> pool_run s [Step] t \<and> returned t = Some ([], None)"
    by (intro exI [of _ ?s] exI conjI) (auto simp: RunChecker_start_def)
qed

end
