(* ===== verification/GoFormat.thy ===== *)
theory GoFormat
  imports Main
begin

text \<open>What the programs print: decimal numbers, truth values and lines, as \<open>fmt\<close> writes them.\<close>

fun show_nat :: "nat \<Rightarrow> string" where
  "show_nat n = (if n < 10 then [char_of (48 + n)] else show_nat (n div 10) @ [char_of (48 + n mod 10)])"

declare show_nat.simps [simp del]

definition show_int :: "int \<Rightarrow> string" where
  "show_int i = (if i < 0 then ''-'' @ show_nat (nat (- i)) else show_nat (nat i))"

definition show_bool :: "bool \<Rightarrow> string" where
  "show_bool b = (if b then ''true'' else ''false'')"

abbreviation newline :: char where
  "newline \<equiv> CHR 0x0A"

definition line :: "string \<Rightarrow> string" where
  "line s = s @ [newline]"

end
