(* ===== verification/HealthReport.thy ===== *)
theory HealthReport
  imports HealthPool GoFormat
begin

text \<open>
  The command of \<open>src/practice/parallel_url_health.go\<close>: it reads the file of URLs, runs the checker and writes the
  report, as steps around those of \<open>RunChecker\<close> in HealthPool. The text that goes to the console is a string; the formatting of \<open>float64\<close> with two digits is an
  argument, like its operations. \<open>cobra\<close>, which reads the flags and calls the command, is not modelled.
\<close>

section \<open>The report\<close>

definition report_line :: "Result \<Rightarrow> string" where
  "report_line r =
     (case Err r of
        Some e \<Rightarrow> line (URL r @ '': ERROR - '' @ e)
      | None \<Rightarrow> line (URL r @ '': '' @ show_int (StatusCode r) @ '' ('' @ show_int (LatencyMs r) @ ''ms)''))"

definition printResults :: "('f \<Rightarrow> string) \<Rightarrow> Result list \<Rightarrow> 'f Summary \<Rightarrow> string" where
  "printResults fmt rs summary =
     line ''=== Results ==='' @ concat (map report_line rs) @
     line (newline # ''=== Summary ==='') @
     line (''Total: '' @ show_int (Total summary) @ '', Healthy: '' @ show_int (Healthy summary) @
       '', Errors: '' @ show_int (Errors summary) @ '', Avg Latency: '' @ fmt (AvgLatency summary) @ ''ms'')"

text \<open>
  The command as a step relation around that of \<open>RunChecker\<close>. Until the file has been read it is \<open>Reading\<close>, and
  whether an interrupt has come since \<open>NotifyContext\<close> is part of it: \<open>RunChecker\<close> then starts with a cancelled
  context. It ends with a panic, an error, or the text it has written.
\<close>

datatype command = Reading bool | Running pool | Ended "(string + string) go"

inductive RunE_step :: "'f \<Rightarrow> (int \<Rightarrow> 'f) \<Rightarrow> ('f \<Rightarrow> 'f \<Rightarrow> 'f) \<Rightarrow> ('f \<Rightarrow> string) \<Rightarrow> string + string \<Rightarrow> int \<Rightarrow>
    command \<Rightarrow> pool_event \<Rightarrow> command \<Rightarrow> bool" for zero float quot fmt content poolSize where
  interrupt: "RunE_step zero float quot fmt content poolSize (Reading c) Interrupt (Reading True)"
| no_file: "readURLsFromFile content = Inl err \<Longrightarrow>
    RunE_step zero float quot fmt content poolSize (Reading c) Step (Ended (Ok (Inl err)))"
| start: "readURLsFromFile content = Inr urls \<Longrightarrow> RunChecker_start urls poolSize = Ok s \<Longrightarrow>
    RunE_step zero float quot fmt content poolSize (Reading c) Step (Running (s\<lparr>cancelled := c\<rparr>))"
| start_panic: "readURLsFromFile content = Inr urls \<Longrightarrow> RunChecker_start urls poolSize = Panic e \<Longrightarrow>
    RunE_step zero float quot fmt content poolSize (Reading c) Step (Ended (Panic e))"
| check: "pool_step s e s' \<Longrightarrow> RunE_step zero float quot fmt content poolSize (Running s) e (Running s')"
| check_error: "returned s = Some (rs, Some err) \<Longrightarrow>
    RunE_step zero float quot fmt content poolSize (Running s) Step (Ended (Ok (Inl err)))"
| report: "returned s = Some (rs, None) \<Longrightarrow> summary = ComputeSummary zero float quot rs \<Longrightarrow>
    RunE_step zero float quot fmt content poolSize (Running s) Step (Ended (Ok (Inr (printResults fmt rs summary))))"

inductive_cases RunE_step_cases: "RunE_step zero float quot fmt content poolSize c e d"

inductive RunE_run :: "'f \<Rightarrow> (int \<Rightarrow> 'f) \<Rightarrow> ('f \<Rightarrow> 'f \<Rightarrow> 'f) \<Rightarrow> ('f \<Rightarrow> string) \<Rightarrow> string + string \<Rightarrow> int \<Rightarrow>
    command \<Rightarrow> pool_event list \<Rightarrow> command \<Rightarrow> bool" for zero float quot fmt content poolSize c where
  nil: "RunE_run zero float quot fmt content poolSize c [] c"
| snoc: "RunE_run zero float quot fmt content poolSize c es d \<Longrightarrow> RunE_step zero float quot fmt content poolSize d e d' \<Longrightarrow>
    RunE_run zero float quot fmt content poolSize c (es @ [e]) d'"

section \<open>What the file lists\<close>

text \<open>The lines of the untrimmed file that are not blank, each without the space around it.\<close>

definition listed :: "string \<Rightarrow> string list" where
  "listed data = map TrimSpace (filter (\<lambda>l. \<exists>c\<in>set l. \<not> is_space c) (split_lines data))"

lemma split_lines_nonempty: "split_lines s \<noteq> []"
  by (cases s) (auto split: list.split)

lemma TrimSpace_empty: "TrimSpace l = [] \<longleftrightarrow> (\<forall>c\<in>set l. is_space c)"
  by (auto simp: TrimSpace_def dropWhile_eq_Nil_conv dest: set_dropWhileD)
    (metis dropWhile_eq_self_iff hd_in_set dropWhile_eq_Nil_conv hd_dropWhile)

lemma TrimSpace_Cons: "is_space c \<Longrightarrow> TrimSpace (c # l) = TrimSpace l"
  by (simp add: TrimSpace_def)

lemma TrimSpace_snoc: "is_space c \<Longrightarrow> TrimSpace (l @ [c]) = TrimSpace l"
  by (cases "\<forall>x\<in>set l. is_space x") (auto simp: TrimSpace_def dropWhile_append dest: set_dropWhileD)

lemma split_lines_snoc:
  "split_lines (s @ [c]) = (if c = newline then split_lines s @ [[]]
     else butlast (split_lines s) @ [last (split_lines s) @ [c]])"
  by (induction s) (auto simp: split_lines_nonempty split: list.split)

lemma listed_Cons: "is_space c \<Longrightarrow> listed (c # s) = listed s"
  using split_lines_nonempty [of s] by (cases "split_lines s") (auto simp: listed_def TrimSpace_Cons)

lemma listed_snoc:
  assumes "is_space c"
  shows "listed (s @ [c]) = listed s"
proof (cases "c = newline")
  case True
  then show ?thesis by (simp add: listed_def split_lines_snoc)
next
  case False
  have "split_lines s = butlast (split_lines s) @ [last (split_lines s)]" by (simp add: split_lines_nonempty)
  then obtain ls l where "split_lines s = ls @ [l]" by blast
  then show ?thesis using False assms by (simp add: listed_def split_lines_snoc TrimSpace_snoc)
qed

lemma listed_TrimSpace: "listed (TrimSpace s) = listed s"
proof -
  have "listed (rev (dropWhile is_space (rev t))) = listed t" for t
    by (induction t rule: rev_induct) (simp_all add: listed_snoc)
  moreover have "listed (dropWhile is_space t) = listed t" for t
    by (induction t) (simp_all add: listed_Cons)
  ultimately show ?thesis by (simp add: TrimSpace_def)
qed

lemma readURLs_listed: "readURLsFromFile (Inr data) = Inr (listed data)"
proof -
  have "filter (\<lambda>l. l \<noteq> []) (map TrimSpace ls) = map TrimSpace (filter (\<lambda>l. \<exists>c\<in>set l. \<not> is_space c) ls)" for ls
    by (induction ls) (auto simp: TrimSpace_empty)
  then have "filter (\<lambda>l. l \<noteq> []) (map TrimSpace (split_lines (TrimSpace data))) = listed (TrimSpace data)"
    by (simp add: listed_def)
  then show ?thesis by (simp add: readURLsFromFile_def listed_TrimSpace)
qed

section \<open>What the report says\<close>

text \<open>
  The report, line by line, from the URLs and how their requests ended: a line for each, then the numbers of
  all, of the answers with a status from 200 to 299 and of the failures, and the mean latency of the former.
\<close>

fun entry :: "string \<times> outcome \<Rightarrow> string" where
  "entry (u, BadRequest e) = u @ '': ERROR - '' @ e"
| "entry (u, Failed e ms) = u @ '': ERROR - '' @ e"
| "entry (u, Responded code ms) = u @ '': '' @ show_int code @ '' ('' @ show_int ms @ ''ms)''"

fun failed :: "string \<times> outcome \<Rightarrow> bool" where
  "failed (u, Responded code ms) = False"
| "failed (u, out) = True"

fun healthy_ms :: "(string \<times> outcome) list \<Rightarrow> int list" where
  "healthy_ms [] = []"
| "healthy_ms ((u, Responded code ms) # as) = (if code \<in> {200..<300} then [ms] else []) @ healthy_ms as"
| "healthy_ms (a # as) = healthy_ms as"

definition mean_ms :: "'f \<Rightarrow> (int \<Rightarrow> 'f) \<Rightarrow> ('f \<Rightarrow> 'f \<Rightarrow> 'f) \<Rightarrow> int list \<Rightarrow> 'f" where
  "mean_ms zero float quot ms = (if ms = [] then zero else quot (float (wrap64 (sum_list ms))) (float (int (length ms))))"

definition report_text :: "'f \<Rightarrow> (int \<Rightarrow> 'f) \<Rightarrow> ('f \<Rightarrow> 'f \<Rightarrow> 'f) \<Rightarrow> ('f \<Rightarrow> string) \<Rightarrow> (string \<times> outcome) list \<Rightarrow> string" where
  "report_text zero float quot fmt as = concat (map line
     ([''=== Results ===''] @ map entry as @ [[], ''=== Summary ==='',
       ''Total: '' @ show_int (int (length as)) @ '', Healthy: '' @ show_int (int (length (healthy_ms as))) @
       '', Errors: '' @ show_int (int (length (filter failed as))) @
       '', Avg Latency: '' @ fmt (mean_ms zero float quot (healthy_ms as)) @ ''ms'']))"

abbreviation result_of :: "string \<times> outcome \<Rightarrow> Result" where
  "result_of a \<equiv> checkUrl (fst a) (snd a)"

lemma report_line_entry: "report_line (result_of a) = line (entry a)"
  by (cases a rule: entry.cases) (simp_all add: report_line_def)

lemma summary_loop_answers:
  "summary_loop (map result_of as) \<lparr>Total = t, Healthy = h, Errors = e, AvgLatency = z\<rparr> (wrap64 lat) =
     (\<lparr>Total = t + int (length as), Healthy = h + int (length (healthy_ms as)),
       Errors = e + int (length (filter failed as)), AvgLatency = z\<rparr>, wrap64 (lat + sum_list (healthy_ms as)))"
proof (induction as arbitrary: t h e lat)
  case (Cons a as)
  have "wrap64 (ms + (wrap64 lat + x)) = wrap64 (ms + (lat + x))" for ms x
    using wrap64_add [of "ms + x" lat] by (simp add: ac_simps)
  moreover have "wrap64 (ms + wrap64 lat) = wrap64 (ms + lat)" for ms by (rule wrap64_add)
  ultimately have w: "wrap64 (ms + (wrap64 lat + x)) = wrap64 (ms + (lat + x))" "wrap64 (wrap64 lat + ms) = wrap64 (lat + ms)"
    for ms x by (simp_all add: add.commute)
  show ?case by (cases a rule: entry.cases) (auto simp: Cons.IH w ac_simps)
qed simp

lemma ComputeSummary_answers:
  "ComputeSummary zero float quot (map result_of as) =
     \<lparr>Total = int (length as), Healthy = int (length (healthy_ms as)), Errors = int (length (filter failed as)),
      AvgLatency = mean_ms zero float quot (healthy_ms as)\<rparr>"
  using summary_loop_answers [of as 0 0 0 zero 0] by (simp add: ComputeSummary_def mean_ms_def)

lemma printResults_text:
  "printResults fmt (map result_of as) (ComputeSummary zero float quot (map result_of as)) = report_text zero float quot fmt as"
  by (simp add: printResults_def report_text_def ComputeSummary_answers report_line_entry comp_def line_def)

section \<open>The command\<close>

text \<open>Every result comes from a request.\<close>

definition from_requests :: "pool \<Rightarrow> bool" where
  "from_requests s \<longleftrightarrow> set (results s) \<subseteq> range result_of \<and> (\<forall>r. Reporting r \<in> set (workers s) \<longrightarrow> r \<in> range result_of) \<and>
     (\<forall>rs err. returned s = Some (rs, err) \<longrightarrow> set rs \<subseteq> range result_of)"

lemma result_of_range: "checkUrl u out \<in> range result_of"
  by (rule range_eqI [of _ _ "(u, out)"]) simp

lemma update_workers: "Reporting r \<in> set (ws[i := w]) \<Longrightarrow> w = Reporting r \<or> Reporting r \<in> set ws"
  using set_update_subset_insert [of ws i w] by auto

lemma step_from_requests:
  assumes "pool_step s e s'" and "from_requests s"
  shows "from_requests s'"
  using assms(1)
proof cases
  case (send i r)
  then have "r \<in> range result_of" using assms(2) nth_mem unfolding from_requests_def by metis
  then show ?thesis using send assms(2) by (auto simp: from_requests_def dest!: update_workers)
next
  case (response i u out)
  then show ?thesis using assms(2) result_of_range by (auto simp: from_requests_def dest!: update_workers)
qed (use assms(2) in \<open>auto simp: from_requests_def dest!: update_workers\<close>)

text \<open>A run without interrupts is the start, a run of \<open>RunChecker\<close>, and the end.\<close>

lemma RunE_run_phases:
  assumes "RunE_run zero float quot fmt (Inr data) n (Reading False) es c" and "0 < n" and "Interrupt \<notin> set es"
    and s: "RunChecker_start (listed data) n = Ok s"
  shows "c = Reading False \<and> es = [] \<or> (\<exists>t es'. c = Running t \<and> es = Step # es' \<and> pool_run s es' t \<and> from_requests t) \<or>
    (\<exists>t es' rs err. pool_run s es' t \<and> from_requests t \<and> es = Step # es' @ [Step] \<and> returned t = Some (rs, err) \<and>
       c = Ended (Ok (case err of Some e \<Rightarrow> Inl e | None \<Rightarrow> Inr (printResults fmt rs (ComputeSummary zero float quot rs)))))"
  using assms(1,3)
proof (induction rule: RunE_run.induct)
  case (snoc es d e d')
  have e: "e = Step" using snoc.prems by (cases e) auto
  have "\<not> cancelled s" using s by (auto simp: RunChecker_start_def split: if_splits)
  then have start: "s\<lparr>cancelled := False\<rparr> = s" by simp
  have reqs: "from_requests s" using s by (auto simp: RunChecker_start_def from_requests_def split: if_splits)
  from snoc consider "d = Reading False" "es = []"
    | t es' where "d = Running t" "es = Step # es'" "pool_run s es' t" "from_requests t"
    | out where "d = Ended out" by auto
  then show ?case
  proof cases
    case 1
    with snoc.hyps(2) have "d' = Running s"
      by (cases rule: RunE_step.cases) (use e s start in \<open>auto simp: readURLs_listed\<close>)
    then show ?thesis using 1 e reqs by (auto intro: pool_run.nil)
  next
    case (2 t es')
    from snoc.hyps(2) show ?thesis
    proof (cases rule: RunE_step.cases)
      case (check s' u)
      then have "pool_run s (es' @ [e]) u" "from_requests u"
        using 2 by (auto intro: pool_run.snoc dest: step_from_requests)
      then show ?thesis using check 2 e by auto
    qed (use 2 e in fastforce)+
  next
    case 3
    with snoc.hyps(2) show ?thesis by (auto elim: RunE_step_cases)
  qed
qed simp

text \<open>
  C23: the command from the file to the report. For a file that can be read, with a worker and no interrupt,
  no run has more than \<open>5 len + poolSize + 4\<close> steps for a file that lists \<open>len\<close> URLs, and none is stuck before the command has ended.
  What it has then written is the report of one request for every line of the file that is not blank, in
  some order: their lines, and the summary with the numbers of all, the 2xx answers and the failures.
\<close>

theorem health_report:
  assumes "RunE_run zero float quot fmt (Inr data) n (Reading False) es c" and "0 < n" and "Interrupt \<notin> set es"
  shows "length es \<le> 5 * length (listed data) + nat n + 4 \<and>
    (case c of
       Ended out \<Rightarrow> \<exists>as. out = Ok (Inr (report_text zero float quot fmt as)) \<and> mset (map fst as) = mset (listed data)
     | _ \<Rightarrow> \<exists>c'. RunE_step zero float quot fmt (Inr data) n c Step c')"
proof -
  obtain s where s: "RunChecker_start (listed data) n = Ok s" using assms(2) by (simp add: RunChecker_start_def)
  note inv = run_inv [OF _ pool_start_inv [OF _ s]]
  from RunE_run_phases [OF assms s] show ?thesis
  proof (elim disjE exE conjE)
    assume "c = Reading False" "es = []"
    then show ?thesis using RunE_step.start [OF readURLs_listed s, of zero float quot fmt False] by (auto intro: exI)
  next
    fix t es' assume c: "c = Running t" "es = Step # es'" and run: "pool_run s es' t"
    have inv': "pool_inv (listed data) (nat n) t" and len: "left t + length es' \<le> left s"
      using inv [OF run] assms(2,3) c(2) by auto
    have "\<exists>c'. RunE_step zero float quot fmt (Inr data) n c Step c'"
    proof (cases "returned t")
      case None
      then show ?thesis using step_possible [OF inv_safe [OF inv']] assms(2) c(1) RunE_step.check by fastforce
    next
      case (Some r)
      then show ?thesis using c(1) RunE_step.check_error RunE_step.report by (cases r; cases "snd r") fastforce+
    qed
    then show ?thesis using c len start_left [OF s] by simp
  next
    fix t es' rs err assume run: "pool_run s es' t" "from_requests t" "es = Step # es' @ [Step]" "returned t = Some (rs, err)"
      and c: "c = Ended (Ok (case err of Some e \<Rightarrow> Inl e | None \<Rightarrow> Inr (printResults fmt rs (ComputeSummary zero float quot rs))))"
    have len: "left t + length es' \<le> left s" using inv [OF run(1)] assms(2,3) run(3) by auto
    have all: "err = None" "mset (map URL rs) = mset (listed data)"
      using run_complete [OF assms(2) s run(1) _ run(4)] assms(3) run(3) by auto
    have "\<forall>r\<in>set rs. \<exists>a. r = result_of a" using run(2,4) unfolding from_requests_def by fast
    then obtain as where as: "rs = map result_of as" unfolding ex_map_conv [symmetric] by blast
    then have "mset (map fst as) = mset (listed data)" using all(2) by (simp add: comp_def)
    then show ?thesis using c all(1) as len start_left [OF s] run(3) by (auto simp: printResults_text)
  qed
qed

lemma pool_RunE_run:
  assumes "readURLsFromFile content = Inr urls" and "RunChecker_start urls n = Ok s" and "pool_run s es t"
  shows "RunE_run zero float quot fmt content n (Reading False) (Step # es) (Running t)"
  using assms(3)
proof (induction rule: pool_run.induct)
  case nil
  have "s\<lparr>cancelled := False\<rparr> = s" using assms(2) by (auto simp: RunChecker_start_def split: if_splits)
  then show ?case using RunE_run.snoc [OF RunE_run.nil RunE_step.start [OF assms(1,2), of _ _ _ _ False]] by simp
next
  case (snoc es t e u)
  from RunE_run.snoc [OF snoc.IH RunE_step.check [OF snoc.hyps(2)]] show ?case by simp
qed

theorem health_report_witness:
  "\<exists>out as. RunE_run (0::int) id (+) show_int (Inr (''http://a'' @ [newline])) 1 (Reading False) (replicate 10 Step) (Ended out) \<and>
     out = Ok (Inr (report_text 0 id (+) show_int as)) \<and> mset (map fst as) = mset [''http://a'']"
proof -
  let ?data = "''http://a'' @ [newline]" and ?rs = "[checkUrl ''http://a'' (Responded 200 12)]"
  let ?out = "Ok (Inr (printResults show_int ?rs (ComputeSummary (0::int) id (+) ?rs))) :: (string + string) go"
  have input: "listed ?data = [''http://a'']" by code_simp
  have "returned (one_worker [] [] True (Exited None) ?rs True (Some (?rs, None))) = Some (?rs, None)"
    by (simp add: one_worker_def)
  note finish = RunE_step.report [OF this refl]
  have "RunE_run (0::int) id (+) show_int (Inr ?data) 1 (Reading False) (Step # replicate 8 Step) (Running
      (one_worker [] [] True (Exited None) ?rs True (Some (?rs, None))))"
    by (rule pool_RunE_run [OF readURLs_listed _ run_one]) (simp only: input start_one)
  from RunE_run.snoc [OF this finish]
  have run: "RunE_run (0::int) id (+) show_int (Inr ?data) 1 (Reading False) (replicate 10 Step) (Ended ?out)"
    by (simp add: numeral_eq_Suc)
  have "\<exists>as. ?out = Ok (Inr (report_text 0 id (+) show_int as)) \<and> mset (map fst as) = mset (listed ?data)"
    using health_report [OF run] by simp
  with run show ?thesis unfolding input by blast
qed

end
