(* ===== verification/FileBlocks.thy ===== *)
theory FileBlocks
  imports GoPrelude
begin

text \<open>
  The file block service of \<open>src/practice/file_block_service.go\<close>. A string is its list of bytes. The \<open>Next\<close>
  pointers point into the slice of blocks, which is never reallocated: they are indexes. \<open>Print\<close> gives
  what it writes to the console.
\<close>

section \<open>The service\<close>

record Block =
  Data :: string
  Next :: "nat option"

record FileBlockService =
  blocks :: "Block list"
  capacity :: int
  used :: int
  head :: Block

text \<open>\<open>New_loop\<close> runs its variable from the argument less one down to zero.\<close>

fun New_loop :: "int \<Rightarrow> nat \<Rightarrow> Block list \<Rightarrow> Block list" where
  "New_loop cap 0 bs = bs"
| "New_loop cap (Suc i) bs =
     New_loop cap i (if int i < cap - 1 then bs[i := \<lparr>Data = [], Next = Some (i + 1)\<rparr>] else bs[i := \<lparr>Data = [], Next = None\<rparr>])"

definition NewFileBlockService :: "int \<Rightarrow> FileBlockService go" where
  "NewFileBlockService cap =
     go_bind (go_make \<lparr>Data = [], Next = None\<rparr> cap) (\<lambda>bs.
     let bs = New_loop cap (nat cap) bs
     in go_bind (go_index bs 0) (\<lambda>first.
        Ok \<lparr>blocks = bs, capacity = cap, used = 0, head = \<lparr>Data = [], Next = Some 0\<rparr>\<rparr>))"

text \<open>The walk along the chain may not end for arbitrary pointers.\<close>

partial_function (option) Print_loop :: "Block list \<Rightarrow> nat option \<Rightarrow> string \<Rightarrow> string option" where
  "Print_loop bs b printed =
     (case b of None \<Rightarrow> Some printed
      | Some i \<Rightarrow>
          Print_loop bs (Next (bs ! i))
            (printed @ ''['' @ Data (bs ! i) @ '']'' @ (if Next (bs ! i) \<noteq> None then '' -> '' else [])))"

definition Print :: "FileBlockService \<Rightarrow> string option" where
  "Print fbs = map_option (\<lambda>s. s @ [CHR 0x0A]) (Print_loop (blocks fbs) (Next (head fbs)) [])"

datatype write_error = InvalidLength int | CannotAdd int int int

fun Write_loop :: "string \<Rightarrow> nat \<Rightarrow> nat \<Rightarrow> FileBlockService \<Rightarrow> FileBlockService go" where
  "Write_loop data i 0 fbs = Ok fbs"
| "Write_loop data i (Suc k) fbs =
     go_bind (go_slice data (int (i * 8)) (int ((i + 1) * 8))) (\<lambda>piece.
     go_bind (go_index (blocks fbs) (used fbs)) (\<lambda>b.
     go_bind (go_store (blocks fbs) (used fbs) (b\<lparr>Data := piece\<rparr>)) (\<lambda>bs.
     Write_loop data (Suc i) k (fbs\<lparr>blocks := bs, used := used fbs + 1\<rparr>))))"

definition Write :: "FileBlockService \<Rightarrow> string \<Rightarrow> (write_error option \<times> FileBlockService) go" where
  "Write fbs data =
     (if data = [] then Ok (None, fbs)
      else let n = int (length data)
           in if go_mod n 8 \<noteq> 0 then Ok (Some (InvalidLength n), fbs)
              else let toAdd = go_div n 8
                   in if capacity fbs < toAdd + used fbs then Ok (Some (CannotAdd toAdd (used fbs) (capacity fbs)), fbs)
                      else go_bind (Write_loop data 0 (nat toAdd) fbs) (\<lambda>fbs. Ok (None, fbs)))"

section \<open>The chain holds a list of pieces\<close>

definition chained :: "nat \<Rightarrow> string list \<Rightarrow> FileBlockService \<Rightarrow> bool" where
  "chained cap ds fbs \<longleftrightarrow> 0 < cap \<and> length ds \<le> cap \<and> length (blocks fbs) = cap \<and> capacity fbs = int cap \<and>
     used fbs = int (length ds) \<and> Next (head fbs) = Some 0 \<and>
     (\<forall>i<cap. Next (blocks fbs ! i) = (if i + 1 < cap then Some (i + 1) else None) \<and>
        Data (blocks fbs ! i) = (if i < length ds then ds ! i else []))"

lemma New_loop_blocks:
  "k \<le> length bs \<Longrightarrow> length (New_loop (int (length bs)) k bs) = length bs \<and>
   (\<forall>i<length bs. New_loop (int (length bs)) k bs ! i =
     (if i < k then \<lparr>Data = [], Next = (if i + 1 < length bs then Some (i + 1) else None)\<rparr> else bs ! i))"
proof (induction k arbitrary: bs)
  case (Suc k)
  let ?b = "if int k < int (length bs) - 1 then bs[k := \<lparr>Data = [], Next = Some (k + 1)\<rparr>] else bs[k := \<lparr>Data = [], Next = None\<rparr>]"
  have "length ?b = length bs" by simp
  with Suc.IH [of ?b] Suc.prems show ?case by (auto simp: nth_list_update less_Suc_eq)
qed simp

lemma New_chained:
  assumes "0 < cap"
  shows "\<exists>fbs. NewFileBlockService cap = Ok fbs \<and> chained (nat cap) [] fbs"
proof -
  let ?z = "\<lparr>Data = [], Next = None\<rparr>"
  let ?bs = "New_loop cap (nat cap) (replicate (nat cap) ?z)"
  have "length ?bs = nat cap"
    "\<And>i. i < nat cap \<Longrightarrow> ?bs ! i = \<lparr>Data = [], Next = (if i + 1 < nat cap then Some (i + 1) else None)\<rparr>"
    using New_loop_blocks [of "nat cap" "replicate (nat cap) ?z"] assms by auto
  then show ?thesis using assms
    by (auto simp: NewFileBlockService_def go_make_def go_index_def chained_def Let_def)
qed

text \<open>The pieces of eight bytes of a string.\<close>

fun pieces :: "nat \<Rightarrow> string \<Rightarrow> string list" where
  "pieces 0 s = []"
| "pieces (Suc k) s = take 8 s # pieces k (drop 8 s)"

lemma length_pieces [simp]: "length (pieces k s) = k"
  by (induction k s rule: pieces.induct) auto

lemma Write_loop_chained:
  "chained cap ds fbs \<Longrightarrow> length ds + k \<le> cap \<Longrightarrow> (i + k) * 8 \<le> length data \<Longrightarrow>
   \<exists>fbs'. Write_loop data i k fbs = Ok fbs' \<and> chained cap (ds @ pieces k (drop (i * 8) data)) fbs'"
proof (induction k arbitrary: i ds fbs)
  case (Suc k)
  let ?piece = "take 8 (drop (i * 8) data)" and ?n = "length ds"
  let ?fbs = "fbs\<lparr>blocks := (blocks fbs)[?n := (blocks fbs ! ?n)\<lparr>Data := ?piece\<rparr>], used := used fbs + 1\<rparr>"
  have n: "?n < length (blocks fbs)" "used fbs = int ?n" using Suc.prems by (auto simp: chained_def)
  have "go_slice data (int (i * 8)) (int ((i + 1) * 8)) = Ok ?piece"
    using go_slice_Ok [of "i * 8" "(i + 1) * 8" data] Suc.prems(3) by simp
  then have step: "Write_loop data i (Suc k) fbs = Write_loop data (Suc i) k ?fbs"
    using n by (simp only: Write_loop.simps go_bind.simps) (simp add: go_store_def)
  have "chained cap (ds @ [?piece]) ?fbs"
    using Suc.prems by (auto simp: chained_def nth_list_update nth_append)
  from Suc.IH [OF this, of "Suc i"] Suc.prems show ?case unfolding step by (simp add: add.commute)
qed simp

text \<open>What \<open>Print\<close> shows.\<close>

fun shown :: "string list \<Rightarrow> string" where
  "shown [] = []"
| "shown [d] = ''['' @ d @ '']''"
| "shown (d # ds) = ''['' @ d @ '']'' @ '' -> '' @ shown ds"

lemma Print_loop_chained:
  assumes c: "chained cap ds fbs"
  shows "i < cap \<Longrightarrow> Print_loop (blocks fbs) (Some i) s = Some (s @ shown (drop i (ds @ replicate (cap - length ds) [])))"
proof (induction "cap - i" arbitrary: i s rule: less_induct)
  case less
  let ?all = "ds @ replicate (cap - length ds) []"
  have len: "length ?all = cap" using c by (simp add: chained_def)
  have i: "i < length ?all" using less.prems len by simp
  have "Data (blocks fbs ! i) = ?all ! i" "Next (blocks fbs ! i) = (if i + 1 < cap then Some (i + 1) else None)"
    using c less.prems by (auto simp: chained_def nth_append)
  moreover have "drop i ?all = ?all ! i # drop (Suc i) ?all" using i by (rule Cons_nth_drop_Suc [symmetric])
  moreover have "drop (Suc i) ?all = [] \<longleftrightarrow> \<not> i + 1 < cap" using len by auto
  moreover have "shown (x # y) = ''['' @ x @ '']'' @ (if y = [] then [] else '' -> '' @ shown y)" for x y by (cases y) auto
  ultimately show ?case
    using less.hyps [of "Suc i"] less.prems by (subst Print_loop.simps) (auto simp: Print_loop.simps [of _ None])
qed

section \<open>The properties\<close>

datatype block_op = WriteOp string | PrintOp

datatype block_out = Written "write_error option" | Printed "string option" | Panicked go_panic

fun block_step :: "FileBlockService \<Rightarrow> block_op \<Rightarrow> block_out \<times> FileBlockService" where
  "block_step fbs (WriteOp d) = (case Write fbs d of Inl e \<Rightarrow> (Panicked e, fbs) | Inr (err, fbs') \<Rightarrow> (Written err, fbs'))"
| "block_step fbs PrintOp = (Printed (Print fbs), fbs)"

text \<open>The specification keeps the list of pieces written so far.\<close>

fun piece_step :: "nat \<Rightarrow> string list \<Rightarrow> block_op \<Rightarrow> block_out \<times> string list" where
  "piece_step cap ds (WriteOp d) =
     (let k = length d div 8
      in if length d mod 8 \<noteq> 0 then (Written (Some (InvalidLength (int (length d)))), ds)
         else if d \<noteq> [] \<and> cap < k + length ds then (Written (Some (CannotAdd (int k) (int (length ds)) (int cap))), ds)
         else (Written None, ds @ pieces k d))"
| "piece_step cap ds PrintOp = (Printed (Some (shown (ds @ replicate (cap - length ds) []) @ [CHR 0x0A])), ds)"

lemma Write_chained:
  assumes c: "chained cap ds fbs"
  shows "\<exists>fbs'. block_step fbs (WriteOp d) = (fst (piece_step cap ds (WriteOp d)), fbs') \<and>
    chained cap (snd (piece_step cap ds (WriteOp d))) fbs'"
proof -
  let ?n = "length d"
  have m: "go_mod (int ?n) 8 = int (?n mod 8)" "go_div (int ?n) 8 = int (?n div 8)"
    by (simp_all add: go_mod_nonneg go_div_nonneg zmod_int zdiv_int)
  have u: "used fbs = int (length ds)" "capacity fbs = int cap" using c by (auto simp: chained_def)
  consider "d = []" | "d \<noteq> []" "?n mod 8 \<noteq> 0" | "d \<noteq> []" "?n mod 8 = 0" "cap < ?n div 8 + length ds"
    | "d \<noteq> []" "?n mod 8 = 0" "?n div 8 + length ds \<le> cap" by linarith
  then show ?thesis
  proof cases
    case 4
    obtain fbs' where "Write_loop d 0 (?n div 8) fbs = Ok fbs'" "chained cap (ds @ pieces (?n div 8) d) fbs'"
      using Write_loop_chained [OF c, of "?n div 8" 0 d] 4 by auto
    then show ?thesis using 4 by (simp add: Write_def Let_def m u del: of_nat_mod of_nat_div)
  qed (use c in \<open>auto simp: Write_def Let_def m u\<close>)
qed

interpretation file_blocks: refines block_step "piece_step cap" "\<lambda>fbs ds. chained cap ds fbs" "\<lambda>p. True" for cap
proof unfold_locales
  fix fbs ds p assume c: "chained cap ds fbs"
  have "\<exists>fbs'. block_step fbs p = (fst (piece_step cap ds p), fbs') \<and> chained cap (snd (piece_step cap ds p)) fbs'"
  proof (cases p)
    case PrintOp
    have "Next (head fbs) = Some 0" "0 < cap" using c by (auto simp: chained_def)
    then show ?thesis using c Print_loop_chained [OF c, of 0 "[]"] PrintOp by (simp add: Print_def)
  qed (use Write_chained [OF c] in simp)
  then show "fst (block_step fbs p) = fst (piece_step cap ds p)" "chained cap (snd (piece_step cap ds p)) (snd (block_step fbs p))"
    by auto
qed

text \<open>
  C38: a service of any positive capacity answers every sequence of \<open>Write\<close> and \<open>Print\<close> as the list of the
  eight-byte pieces written so far: a write adds all pieces of its data or, with the error the code
  names, none; \<open>Print\<close> ends and shows the pieces and then the empty blocks; nothing panics.
\<close>

theorem file_blocks_refine_pieces:
  assumes "0 < cap"
  shows "\<exists>fbs. NewFileBlockService cap = Ok fbs \<and>
    fst (run_ops block_step fbs ops) = fst (run_ops (piece_step (nat cap)) [] ops)"
proof -
  obtain fbs where "NewFileBlockService cap = Ok fbs" "chained (nat cap) [] fbs" using New_chained [OF assms] by blast
  with file_blocks.run_outputs [OF this(2), of ops] show ?thesis by simp
qed

theorem file_blocks_refine_pieces_witness:
  "\<exists>fbs. NewFileBlockService 2 = Ok fbs \<and>
    fst (run_ops block_step fbs [WriteOp ''abcdefgh'', WriteOp ''abc'', WriteOp ''0123456789abcdef'', PrintOp]) =
      [Written None, Written (Some (InvalidLength 3)), Written (Some (CannotAdd 2 1 2)),
       Printed (Some (''[abcdefgh] -> []'' @ [CHR 0x0A]))]"
proof -
  have spec: "fst (run_ops (piece_step (nat 2)) [] [WriteOp ''abcdefgh'', WriteOp ''abc'', WriteOp ''0123456789abcdef'', PrintOp]) =
      [Written None, Written (Some (InvalidLength 3)), Written (Some (CannotAdd 2 1 2)),
       Printed (Some (''[abcdefgh] -> []'' @ [CHR 0x0A]))]"
    by code_simp
  have "(0 :: int) < 2" by simp
  from file_blocks_refine_pieces [OF this] show ?thesis unfolding spec [symmetric] .
qed

text \<open>
  A service without blocks cannot be made: the address of the first block is taken also when there is
  none, and a negative capacity is a negative length.
\<close>

theorem file_blocks_no_capacity:
  "NewFileBlockService 0 = Panic IndexOutOfRange \<and> NewFileBlockService (- 1 - int n) = Panic MakeNegative"
  by (simp add: NewFileBlockService_def go_make_def go_index_def Let_def)

end
