(* ===== verification/Floats.thy ===== *)
theory Floats
  imports Complex_Main MachineInts
begin

text \<open>
  Go's \<open>float64\<close>: a real number, an infinity or not a number. The two zeros are one, which the code here
  never tells apart. Sums, products and quotients of numbers are rounded by an argument \<open>rnd\<close>; all
  results stay far below the largest number, so that rounding never overflows. Comparisons with a NaN are
  false.
\<close>

datatype float64 = Fin real | PInf | NInf | NaN

fun fless :: "float64 \<Rightarrow> float64 \<Rightarrow> bool" where
  "fless (Fin x) (Fin y) = (x < y)"
| "fless (Fin x) PInf = True"
| "fless NInf (Fin x) = True"
| "fless NInf PInf = True"
| "fless _ _ = False"

fun feq :: "float64 \<Rightarrow> float64 \<Rightarrow> bool" where
  "feq (Fin x) (Fin y) = (x = y)"
| "feq PInf PInf = True"
| "feq NInf NInf = True"
| "feq _ _ = False"

definition fle :: "float64 \<Rightarrow> float64 \<Rightarrow> bool" where
  "fle x y = (fless x y \<or> feq x y)"

fun fabs :: "float64 \<Rightarrow> float64" where
  "fabs (Fin x) = Fin \<bar>x\<bar>"
| "fabs NInf = PInf"
| "fabs x = x"

fun fneg :: "float64 \<Rightarrow> float64" where
  "fneg (Fin x) = Fin (- x)"
| "fneg PInf = NInf"
| "fneg NInf = PInf"
| "fneg NaN = NaN"

fun fadd :: "(real \<Rightarrow> real) \<Rightarrow> float64 \<Rightarrow> float64 \<Rightarrow> float64" where
  "fadd rnd (Fin x) (Fin y) = Fin (rnd (x + y))"
| "fadd rnd NaN y = NaN"
| "fadd rnd x NaN = NaN"
| "fadd rnd PInf NInf = NaN"
| "fadd rnd NInf PInf = NaN"
| "fadd rnd PInf y = PInf"
| "fadd rnd x PInf = PInf"
| "fadd rnd NInf y = NInf"
| "fadd rnd x NInf = NInf"

definition fsub :: "(real \<Rightarrow> real) \<Rightarrow> float64 \<Rightarrow> float64 \<Rightarrow> float64" where
  "fsub rnd x y = fadd rnd x (fneg y)"

text \<open>The sign of a number as an infinity, for products and quotients.\<close>

definition signed_inf :: "real \<Rightarrow> float64" where
  "signed_inf s = (if 0 < s then PInf else if s < 0 then NInf else NaN)"

fun fsign :: "float64 \<Rightarrow> real" where
  "fsign (Fin x) = sgn x"
| "fsign PInf = 1"
| "fsign NInf = - 1"
| "fsign NaN = 0"

fun fmul :: "(real \<Rightarrow> real) \<Rightarrow> float64 \<Rightarrow> float64 \<Rightarrow> float64" where
  "fmul rnd (Fin x) (Fin y) = Fin (rnd (x * y))"
| "fmul rnd x y = signed_inf (fsign x * fsign y)"

text \<open>A quotient by a positive zero; the divisors here are never a negative one.\<close>

fun fdiv :: "(real \<Rightarrow> real) \<Rightarrow> float64 \<Rightarrow> float64 \<Rightarrow> float64" where
  "fdiv rnd (Fin x) (Fin y) = (if y = 0 then signed_inf x else Fin (rnd (x / y)))"
| "fdiv rnd (Fin x) NaN = NaN"
| "fdiv rnd (Fin x) y = Fin 0"
| "fdiv rnd x (Fin y) = (if y = 0 then signed_inf (fsign x) else signed_inf (fsign x * sgn y))"
| "fdiv rnd x y = NaN"

text \<open>\<open>math.Min\<close>.\<close>

definition fmin :: "float64 \<Rightarrow> float64 \<Rightarrow> float64" where
  "fmin x y = (if x = NInf \<or> y = NInf then NInf else if x = NaN \<or> y = NaN then NaN else if fless x y then x else y)"

text \<open>
  The conversion to a signed 64-bit integer truncates; outside the range Go leaves the result to the
  machine, and it is what amd64 gives.
\<close>

fun to_int64 :: "float64 \<Rightarrow> int" where
  "to_int64 (Fin x) =
     (let t = (if 0 \<le> x then \<lfloor>x\<rfloor> else \<lceil>x\<rceil>) in if - (2 ^ 63) \<le> t \<and> t < 2 ^ 63 then t else - (2 ^ 63))"
| "to_int64 x = - (2 ^ 63)"

definition of_int64 :: "(real \<Rightarrow> real) \<Rightarrow> int \<Rightarrow> float64" where
  "of_int64 rnd i = Fin (rnd (of_int i))"

end
