(* ===== verification/Thermometer.thy ===== *)
theory Thermometer
  imports Floats
begin

text \<open>The temperature closest to zero, \<open>src/practice/temperature.go\<close>.\<close>

fun closest_loop :: "float64 list \<Rightarrow> float64 \<Rightarrow> float64" where
  "closest_loop [] closestToZero = closestToZero"
| "closest_loop (t # ts) closestToZero =
     (let absClosest = fabs closestToZero; absNext = fabs t
      in if feq absNext (Fin 0) then Fin 0
         else if fless absNext absClosest \<or> feq absNext absClosest \<and> fless (Fin 0) t \<and> fless closestToZero (Fin 0)
              then closest_loop ts t
              else closest_loop ts closestToZero)"

definition ClosestToZero :: "float64 list \<Rightarrow> float64" where
  "ClosestToZero ts = (if length ts = 0 then Fin 0 else closest_loop ts (ts ! 0))"

text \<open>What the loop has found: none of the numbers so far is closer, and a negative one has no positive twin.\<close>

definition best :: "real set \<Rightarrow> real \<Rightarrow> bool" where
  "best S x \<longleftrightarrow> x \<in> S \<and> (\<forall>y\<in>S. \<bar>x\<bar> \<le> \<bar>y\<bar>) \<and> (x < 0 \<longrightarrow> - x \<notin> S)"

lemma best_insert:
  assumes "best S x"
  shows "best (insert y S) (if \<bar>y\<bar> < \<bar>x\<bar> \<or> \<bar>y\<bar> = \<bar>x\<bar> \<and> 0 < y \<and> x < 0 then y else x)"
proof -
  have least: "\<bar>x\<bar> \<le> \<bar>z\<bar>" if "z \<in> S" for z using assms that by (simp add: best_def)
  have twin: "x \<in> S" "x < 0 \<Longrightarrow> - x \<notin> S" using assms by (auto simp: best_def)
  consider "\<bar>y\<bar> < \<bar>x\<bar>" | "\<bar>y\<bar> = \<bar>x\<bar>" "0 < y" "x < 0" | "\<not> (\<bar>y\<bar> < \<bar>x\<bar> \<or> \<bar>y\<bar> = \<bar>x\<bar> \<and> 0 < y \<and> x < 0)" by blast
  then show ?thesis
  proof cases
    case 1
    have "- y \<notin> S" using 1 least [of "- y"] by auto
    then show ?thesis using 1 least by (auto simp: best_def) force
  next
    case 2
    then show ?thesis using least by (auto simp: best_def)
  next
    case 3
    then have "\<bar>x\<bar> \<le> \<bar>y\<bar>" "x < 0 \<Longrightarrow> - x \<noteq> y" by linarith+
    then show ?thesis unfolding if_not_P [OF 3] using least twin by (auto simp: best_def)
  qed
qed

lemma closest_loop_best:
  "best S x \<Longrightarrow> \<exists>y. closest_loop (map Fin xs) (Fin x) = Fin y \<and> best (S \<union> set xs) y"
proof (induction xs arbitrary: S x)
  case (Cons t xs)
  show ?case
  proof (cases "t = 0")
    case True
    then show ?thesis by (auto simp: best_def)
  next
    case False
    let ?x = "if \<bar>t\<bar> < \<bar>x\<bar> \<or> \<bar>t\<bar> = \<bar>x\<bar> \<and> 0 < t \<and> x < 0 then t else x"
    have "closest_loop (map Fin (t # xs)) (Fin x) = closest_loop (map Fin xs) (Fin ?x)"
      using False by (simp only: list.map closest_loop.simps Let_def fabs.simps feq.simps fless.simps abs_eq_0 if_False split: if_split) (auto simp: abs_if)
    with Cons.IH [OF best_insert [OF Cons.prems, of t]] show ?thesis by simp
  qed
qed simp

text \<open>
  C40: for temperatures that are numbers, \<open>ClosestToZero\<close> gives one of them than which none is closer to
  zero, the positive one of two that are equally close, and zero if there are none.
\<close>

theorem temperature_closest:
  "\<exists>y. ClosestToZero (map Fin xs) = Fin y \<and> (if xs = [] then y = 0 else best (set xs) y)"
proof (cases xs)
  case (Cons x ts)
  have "best {x} x" by (auto simp: best_def)
  from closest_loop_best [OF this, of xs] show ?thesis using Cons by (auto simp: ClosestToZero_def insert_absorb)
qed (simp add: ClosestToZero_def)

end
