(* ===== verification/TokenLimiter.thy ===== *)
theory TokenLimiter
  imports Floats
begin

text \<open>
  The token bucket of \<open>src/rate-limiting/token-bucket\<close>. The mutex makes every method one step; the readings
  of the clock in a call are its arguments, in nanoseconds. \<open>buckets\<close> is the only holder of the pointers to
  the buckets, so a write through one is an update of the map.
\<close>

section \<open>The limiter\<close>

record bucket =
  tokens :: float64
  lastRefill :: int

record TokenBucket =
  buckets :: "string \<Rightarrow> bucket option"
  rate :: int
  burstSize :: int
  window :: int

record Result =
  Allowed :: bool
  Remaining :: int
  RetryAfter :: int
  ResetAt :: "int option"

definition NewTokenBucket :: "int \<Rightarrow> int \<Rightarrow> int \<Rightarrow> TokenBucket" where
  "NewTokenBucket r w burst =
     \<lparr>buckets = Map.empty, rate = r, burstSize = (if burst = 0 then r else burst), window = w\<rparr>"

text \<open>\<open>Duration.Seconds\<close> adds the whole seconds and the rest.\<close>

definition Seconds :: "(real \<Rightarrow> real) \<Rightarrow> int \<Rightarrow> float64" where
  "Seconds rnd d =
     fadd rnd (of_int64 rnd (go_div d 1000000000)) (fdiv rnd (of_int64 rnd (go_mod d 1000000000)) (Fin 1000000000))"

definition refillRate :: "(real \<Rightarrow> real) \<Rightarrow> TokenBucket \<Rightarrow> float64" where
  "refillRate rnd tb = fdiv rnd (of_int64 rnd (rate tb)) (Seconds rnd (window tb))"

text \<open>The part that \<open>AllowN\<close> and \<open>AllowWithInfo\<close> have in common, up to the consumption; \<open>t1\<close> and \<open>t2\<close> are the clock.\<close>

definition refill :: "(real \<Rightarrow> real) \<Rightarrow> TokenBucket \<Rightarrow> bucket \<Rightarrow> int \<Rightarrow> int \<Rightarrow> bucket" where
  "refill rnd tb b t1 t2 =
     (let elapsed = time_Since t1 (lastRefill b);
          tokensToAdd = fmul rnd (refillRate rnd tb) (Seconds rnd elapsed)
      in \<lparr>tokens = fmin (fadd rnd (tokens b) tokensToAdd) (of_int64 rnd (burstSize tb)), lastRefill = t2\<rparr>)"

definition AllowN :: "(real \<Rightarrow> real) \<Rightarrow> TokenBucket \<Rightarrow> string \<Rightarrow> int \<Rightarrow> int \<Rightarrow> int \<Rightarrow> bool \<times> TokenBucket" where
  "AllowN rnd tb key n t1 t2 =
     (case buckets tb key of
        None \<Rightarrow>
          if n \<le> burstSize tb
          then (True, tb\<lparr>buckets := (buckets tb)(key \<mapsto>
                 \<lparr>tokens = of_int64 rnd (wrap64 (burstSize tb - n)), lastRefill = t2\<rparr>)\<rparr>)
          else (False, tb)
      | Some b \<Rightarrow>
          let b = refill rnd tb b t1 t2
          in if fle (of_int64 rnd n) (tokens b)
             then (True, tb\<lparr>buckets := (buckets tb)(key \<mapsto> b\<lparr>tokens := fsub rnd (tokens b) (of_int64 rnd n)\<rparr>)\<rparr>)
             else (False, tb\<lparr>buckets := (buckets tb)(key \<mapsto> b)\<rparr>))"

definition Allow :: "(real \<Rightarrow> real) \<Rightarrow> TokenBucket \<Rightarrow> string \<Rightarrow> int \<Rightarrow> int \<Rightarrow> bool \<times> TokenBucket" where
  "Allow rnd tb key t1 t2 = AllowN rnd tb key 1 t1 t2"

definition Reset :: "TokenBucket \<Rightarrow> string \<Rightarrow> TokenBucket" where
  "Reset tb key = tb\<lparr>buckets := (buckets tb)(key := None)\<rparr>"

text \<open>\<open>t3\<close> is the clock when the result is built; the zero time of \<open>ResetAt\<close> is \<open>None\<close>.\<close>

definition buildResult :: "(real \<Rightarrow> real) \<Rightarrow> TokenBucket \<Rightarrow> bucket option \<Rightarrow> bool \<Rightarrow> int \<Rightarrow> int \<Rightarrow> Result" where
  "buildResult rnd tb ob allowed requestedTokens t3 =
     (case ob of
        None \<Rightarrow> \<lparr>Allowed = False, Remaining = 0, RetryAfter = 0, ResetAt = None\<rparr>
      | Some b \<Rightarrow>
          let duration = (\<lambda>tk. to_int64 (fdiv rnd (fmul rnd tk (Fin 1000000000)) (refillRate rnd tb)))
          in \<lparr>Allowed = allowed, Remaining = to_int64 (tokens b),
              RetryAfter = (if \<not> allowed then duration (fsub rnd (of_int64 rnd requestedTokens) (tokens b)) else 0),
              ResetAt = Some (t3 + duration (fsub rnd (of_int64 rnd (burstSize tb)) (tokens b)))\<rparr>)"

definition AllowWithInfo :: "(real \<Rightarrow> real) \<Rightarrow> TokenBucket \<Rightarrow> string \<Rightarrow> int \<Rightarrow> int \<Rightarrow> int \<Rightarrow> int \<Rightarrow> Result \<times> TokenBucket" where
  "AllowWithInfo rnd tb key n t1 t2 t3 =
     (case buckets tb key of
        None \<Rightarrow>
          let (allowed, tb) =
            (if n \<le> burstSize tb
             then (True, tb\<lparr>buckets := (buckets tb)(key \<mapsto>
                    \<lparr>tokens = of_int64 rnd (wrap64 (burstSize tb - n)), lastRefill = t2\<rparr>)\<rparr>)
             else (False, tb))
          in (buildResult rnd tb (buckets tb key) allowed n t3, tb)
      | Some b \<Rightarrow>
          let b = refill rnd tb b t1 t2;
              (allowed, b) = (if fle (of_int64 rnd n) (tokens b)
                              then (True, b\<lparr>tokens := fsub rnd (tokens b) (of_int64 rnd n)\<rparr>) else (False, b))
          in (buildResult rnd tb (Some b) allowed n t3, tb\<lparr>buckets := (buckets tb)(key \<mapsto> b)\<rparr>))"

section \<open>Calls\<close>

datatype call =
    AllowCall string int int int
  | InfoCall string int int int int
  | ResetCall string

lemma info_agrees:
  "Allowed (fst (AllowWithInfo rnd tb key n t1 t2 t3)) = fst (AllowN rnd tb key n t1 t2)"
  "snd (AllowWithInfo rnd tb key n t1 t2 t3) = snd (AllowN rnd tb key n t1 t2)"
  by (auto simp: AllowWithInfo_def AllowN_def buildResult_def Let_def split: option.splits prod.splits)

fun limiter_step :: "(real \<Rightarrow> real) \<Rightarrow> TokenBucket \<Rightarrow> call \<Rightarrow> bool \<times> TokenBucket" where
  "limiter_step rnd tb (AllowCall key n t1 t2) = AllowN rnd tb key n t1 t2"
| "limiter_step rnd tb (InfoCall key n t1 t2 t3) =
     (case AllowWithInfo rnd tb key n t1 t2 t3 of (r, tb) \<Rightarrow> (Allowed r, tb))"
| "limiter_step rnd tb (ResetCall key) = (False, Reset tb key)"

lemma limiter_step_Info: "limiter_step rnd tb (InfoCall key n t1 t2 t3) = AllowN rnd tb key n t1 t2"
  using info_agrees [of rnd tb key n t1 t2 t3] by (simp add: prod_eq_iff split_beta)

text \<open>The clock never goes back, and no call asks for a negative number of tokens.\<close>

fun timed :: "int \<Rightarrow> call list \<Rightarrow> bool" where
  "timed c [] = True"
| "timed c (AllowCall key n t1 t2 # calls) = (0 \<le> n \<and> c \<le> t1 \<and> t1 \<le> t2 \<and> timed t2 calls)"
| "timed c (InfoCall key n t1 t2 t3 # calls) = (0 \<le> n \<and> c \<le> t1 \<and> t1 \<le> t2 \<and> t2 \<le> t3 \<and> timed t3 calls)"
| "timed c (ResetCall key # calls) = timed c calls"

fun last_clock :: "int \<Rightarrow> call list \<Rightarrow> int" where
  "last_clock c [] = c"
| "last_clock c (AllowCall key n t1 t2 # calls) = last_clock t2 calls"
| "last_clock c (InfoCall key n t1 t2 t3 # calls) = last_clock t3 calls"
| "last_clock c (ResetCall key # calls) = last_clock c calls"

text \<open>No call changes the configuration.\<close>

definition config :: "TokenBucket \<Rightarrow> int \<times> int \<times> int" where
  "config tb = (rate tb, window tb, burstSize tb)"

lemma run_config: "config (snd (run_ops (limiter_step rnd) tb calls)) = config tb"
proof (induction calls arbitrary: tb)
  case (Cons call calls)
  have "config (snd (limiter_step rnd tb call)) = config tb"
    by (cases call) (simp_all add: config_def limiter_step_Info Reset_def AllowN_def Let_def
        del: limiter_step.simps(2) split: option.split)
  with Cons show ?case by (simp add: Let_def split_beta del: limiter_step.simps)
qed simp

section \<open>The tokens stay between zero and the burst size\<close>

text \<open>What is used of the rounding: it is monotone, idempotent, and exact on small integers and one small power of two.\<close>

definition rounding :: "(real \<Rightarrow> real) \<Rightarrow> bool" where
  "rounding rnd \<longleftrightarrow> mono rnd \<and> (\<forall>i. \<bar>i\<bar> \<le> 2 ^ 53 \<longrightarrow> rnd (of_int i) = of_int i) \<and> (\<forall>x. rnd (rnd x) = rnd x) \<and> rnd (1 / 2 ^ 40) = 1 / 2 ^ 40"

lemma rounding_simps:
  assumes "rounding rnd"
  shows "rnd 0 = 0" "rnd 1 = 1" "x \<le> y \<Longrightarrow> rnd x \<le> rnd y" "0 \<le> x \<Longrightarrow> 0 \<le> rnd x" "1 \<le> x \<Longrightarrow> 1 \<le> rnd x"
    "1 / 2 ^ 40 \<le> x \<Longrightarrow> 1 / 2 ^ 40 \<le> rnd x"
proof -
  have m: "x \<le> y \<Longrightarrow> rnd x \<le> rnd y" for x y using assms by (simp add: rounding_def mono_def)
  have e: "rnd (of_int i) = of_int i" if "\<bar>i\<bar> \<le> 2 ^ 53" for i using assms that by (simp add: rounding_def)
  show "rnd 0 = 0" using e [of 0] by simp
  show "rnd 1 = 1" using e [of 1] by simp
  show "x \<le> y \<Longrightarrow> rnd x \<le> rnd y" by (rule m)
  show "0 \<le> x \<Longrightarrow> 0 \<le> rnd x" using m [of 0 x] e [of 0] by simp
  show "1 \<le> x \<Longrightarrow> 1 \<le> rnd x" using m [of 1 x] e [of 1] by simp
  show "1 / 2 ^ 40 \<le> x \<Longrightarrow> 1 / 2 ^ 40 \<le> rnd x" using m [of "1 / 2 ^ 40" x] assms by (simp add: rounding_def)
qed

lemma Seconds_nonneg:
  assumes r: "rounding rnd" and d: "0 \<le> d"
  shows "\<exists>s. Seconds rnd d = Fin s \<and> 0 \<le> s \<and> (0 < d \<longrightarrow> 0 < s)"
proof -
  note r = rounding_simps [OF r]
  define q m where "q = d div 1000000000" and "m = d mod 1000000000"
  have qm: "0 \<le> q" "0 \<le> m" "d = q * 1000000000 + m" using d by (simp_all add: q_def m_def pos_imp_zdiv_nonneg_iff)
  have dm: "go_div d 1000000000 = q" "go_mod d 1000000000 = m" using d by (simp_all add: go_div_nonneg go_mod_nonneg q_def m_def)
  let ?f = "rnd (rnd (of_int m) / 1000000000)"
  have s: "Seconds rnd d = Fin (rnd (rnd (of_int q) + ?f))" by (simp add: Seconds_def of_int64_def dm)
  have f: "0 \<le> ?f" "0 \<le> rnd (of_int q)" using qm by (auto intro!: r(4) divide_nonneg_nonneg)
  have "1 / 2 ^ 40 \<le> rnd (of_int q) + ?f" if "0 < d"
  proof (cases "1 \<le> q")
    case True
    then have "1 \<le> rnd (of_int q)" by (intro r(5)) simp
    then show ?thesis using f by (simp add: field_simps)
  next
    case False
    then have "1 \<le> m" using qm that by auto
    then have "1 \<le> rnd (of_int m)" by (intro r(5)) simp
    then have "1 / 2 ^ 40 \<le> ?f" by (intro r(6)) (simp add: field_simps)
    then show ?thesis using f by simp
  qed
  then have "0 < d \<longrightarrow> 0 < rnd (rnd (of_int q) + ?f)" using r(6) [of "rnd (of_int q) + ?f"] by (auto intro: less_le_trans [rotated])
  then show ?thesis using s f r(4) by simp
qed

definition sane_limiter :: "TokenBucket \<Rightarrow> bool" where
  "sane_limiter tb \<longleftrightarrow> 0 \<le> rate tb \<and> 0 < window tb \<and> 0 \<le> burstSize tb \<and> burstSize tb < 2 ^ 63"

definition bounded :: "(real \<Rightarrow> real) \<Rightarrow> int \<Rightarrow> TokenBucket \<Rightarrow> bool" where
  "bounded rnd c tb \<longleftrightarrow> sane_limiter tb \<and> (\<forall>key b. buckets tb key = Some b \<longrightarrow>
     (\<exists>x. tokens b = Fin x \<and> 0 \<le> x \<and> x \<le> rnd (of_int (burstSize tb))) \<and> lastRefill b \<le> c)"

lemma refill_bounded:
  assumes r: "rounding rnd" and tb: "sane_limiter tb" and b: "tokens b = Fin x" "0 \<le> x" "lastRefill b \<le> t1"
  shows "\<exists>y. tokens (refill rnd tb b t1 t2) = Fin y \<and> 0 \<le> y \<and> y \<le> rnd (of_int (burstSize tb))"
proof -
  obtain w where w: "Seconds rnd (window tb) = Fin w" "0 < w" using Seconds_nonneg [OF r, of "window tb"] tb by (auto simp: sane_limiter_def)
  obtain e where e: "Seconds rnd (time_Since t1 (lastRefill b)) = Fin e" "0 \<le> e"
    using Seconds_nonneg [OF r time_Since_nonneg(1) [OF b(3)]] by blast
  let ?add = "rnd (rnd (rnd (of_int (rate tb)) / w) * e)"
  have "0 \<le> ?add" using w e tb by (auto simp: sane_limiter_def intro!: rounding_simps(4) [OF r] mult_nonneg_nonneg divide_nonneg_nonneg)
  then have "0 \<le> rnd (x + ?add)" using b by (intro rounding_simps(4) [OF r]) simp
  moreover have "0 \<le> rnd (of_int (burstSize tb))" using tb by (intro rounding_simps(4) [OF r]) (simp add: sane_limiter_def)
  moreover have "tokens (refill rnd tb b t1 t2) = fmin (Fin (rnd (x + ?add))) (Fin (rnd (of_int (burstSize tb))))"
    using w e b by (simp add: refill_def refillRate_def of_int64_def Let_def)
  ultimately show ?thesis by (auto simp: fmin_def)
qed

lemma AllowN_bounded:
  assumes r: "rounding rnd" and tb: "bounded rnd c tb" and n: "0 \<le> n" and t: "c \<le> t1" "t1 \<le> t2"
  shows "bounded rnd t2 (snd (AllowN rnd tb key n t1 t2))"
proof -
  have sane: "sane_limiter tb" using tb by (simp add: bounded_def)
  have old: "(\<exists>x. tokens b = Fin x \<and> 0 \<le> x \<and> x \<le> rnd (of_int (burstSize tb))) \<and> lastRefill b \<le> t2" if "buckets tb k = Some b" for k b
    using tb that t by (fastforce simp: bounded_def)
  have upd: "bounded rnd t2 (tb\<lparr>buckets := (buckets tb)(key \<mapsto> b)\<rparr>)"
    if "tokens b = Fin x" "0 \<le> x" "x \<le> rnd (of_int (burstSize tb))" "lastRefill b \<le> t2" for b x
    using that sane old by (auto simp: bounded_def sane_limiter_def)
  show ?thesis
  proof (cases "buckets tb key")
    case None
    show ?thesis
    proof (cases "n \<le> burstSize tb")
      case True
      then have w: "wrap64 (burstSize tb - n) = burstSize tb - n" using sane n by (intro wrap64_id) (auto simp: sane_limiter_def)
      have "0 \<le> rnd (of_int (burstSize tb - n))" "rnd (of_int (burstSize tb - n)) \<le> rnd (of_int (burstSize tb))"
        using True n by (auto intro!: rounding_simps(3,4) [OF r])
      then show ?thesis using None True upd by (simp add: AllowN_def w of_int64_def)
    next
      case False
      then show ?thesis using None sane old by (auto simp: AllowN_def bounded_def)
    qed
  next
    case (Some b)
    obtain x where "tokens b = Fin x" "0 \<le> x" "lastRefill b \<le> c" using tb Some by (auto simp: bounded_def)
    then obtain y where y: "tokens (refill rnd tb b t1 t2) = Fin y" "0 \<le> y" "y \<le> rnd (of_int (burstSize tb))"
      using refill_bounded [OF r sane, of b x t1 t2] t by auto
    have l: "lastRefill (refill rnd tb b t1 t2) = t2" by (simp add: refill_def Let_def)
    show ?thesis
    proof (cases "rnd (of_int n) \<le> y")
      case True
      have "0 \<le> rnd (of_int n)" using n by (intro rounding_simps(4) [OF r]) simp
      moreover from this have "rnd (y - rnd (of_int n)) \<le> rnd (rnd (of_int (burstSize tb)))"
        using y(3) by (intro rounding_simps(3) [OF r]) simp
      moreover have "rnd (rnd (of_int (burstSize tb))) = rnd (of_int (burstSize tb))" using r by (simp add: rounding_def)
      ultimately show ?thesis using Some True y l upd rounding_simps(4) [OF r, of "y - rnd (of_int n)"]
        by (simp add: AllowN_def Let_def fle_def fsub_def of_int64_def)
    next
      case False
      then show ?thesis using Some y l upd by (simp add: AllowN_def Let_def fle_def of_int64_def)
    qed
  qed
qed

lemma run_bounded:
  "rounding rnd \<Longrightarrow> bounded rnd c tb \<Longrightarrow> timed c calls \<Longrightarrow>
   bounded rnd (last_clock c calls) (snd (run_ops (limiter_step rnd) tb calls))"
proof (induction calls arbitrary: c tb)
  case (Cons call calls)
  have mono: "bounded rnd t tb \<Longrightarrow> t \<le> t' \<Longrightarrow> bounded rnd t' tb" for t t' tb by (fastforce simp: bounded_def)
  show ?case
  proof (cases call)
    case (AllowCall key n t1 t2)
    then show ?thesis using Cons AllowN_bounded [of rnd c tb n t1 t2 key] by (simp add: Let_def split_beta)
  next
    case (InfoCall key n t1 t2 t3)
    then have "bounded rnd t3 (snd (limiter_step rnd tb call))"
      using Cons.prems AllowN_bounded [of rnd c tb n t1 t2 key] mono [of t2 _ t3]
      by (simp add: limiter_step_Info del: limiter_step.simps(2))
    then show ?thesis using Cons.IH [of t3] Cons.prems InfoCall by (simp add: Let_def split_beta del: limiter_step.simps(2))
  next
    case (ResetCall key)
    have "bounded rnd c (Reset tb key)" using Cons.prems(2) by (auto simp: bounded_def Reset_def sane_limiter_def)
    then show ?thesis using Cons ResetCall by (simp add: Let_def split_beta)
  qed
qed simp

text \<open>
  C17: for a rate that is not negative, a positive window, calls that ask for no negative number and a clock
  that does not go back, the tokens of every bucket are a number between zero and the burst size, whatever
  calls of \<open>Allow\<close>, \<open>AllowN\<close>, \<open>AllowWithInfo\<close> and \<open>Reset\<close> were made and for every \<open>rounding\<close> of the results. A
  negative request breaks the upper bound, see \<open>negative_request_overfills\<close> below.
\<close>

theorem tokens_in_bounds:
  assumes "rounding rnd" and "0 \<le> r" "0 < w" "0 \<le> burst" "burst < 2 ^ 63" "r < 2 ^ 63" and "timed c calls"
    and "buckets (snd (run_ops (limiter_step rnd) (NewTokenBucket r w burst) calls)) key = Some b"
  shows "\<exists>x. tokens b = Fin x \<and> 0 \<le> x \<and> x \<le> rnd (of_int (if burst = 0 then r else burst))"
proof -
  have size: "burstSize (snd (run_ops (limiter_step rnd) tb cs)) = burstSize tb" for tb cs
    using run_config [of rnd tb cs] by (simp add: config_def)
  have "bounded rnd c (NewTokenBucket r w burst)" using assms by (simp add: bounded_def sane_limiter_def NewTokenBucket_def)
  from run_bounded [OF assms(1) this assms(7)] assms(8) show ?thesis
    by (auto simp: bounded_def size) (auto simp: NewTokenBucket_def)
qed

lemma rounding_exact: "rounding (\<lambda>x. x)"
  by (simp add: rounding_def mono_def)

theorem tokens_in_bounds_witness:
  "\<exists>b x. buckets (snd (run_ops (limiter_step (\<lambda>x. x)) (NewTokenBucket 10 1000000000 5) [AllowCall ''a'' 3 7 7])) ''a'' = Some b \<and>
    tokens b = Fin x \<and> 0 \<le> x \<and> x \<le> 5"
proof -
  let ?b = "\<lparr>tokens = Fin 2, lastRefill = 7\<rparr>"
  have b: "buckets (snd (run_ops (limiter_step (\<lambda>x. x)) (NewTokenBucket 10 1000000000 5) [AllowCall ''a'' 3 7 7])) ''a'' = Some ?b"
    by (simp add: AllowN_def NewTokenBucket_def of_int64_def)
  have "\<exists>x. tokens ?b = Fin x \<and> 0 \<le> x \<and> x \<le> (\<lambda>x. x) (of_int (if 5 = (0 :: int) then 10 else 5))"
    by (rule tokens_in_bounds [OF rounding_exact _ _ _ _ _ _ b, where c = 0]) simp_all
  then show ?thesis using b by auto
qed

section \<open>No more is granted than the rate allows\<close>

fun granted :: "string \<Rightarrow> call list \<Rightarrow> bool list \<Rightarrow> int" where
  "granted key (AllowCall k n t1 t2 # calls) (a # as) = (if k = key \<and> a then n else 0) + granted key calls as"
| "granted key (InfoCall k n t1 t2 t3 # calls) (a # as) = (if k = key \<and> a then n else 0) + granted key calls as"
| "granted key (ResetCall k # calls) (a # as) = granted key calls as"
| "granted key _ _ = 0"

text \<open>An upper bound of what a bucket can give at time \<open>c\<close>, with exact arithmetic.\<close>

definition available :: "TokenBucket \<Rightarrow> string \<Rightarrow> int \<Rightarrow> real" where
  "available tb key c =
     (case buckets tb key of None \<Rightarrow> of_int (burstSize tb)
      | Some b \<Rightarrow> (case tokens b of Fin x \<Rightarrow> x | _ \<Rightarrow> 0) + of_int (rate tb) * of_int (c - lastRefill b) / of_int (window tb))"

lemma Seconds_exact: "0 \<le> d \<Longrightarrow> Seconds (\<lambda>x. x) d = Fin (of_int d / 1000000000)"
proof -
  assume d: "0 \<le> d"
  have "real_of_int d = of_int (d div 1000000000 * 1000000000 + d mod 1000000000)" by simp
  then have "real_of_int (d div 1000000000) + of_int (d mod 1000000000) / 1000000000 = of_int d / 1000000000"
    by (simp only: of_int_add of_int_mult) (simp add: field_simps)
  then show ?thesis using d by (simp add: Seconds_def of_int64_def go_div_nonneg go_mod_nonneg)
qed

lemma refill_tokens:
  assumes tb: "sane_limiter tb" and b: "tokens b = Fin x" "lastRefill b \<le> t1"
  shows "tokens (refill (\<lambda>x. x) tb b t1 t2) =
    fmin (Fin (x + of_int (rate tb) * of_int (time_Since t1 (lastRefill b)) / of_int (window tb))) (Fin (of_int (burstSize tb)))"
proof -
  let ?e = "time_Since t1 (lastRefill b)" and ?R = "real_of_int (rate tb) / (of_int (window tb) / 1000000000)"
  have e: "Seconds (\<lambda>x. x) ?e = Fin (of_int ?e / 1000000000)" using Seconds_exact time_Since_nonneg b(2) by auto
  have w: "Seconds (\<lambda>x. x) (window tb) = Fin (of_int (window tb) / 1000000000)" "0 < window tb"
    using Seconds_exact tb by (auto simp: sane_limiter_def)
  have "?R * (of_int ?e / 1000000000) = of_int (rate tb) * of_int ?e / of_int (window tb)" using w(2) by (simp add: field_simps)
  then show ?thesis using w b(1) by (simp add: refill_def refillRate_def of_int64_def Let_def e)
qed

lemma refill_exact:
  assumes tb: "sane_limiter tb" and b: "tokens b = Fin x" "lastRefill b \<le> t1"
  shows "\<exists>y. tokens (refill (\<lambda>x. x) tb b t1 t2) = Fin y \<and>
    y \<le> x + of_int (rate tb) * of_int (t1 - lastRefill b) / of_int (window tb)"
proof -
  have "real_of_int (rate tb) * of_int (time_Since t1 (lastRefill b)) / of_int (window tb)
      \<le> of_int (rate tb) * of_int (t1 - lastRefill b) / of_int (window tb)"
    using time_Since_nonneg(2) [OF b(2)] tb
    by (intro divide_right_mono mult_left_mono) (auto simp: sane_limiter_def simp del: of_int_diff)
  then show ?thesis unfolding refill_tokens [OF assms] by (auto simp: fmin_def simp del: of_int_diff)
qed

lemma available_nonneg:
  assumes "bounded (\<lambda>x. x) c tb"
  shows "0 \<le> available tb key c"
proof (cases "buckets tb key")
  case None
  then show ?thesis using assms by (simp add: available_def bounded_def sane_limiter_def)
next
  case (Some b)
  then obtain x where "tokens b = Fin x" "0 \<le> x" "lastRefill b \<le> c" using assms by (auto simp: bounded_def)
  moreover have "0 \<le> rate tb" "0 < window tb" using assms by (auto simp: bounded_def sane_limiter_def)
  ultimately show ?thesis using Some by (simp add: available_def)
qed

lemma available_later:
  assumes "0 \<le> rate tb" "0 < window tb" "c \<le> c'"
  shows "available tb key c' \<le> available tb key c + of_int (rate tb) * of_int (c' - c) / of_int (window tb)"
proof (cases "buckets tb key")
  case None
  then show ?thesis using assms by (simp add: available_def)
next
  case (Some b)
  let ?l = "lastRefill b"
  have "real_of_int (rate tb) * of_int (c' - ?l) / of_int (window tb) =
    of_int (rate tb) * of_int (c - ?l) / of_int (window tb) + of_int (rate tb) * of_int (c' - c) / of_int (window tb)"
    by (simp add: algebra_simps flip: add_divide_distrib)
  then show ?thesis using Some by (simp add: available_def del: of_int_diff)
qed

lemma AllowN_available:
  assumes tb: "bounded (\<lambda>x. x) c tb" and n: "0 \<le> n" and t: "c \<le> t1" "t1 \<le> t2"
  shows "of_int (if k = key \<and> fst (AllowN (\<lambda>x. x) tb k n t1 t2) then n else 0) + available (snd (AllowN (\<lambda>x. x) tb k n t1 t2)) key t2
    \<le> available tb key c + of_int (rate tb) * of_int (t2 - c) / of_int (window tb)"
proof -
  have sane: "0 \<le> rate tb" "0 < window tb" "burstSize tb < 2 ^ 63" "sane_limiter tb" using tb by (auto simp: bounded_def sane_limiter_def)
  let ?R = "\<lambda>d. real_of_int (rate tb) * of_int d / of_int (window tb)"
  have R: "0 \<le> ?R d" if "0 \<le> d" for d using sane(1,2) that by simp
  have add: "?R (x + y) = ?R x + ?R y" for x y by (simp add: distrib_left add_divide_distrib)
  show ?thesis
  proof (cases "k = key")
    case False
    have same: "buckets (snd (AllowN (\<lambda>x. x) tb k n t1 t2)) key = buckets tb key" "rate (snd (AllowN (\<lambda>x. x) tb k n t1 t2)) = rate tb"
      "window (snd (AllowN (\<lambda>x. x) tb k n t1 t2)) = window tb" "burstSize (snd (AllowN (\<lambda>x. x) tb k n t1 t2)) = burstSize tb"
      using False by (auto simp: AllowN_def Let_def split: option.split)
    have "available (snd (AllowN (\<lambda>x. x) tb k n t1 t2)) key t2 = available tb key t2"
      unfolding available_def same ..
    then show ?thesis using available_later [of tb c t2 key] sane t False by simp
  next
    case True
    show ?thesis
    proof (cases "buckets tb key")
      case None
      have "n \<le> burstSize tb \<Longrightarrow> wrap64 (burstSize tb - n) = burstSize tb - n" using n sane(3) by (intro wrap64_id) auto
      then show ?thesis using True None R [of "t2 - c"] t by (auto simp: AllowN_def available_def of_int64_def)
    next
      case (Some b)
      obtain x where x: "tokens b = Fin x" "lastRefill b \<le> c" using tb Some by (auto simp: bounded_def)
      then obtain y where y: "tokens (refill (\<lambda>x. x) tb b t1 t2) = Fin y" "y \<le> x + ?R (t1 - lastRefill b)"
        using refill_exact [OF sane(4), of b x t1 t2] t by auto
      have l: "lastRefill (refill (\<lambda>x. x) tb b t1 t2) = t2" by (simp add: refill_def Let_def)
      have "?R (t1 - lastRefill b) + ?R (t2 - t1) = ?R (c - lastRefill b) + ?R (t2 - c)"
        using add [of "t1 - lastRefill b" "t2 - t1"] add [of "c - lastRefill b" "t2 - c"] by simp
      then have "y \<le> x + ?R (c - lastRefill b) + ?R (t2 - c)" using y(2) R [of "t2 - t1"] t by simp
      then show ?thesis using True Some x(1) y(1) l
        by (auto simp: AllowN_def available_def Let_def fle_def fsub_def of_int64_def simp del: of_int_diff)
    qed
  qed
qed

lemma AllowN_config:
  "rate (snd (AllowN rnd tb k n t1 t2)) = rate tb" "window (snd (AllowN rnd tb k n t1 t2)) = window tb"
  by (simp_all add: AllowN_def Let_def split: option.split)

text \<open>
  One call: what it grants for the key and what is left afterwards come out of what was left before and
  what the elapsed time has refilled.
\<close>

lemma step_available:
  assumes tb: "bounded (\<lambda>x. x) c tb" and timed: "timed c (call # calls)" and key: "call \<noteq> ResetCall key"
  obtains t g where "timed t calls" "bounded (\<lambda>x. x) t (snd (limiter_step (\<lambda>x. x) tb call))"
    "last_clock c (call # calls) = last_clock t calls"
    "\<And>as. granted key (call # calls) (fst (limiter_step (\<lambda>x. x) tb call) # as) = g + granted key calls as"
    "of_int g + available (snd (limiter_step (\<lambda>x. x) tb call)) key t \<le>
      available tb key c + of_int (rate tb) * of_int (t - c) / of_int (window tb)"
    "rate (snd (limiter_step (\<lambda>x. x) tb call)) = rate tb" "window (snd (limiter_step (\<lambda>x. x) tb call)) = window tb"
proof (cases call)
  case (AllowCall k n t1 t2)
  let ?g = "if k = key \<and> fst (AllowN (\<lambda>x. x) tb k n t1 t2) then n else 0"
  show thesis
    by (rule that [of t2 ?g])
      (use timed AllowN_available [OF tb, of n t1 t2 k key] AllowN_bounded [OF rounding_exact tb, of n t1 t2 k] in
        \<open>simp_all add: AllowCall AllowN_config del: of_int_diff\<close>)
next
  case (InfoCall k n t1 t2 t3)
  let ?R = "\<lambda>d. real_of_int (rate tb) * of_int d / of_int (window tb)"
  let ?g = "if k = key \<and> fst (AllowN (\<lambda>x. x) tb k n t1 t2) then n else 0" and ?tb = "snd (AllowN (\<lambda>x. x) tb k n t1 t2)"
  have ok: "0 \<le> n" "c \<le> t1" "t1 \<le> t2" "t2 \<le> t3" "timed t3 calls" using timed InfoCall by auto
  have b: "bounded (\<lambda>x. x) t2 ?tb" by (rule AllowN_bounded [OF rounding_exact tb ok(1-3)])
  then have b3: "bounded (\<lambda>x. x) t3 ?tb" using ok(4) by (fastforce simp: bounded_def)
  have "0 \<le> rate tb" "0 < window tb" using tb by (auto simp: bounded_def sane_limiter_def)
  then have "available ?tb key t3 \<le> available ?tb key t2 + ?R (t3 - t2)"
    using available_later [of ?tb t2 t3 key] ok(4) by (simp add: AllowN_config)
  moreover have "?R (t2 - c) + ?R (t3 - t2) = ?R (t3 - c)"
    by (simp add: diff_divide_distrib right_diff_distrib)
  ultimately have "of_int ?g + available ?tb key t3 \<le> available tb key c + ?R (t3 - c)"
    using AllowN_available [OF tb ok(1-3), of k key] by linarith
  then show thesis
    by (intro that [of t3 ?g])
      (use b3 ok in \<open>simp_all add: InfoCall limiter_step_Info AllowN_config del: of_int_diff limiter_step.simps(2)\<close>)
next
  case (ResetCall k)
  have "bounded (\<lambda>x. x) c (Reset tb k)" using tb by (auto simp: bounded_def Reset_def sane_limiter_def)
  then show thesis
    by (intro that [of c 0])
      (use timed key ResetCall in \<open>simp_all add: Reset_def available_def split: option.split\<close>)
qed

lemma run_available:
  "bounded (\<lambda>x. x) c tb \<Longrightarrow> timed c calls \<Longrightarrow> ResetCall key \<notin> set calls \<Longrightarrow>
   of_int (granted key calls (fst (run_ops (limiter_step (\<lambda>x. x)) tb calls))) +
     available (snd (run_ops (limiter_step (\<lambda>x. x)) tb calls)) key (last_clock c calls)
   \<le> available tb key c + of_int (rate tb) * of_int (last_clock c calls - c) / of_int (window tb)"
proof (induction calls arbitrary: c tb)
  case (Cons call calls)
  let ?step = "limiter_step (\<lambda>x. x) tb call" and ?R = "\<lambda>d. real_of_int (rate tb) * of_int d / of_int (window tb)"
  have "call \<noteq> ResetCall key" using Cons.prems(3) by auto
  then obtain t3 g where step: "timed t3 calls" "bounded (\<lambda>x. x) t3 (snd ?step)" "last_clock c (call # calls) = last_clock t3 calls"
    "\<And>as. granted key (call # calls) (fst ?step # as) = g + granted key calls as"
    "of_int g + available (snd ?step) key t3 \<le> available tb key c + ?R (t3 - c)"
    "rate (snd ?step) = rate tb" "window (snd ?step) = window tb"
    by (rule step_available [OF Cons.prems(1,2)]) (rule that; assumption)
  have "of_int (granted key calls (fst (run_ops (limiter_step (\<lambda>x. x)) (snd ?step) calls))) +
     available (snd (run_ops (limiter_step (\<lambda>x. x)) (snd ?step) calls)) key (last_clock t3 calls)
   \<le> available (snd ?step) key t3 + ?R (last_clock t3 calls - t3)"
    using Cons.IH [OF step(2,1)] Cons.prems(3) step(6,7) by simp
  moreover have "?R (t3 - c) + ?R (last_clock t3 calls - t3) = ?R (last_clock t3 calls - c)"
    by (simp add: diff_divide_distrib right_diff_distrib)
  ultimately show ?case using step(3,4,5) by (simp add: Let_def split_beta del: of_int_diff)
qed simp

text \<open>
  C18: computed without rounding, the requests granted to a key that is not reset sum up to the burst size and
  what the rate gives for the time from the first to the last reading of the clock, at the most.
\<close>

theorem grants_keep_rate:
  assumes "0 \<le> r" "0 < w" "0 \<le> burst" "burst < 2 ^ 63" "r < 2 ^ 63" and "timed c calls" and "ResetCall key \<notin> set calls"
  shows "of_int (granted key calls (fst (run_ops (limiter_step (\<lambda>x. x)) (NewTokenBucket r w burst) calls)))
    \<le> (of_int (if burst = 0 then r else burst) + of_int r * of_int (last_clock c calls - c) / of_int w :: real)"
proof -
  let ?tb = "NewTokenBucket r w burst" and ?fin = "snd (run_ops (limiter_step (\<lambda>x. x)) (NewTokenBucket r w burst) calls)"
  have b: "bounded (\<lambda>x. x) c ?tb" using assms by (simp add: bounded_def sane_limiter_def NewTokenBucket_def)
  have "bounded (\<lambda>x. x) (last_clock c calls) ?fin" by (rule run_bounded [OF rounding_exact b assms(6)])
  then have "0 \<le> available ?fin key (last_clock c calls)" by (rule available_nonneg)
  moreover have "available ?tb key c = of_int (if burst = 0 then r else burst)" "rate ?tb = r" "window ?tb = w"
    by (simp_all add: available_def NewTokenBucket_def)
  ultimately show ?thesis using run_available [OF b assms(6,7)] by simp
qed

theorem grants_keep_rate_witness:
  "of_int (granted ''a'' [AllowCall ''a'' 3 7 7, AllowCall ''a'' 4 8 8]
      (fst (run_ops (limiter_step (\<lambda>x. x)) (NewTokenBucket 10 1000000000 5) [AllowCall ''a'' 3 7 7, AllowCall ''a'' 4 8 8])))
    \<le> (of_int (if 5 = (0::int) then 10 else 5) + of_int 10 * of_int (last_clock 7 [AllowCall ''a'' 3 7 7, AllowCall ''a'' 4 8 8] - 7) / of_int 1000000000 :: real)"
  by (rule grants_keep_rate) simp_all

text \<open>A negative number of tokens is granted and fills the bucket above the burst size.\<close>

lemma negative_request_overfills:
  "AllowN (\<lambda>x. x) (NewTokenBucket 10 1000000000 5) key (- 100) 7 7 =
    (True, (NewTokenBucket 10 1000000000 5)\<lparr>buckets := [key \<mapsto> \<lparr>tokens = Fin 105, lastRefill = 7\<rparr>]\<rparr>)"
  by (simp add: AllowN_def NewTokenBucket_def of_int64_def)

end
