(* ===== verification/TokenRetry.thy ===== *)
theory TokenRetry
  imports TokenLimiter
begin

text \<open>
  What \<open>AllowWithInfo\<close> of \<open>src/rate-limiting/token-bucket/tokenbucket.go\<close> tells a caller that is denied: when to
  try again. The arithmetic is exact here.
\<close>

text \<open>A bucket with too few tokens: the wait is the time in which the rate gives the missing ones, truncated.\<close>

definition wait :: "TokenBucket \<Rightarrow> int \<Rightarrow> real \<Rightarrow> real" where
  "wait tb n y = (of_int n - y) * of_int (window tb) / of_int (rate tb)"

lemma RetryAfter_wait:
  assumes tb: "sane_limiter tb" "0 < rate tb" and b: "tokens b = Fin y" "0 \<le> y" "y < of_int n" and n: "n * window tb \<le> rate tb * 2 ^ 62"
  shows "RetryAfter (buildResult (\<lambda>x. x) tb (Some b) False n t3) = \<lfloor>wait tb n y\<rfloor>" "0 < wait tb n y" "wait tb n y \<le> 2 ^ 62"
proof -
  have w: "Seconds (\<lambda>x. x) (window tb) = Fin (of_int (window tb) / 1000000000)" "0 < window tb"
    using Seconds_exact tb by (auto simp: sane_limiter_def)
  have eq: "(of_int n - y) * 1000000000 / (of_int (rate tb) / (of_int (window tb) / 1000000000)) = wait tb n y"
    using w(2) tb(2) by (simp add: wait_def field_simps)
  show pos: "0 < wait tb n y" using b w(2) tb(2) by (simp add: wait_def)
  have "(of_int n - y) * of_int (window tb) \<le> of_int n * of_int (window tb)" using b(2) w(2) by (intro mult_right_mono) simp_all
  also have "\<dots> \<le> of_int (rate tb) * 2 ^ 62" using n by (metis of_int_le_iff of_int_mult of_int_numeral of_int_power)
  finally show le: "wait tb n y \<le> 2 ^ 62" using tb(2) by (simp add: wait_def pos_divide_le_eq mult.commute)
  have "0 \<le> \<lfloor>wait tb n y\<rfloor>" "\<lfloor>wait tb n y\<rfloor> < 2 ^ 63" using pos le by (simp_all add: floor_less_iff)
  then have "to_int64 (Fin (wait tb n y)) = \<lfloor>wait tb n y\<rfloor>" using pos by simp
  then show "RetryAfter (buildResult (\<lambda>x. x) tb (Some b) False n t3) = \<lfloor>wait tb n y\<rfloor>"
    using w b(1) tb(2) eq by (simp add: buildResult_def refillRate_def of_int64_def fsub_def Let_def del: to_int64.simps)
qed

lemma granted_after_wait:
  assumes tb: "sane_limiter tb" "0 < rate tb" and b: "buckets tb key = Some b" "tokens b = Fin y" "lastRefill b \<le> t4"
    and n: "n \<le> burstSize tb"
  shows "fst (AllowN (\<lambda>x. x) tb key n t4 t5) \<longleftrightarrow> wait tb n y \<le> of_int (time_Since t4 (lastRefill b))"
proof -
  let ?e = "time_Since t4 (lastRefill b)"
  have w: "0 < window tb" using tb by (simp add: sane_limiter_def)
  have "fst (AllowN (\<lambda>x. x) tb key n t4 t5) \<longleftrightarrow> of_int n \<le> y + of_int (rate tb) * of_int ?e / of_int (window tb)"
    using b n refill_tokens [OF tb(1) b(2,3), of t5] by (auto simp: AllowN_def Let_def fle_def fmin_def of_int64_def)
  also have "\<dots> \<longleftrightarrow> wait tb n y \<le> of_int ?e" using w tb(2) by (simp add: wait_def field_simps)
  finally show ?thesis .
qed

text \<open>
  C22: with exact arithmetic in place of \<open>float64\<close>, and when the wait for \<open>n\<close> tokens is at most \<open>2^62\<close> nanoseconds,
  the \<open>RetryAfter\<close> of a denied request that asks for no more than the burst size is right to the nanosecond,
  after any calls: before it has passed since the denial the same request is denied again, and any time
  later it is granted, if nobody else takes tokens of the key.
\<close>

theorem retry_after_suffices:
  assumes "0 < r" "0 < w" "0 \<le> burst" "burst < 2 ^ 63" "r < 2 ^ 63" and "timed c calls"
    and tb: "tb = snd (run_ops (limiter_step (\<lambda>x. x)) (NewTokenBucket r w burst) calls)"
    and n: "0 \<le> n" "n \<le> burstSize tb" "n * w \<le> r * 2 ^ 62" and t: "last_clock c calls \<le> t1" "t1 \<le> t2" "t2 \<le> t4"
    and denied: "AllowWithInfo (\<lambda>x. x) tb key n t1 t2 t3 = (res, tb')" "\<not> Allowed res"
  shows "(t4 < t2 + RetryAfter res \<longrightarrow> \<not> fst (AllowN (\<lambda>x. x) tb' key n t4 t5)) \<and>
    (t2 + RetryAfter res < t4 \<longrightarrow> fst (AllowN (\<lambda>x. x) tb' key n t4 t5))"
proof -
  have "bounded (\<lambda>x. x) c (NewTokenBucket r w burst)" using assms(1-5) by (simp add: bounded_def sane_limiter_def NewTokenBucket_def)
  then have bd: "bounded (\<lambda>x. x) (last_clock c calls) tb" unfolding tb by (intro run_bounded assms rounding_exact)
  then have sane: "sane_limiter tb" by (simp add: bounded_def)
  have cfg: "rate tb = r" "window tb = w"
    using run_config [of "\<lambda>x. x" "NewTokenBucket r w burst" calls] by (simp_all add: tb config_def NewTokenBucket_def)
  obtain b where b: "buckets tb key = Some b"
    using denied n(2) by (cases "buckets tb key") (auto simp: AllowWithInfo_def buildResult_def)
  then obtain x where x: "tokens b = Fin x" "0 \<le> x" "lastRefill b \<le> t1" using bd t(1) by (fastforce simp: bounded_def)
  obtain y where y: "tokens (refill (\<lambda>x. x) tb b t1 t2) = Fin y" "0 \<le> y"
    using refill_bounded [OF rounding_exact sane x] by blast
  let ?b = "refill (\<lambda>x. x) tb b t1 t2"
  have no: "\<not> of_int n \<le> y" and res: "res = buildResult (\<lambda>x. x) tb (Some ?b) False n t3" and tb': "tb' = tb\<lparr>buckets := (buckets tb)(key \<mapsto> ?b)\<rparr>"
    using denied b y(1) by (auto simp: AllowWithInfo_def Let_def fle_def of_int64_def buildResult_def split: if_splits)
  have sane': "sane_limiter tb'" "0 < rate tb'" "wait tb' n y = wait tb n y" using sane assms(1) cfg by (auto simp: tb' sane_limiter_def wait_def)
  note retry = RetryAfter_wait [OF sane _ y(1,2), of n, folded res]
  have R: "RetryAfter res = \<lfloor>wait tb n y\<rfloor>" "wait tb n y \<le> 2 ^ 62" "0 < wait tb n y"
    using retry no n(3) assms(1) cfg by (auto simp: res)
  have iff: "fst (AllowN (\<lambda>x. x) tb' key n t4 t5) \<longleftrightarrow> wait tb n y \<le> of_int (time_Since t4 t2)"
    using granted_after_wait [OF sane'(1,2), of key ?b y t4 n t5] y n(2) t(3) sane'(3) by (simp add: tb' refill_def Let_def)
  have since: "time_Since t4 t2 = min (2 ^ 63 - 1) (t4 - t2)" using t(3) by (simp add: time_Since_def MaxInt64_def)
  show ?thesis unfolding iff since R(1) using R(2,3) by (auto simp: min_def) linarith+
qed

theorem retry_after_suffices_witness:
  "\<not> fst (AllowN (\<lambda>x. x) (snd (AllowWithInfo (\<lambda>x. x) (snd (AllowN (\<lambda>x. x) (NewTokenBucket 10 1000000000 5) ''a'' 5 7 7)) ''a'' 1 8 8 8)) ''a'' 1 100000006 100000006) \<and>
   fst (AllowN (\<lambda>x. x) (snd (AllowWithInfo (\<lambda>x. x) (snd (AllowN (\<lambda>x. x) (NewTokenBucket 10 1000000000 5) ''a'' 5 7 7)) ''a'' 1 8 8 8)) ''a'' 1 100000008 100000008)"
proof -
  let ?tb = "snd (AllowN (\<lambda>x. x) (NewTokenBucket 10 1000000000 5) ''a'' 5 7 7)"
  let ?call = "AllowWithInfo (\<lambda>x. x) ?tb ''a'' 1 8 8 8"
  have tb: "?tb = (NewTokenBucket 10 1000000000 5)\<lparr>buckets := [''a'' \<mapsto> \<lparr>tokens = Fin 0, lastRefill = 7\<rparr>]\<rparr>"
    by (simp add: AllowN_def NewTokenBucket_def of_int64_def)
  have run: "?tb = snd (run_ops (limiter_step (\<lambda>x. x)) (NewTokenBucket 10 1000000000 5) [AllowCall ''a'' 5 7 7])"
    by (simp add: Let_def split_beta)
  have ans: "RetryAfter (fst ?call) = 99999999" "\<not> Allowed (fst ?call)"
    unfolding tb by (simp_all add: AllowWithInfo_def NewTokenBucket_def refill_def refillRate_def Seconds_def of_int64_def
        time_Since_def MaxInt64_def go_div_nonneg go_mod_nonneg fmin_def fle_def fsub_def buildResult_def Let_def)
  have "(t4 < 8 + RetryAfter (fst ?call) \<longrightarrow> \<not> fst (AllowN (\<lambda>x. x) (snd ?call) ''a'' 1 t4 t4)) \<and>
      (8 + RetryAfter (fst ?call) < t4 \<longrightarrow> fst (AllowN (\<lambda>x. x) (snd ?call) ''a'' 1 t4 t4))" if "8 \<le> t4" for t4
    by (rule retry_after_suffices [OF _ _ _ _ _ _ run, where c = 0 and ?t1.0 = 8 and ?t3.0 = 8 and res = "fst ?call"])
      (use that ans tb in \<open>simp_all add: NewTokenBucket_def\<close>)
  from this [of 100000006] this [of 100000008] show ?thesis unfolding ans(1) by simp
qed

text \<open>
  When the wait is no whole number of nanoseconds, the truncated \<open>RetryAfter\<close> is too short: a caller that
  retries exactly then is denied.
\<close>

lemma retry_after_truncates:
  "let tb = snd (AllowN (\<lambda>x. x) (NewTokenBucket 3 1000000000 1) ''a'' 1 0 0);
       (res, tb') = AllowWithInfo (\<lambda>x. x) tb ''a'' 1 0 0 0
   in RetryAfter res = 333333333 \<and> \<not> fst (AllowN (\<lambda>x. x) tb' ''a'' 1 333333333 333333333)"
  by (simp add: AllowN_def AllowWithInfo_def NewTokenBucket_def refill_def refillRate_def Seconds_def of_int64_def
      time_Since_def MaxInt64_def go_div_nonneg go_mod_nonneg fmin_def fle_def fsub_def buildResult_def Let_def)

text \<open>
  A request for more than the burst size is never granted, but \<open>RetryAfter\<close> is finite, and 0 when the key has no
  bucket yet.
\<close>

lemma oversize_never_granted:
  assumes "bounded (\<lambda>x. x) c tb" and "c \<le> t1" and "burstSize tb < n"
  shows "\<not> fst (AllowN (\<lambda>x. x) tb key n t1 t2)"
proof (cases "buckets tb key")
  case None
  then show ?thesis using assms(3) by (simp add: AllowN_def)
next
  case (Some b)
  have sane: "sane_limiter tb" using assms(1) by (simp add: bounded_def)
  obtain x where x: "tokens b = Fin x" "0 \<le> x" "lastRefill b \<le> t1" using assms(1,2) Some by (fastforce simp: bounded_def)
  obtain y where "tokens (refill (\<lambda>x. x) tb b t1 t2) = Fin y" "y \<le> of_int (burstSize tb)"
    using refill_bounded [OF rounding_exact sane x] by blast
  then show ?thesis using Some assms(3) by (simp add: AllowN_def Let_def fle_def of_int64_def)
qed

end
