(* ===== verification/LimiterExamples.thy ===== *)
theory LimiterExamples
  imports TokenRetry GoFormat
begin

text \<open>
  The program \<open>examples/main.go\<close>: four demonstrations of the rate limiter. A demonstration gives what it prints.
  The clock is an argument: \<open>clk i j\<close> is the \<open>j\<close>-th reading in call \<open>i\<close> of the limiter, the calls of a
  demonstration being numbered from 1. Durations and times are printed by functions in a record.
\<close>

section \<open>The demonstrations\<close>

type_synonym clock = "nat \<Rightarrow> nat \<Rightarrow> int"

definition tick :: string where
  "tick = [CHR 0xE2, CHR 0x9C, CHR 0x93]"

definition cross :: string where
  "cross = [CHR 0xE2, CHR 0x9C, CHR 0x97]"

definition pad2 :: "string \<Rightarrow> string" where
  "pad2 s = replicate (2 - length s) (CHR '' '') @ s"

definition request_line :: "nat \<Rightarrow> bool \<Rightarrow> string" where
  "request_line i allowed =
     line (''Request '' @ pad2 (show_nat i) @ '': '' @ (if allowed then tick @ '' ALLOWED'' else cross @ '' RATE LIMITED''))"

fun requests :: "(real \<Rightarrow> real) \<Rightarrow> clock \<Rightarrow> string \<Rightarrow> TokenBucket \<Rightarrow> nat list \<Rightarrow> string \<times> TokenBucket" where
  "requests rnd clk key limiter [] = ([], limiter)"
| "requests rnd clk key limiter (i # is) =
     (let (allowed, limiter) = Allow rnd limiter key (clk i 0) (clk i 1);
          (out, limiter) = requests rnd clk key limiter is
      in (request_line i allowed @ out, limiter))"

definition tokenBucketBasic :: "(real \<Rightarrow> real) \<Rightarrow> clock \<Rightarrow> string" where
  "tokenBucketBasic rnd clk =
     (let limiter = NewTokenBucket 10 1000000000 0;
          key = ''user:alice'';
          (out1, limiter) = requests rnd clk key limiter [1..<13];
          (out2, limiter) = requests rnd clk key limiter [13..<17]
      in out1 @ line (newline # ''Waiting 500ms (should refill ~5 tokens)...'') @ out2)"

definition tokenBucketBurst :: "(real \<Rightarrow> real) \<Rightarrow> clock \<Rightarrow> string" where
  "tokenBucketBurst rnd clk =
     (let limiter = NewTokenBucket 5 1000000000 10;
          key = ''user:bob'';
          (out, limiter) = requests rnd clk key limiter [1..<13]
      in line ''Initial burst of 10 requests:'' @ out)"

record formats =
  until_ms :: "int option \<Rightarrow> int \<Rightarrow> string"
  duration :: "int \<Rightarrow> string"
  duration_ms :: "int \<Rightarrow> string"
  wall_clock :: "int option \<Rightarrow> string"

definition info_lines :: "formats \<Rightarrow> nat \<Rightarrow> Result \<Rightarrow> int \<Rightarrow> string" where
  "info_lines fmt i result t =
     line (''Request '' @ show_nat i @ '':'') @
     line (''  Allowed: '' @ show_bool (Allowed result)) @
     line (''  Remaining: '' @ show_int (Remaining result) @ '' tokens'') @
     line (''  Reset in: '' @ until_ms fmt (ResetAt result) t) @
     (if \<not> Allowed result then line (''  Retry after: '' @ duration fmt (RetryAfter result)) else []) @
     line []"

fun infos :: "(real \<Rightarrow> real) \<Rightarrow> formats \<Rightarrow> clock \<Rightarrow> string \<Rightarrow> TokenBucket \<Rightarrow> nat list \<Rightarrow> string \<times> TokenBucket" where
  "infos rnd fmt clk key limiter [] = ([], limiter)"
| "infos rnd fmt clk key limiter (i # is) =
     (let (result, limiter) = AllowWithInfo rnd limiter key 1 (clk i 0) (clk i 1) (clk i 2);
          (out, limiter) = infos rnd fmt clk key limiter is
      in (info_lines fmt i result (clk i 3) @ out, limiter))"

text \<open>The loop that drains the bucket ends only if tokens are taken out faster than they come in.\<close>

partial_function (option) drain_bucket ::
    "(real \<Rightarrow> real) \<Rightarrow> clock \<Rightarrow> string \<Rightarrow> TokenBucket \<Rightarrow> nat \<Rightarrow> (nat \<times> TokenBucket) option" where
  "drain_bucket rnd clk key limiter i =
     (let (allowed, limiter) = Allow rnd limiter key (clk i 0) (clk i 1)
      in if allowed then drain_bucket rnd clk key limiter (Suc i) else Some (Suc i, limiter))"

declare drain_bucket.simps [code]

definition detailedRateLimitInfo :: "(real \<Rightarrow> real) \<Rightarrow> formats \<Rightarrow> clock \<Rightarrow> string option" where
  "detailedRateLimitInfo rnd fmt clk =
     (let limiter = NewTokenBucket 10 1000000000 15;
          key = ''user:charlie'';
          (out, limiter) = infos rnd fmt clk key limiter [1..<4]
      in map_option (\<lambda>(i, limiter).
           let (result, limiter) = AllowWithInfo rnd limiter key 1 (clk i 0) (clk i 1) (clk i 2)
           in out @ line ''Draining bucket...'' @ line ''After draining:'' @
              line (''  Allowed: '' @ show_bool (Allowed result)) @
              line (''  Remaining: '' @ show_int (Remaining result) @ '' tokens'') @
              line (''  Retry after: '' @ duration_ms fmt (RetryAfter result)) @
              line (''  Reset at: '' @ wall_clock fmt (ResetAt result) @ '' (in '' @ until_ms fmt (ResetAt result) (clk i 3) @ '')''))
         (drain_bucket rnd clk key limiter 4))"

definition exampleAllowN :: "(real \<Rightarrow> real) \<Rightarrow> clock \<Rightarrow> string" where
  "exampleAllowN rnd clk =
     (let limiter = NewTokenBucket 100 60000000000 100;
          key = ''user:david'';
          (allowed1, limiter) = AllowN rnd limiter key 1 (clk 1 0) (clk 1 1);
          (allowed2, limiter) = AllowN rnd limiter key 10 (clk 2 0) (clk 2 1);
          (allowed3, limiter) = AllowN rnd limiter key 50 (clk 3 0) (clk 3 1);
          (result, limiter) = AllowWithInfo rnd limiter key 0 (clk 4 0) (clk 4 1) (clk 4 2);
          (allowed5, limiter) = AllowN rnd limiter key 50 (clk 5 0) (clk 5 1)
      in line (''Single request (1 token): '' @ show_bool allowed1) @
         line (''Batch upload (10 tokens): '' @ show_bool allowed2) @
         line (''Expensive operation (50 tokens): '' @ show_bool allowed3) @
         line (''Remaining tokens: '' @ show_int (Remaining result)) @
         line (''Another expensive operation (50 tokens): '' @ show_bool allowed5))"

definition separator :: string where
  "separator = line (newline # replicate 50 (CHR ''=''))"

text \<open>Each demonstration has its own limiter and its own readings of the clock.\<close>

definition main_program :: "(real \<Rightarrow> real) \<Rightarrow> formats \<Rightarrow> (nat \<Rightarrow> clock) \<Rightarrow> string option" where
  "main_program rnd fmt clk =
     map_option (\<lambda>detailed.
         line ''Example 1: Basic Token Bucket (10 req/sec)'' @ tokenBucketBasic rnd (clk 1) @ separator @
         line (newline # ''Example 2: Token Bucket with Burst (5 req/sec, burst 10)'') @ tokenBucketBurst rnd (clk 2) @ separator @
         line (newline # ''Example 3: AllowWithInfo - Detailed Rate Limit Information'') @ detailed @ separator @
         line (newline # ''Example 4: AllowN - Batch Operations'') @ exampleAllowN rnd (clk 4))
       (detailedRateLimitInfo rnd fmt (clk 3))"

section \<open>Spending tokens in a short time\<close>

text \<open>
  \<open>spent k\<close>: since its first request at \<open>t0\<close> the key has been granted \<open>k\<close> tokens, and what is above the rest of the
  burst is at most what the rate has given until the last refill at \<open>l\<close>. The arithmetic is exact.
\<close>

definition spent :: "string \<Rightarrow> int \<Rightarrow> int \<Rightarrow> int \<Rightarrow> TokenBucket \<Rightarrow> bool" where
  "spent key t0 l k tb \<longleftrightarrow> sane_limiter tb \<and> 0 \<le> k \<and> k \<le> burstSize tb \<and> t0 \<le> l \<and>
     (\<exists>b x. buckets tb key = Some b \<and> tokens b = Fin x \<and> lastRefill b = l \<and> of_int (burstSize tb - k) \<le> x \<and>
        x \<le> of_int (burstSize tb - k) + of_int (rate tb) * of_int (l - t0) / of_int (window tb))"

definition soon :: "TokenBucket \<Rightarrow> int \<Rightarrow> int \<Rightarrow> bool" where
  "soon tb t0 t \<longleftrightarrow> rate tb * (t - t0) < window tb \<and> t - t0 < 2 ^ 63"

lemma soon_less: "soon tb t0 t \<Longrightarrow> sane_limiter tb \<Longrightarrow> real_of_int (rate tb) * of_int (t - t0) / of_int (window tb) < 1"
  unfolding soon_def sane_limiter_def
  by (metis (no_types, opaque_lifting) divide_less_eq_1_pos of_int_0_less_iff of_int_less_iff of_int_mult)

lemma soon_cong: "config tb' = config tb \<Longrightarrow> soon tb' t0 t = soon tb t0 t"
  by (simp add: config_def soon_def)

lemma config_AllowN: "config (snd (AllowN rnd tb key n t1 t2)) = config tb"
  by (simp add: config_def AllowN_def Let_def split: option.split)

lemma sane_cong: "config tb' = config tb \<Longrightarrow> sane_limiter tb' = sane_limiter tb"
  by (simp add: config_def sane_limiter_def)

lemma first_request:
  assumes "sane_limiter tb" and "buckets tb key = None" and "0 \<le> n" and "n \<le> burstSize tb"
  shows "fst (AllowN (\<lambda>x. x) tb key n t1 t2) \<and> spent key t2 t2 n (snd (AllowN (\<lambda>x. x) tb key n t1 t2))"
proof -
  have "wrap64 (burstSize tb - n) = burstSize tb - n" using assms by (intro wrap64_id) (auto simp: sane_limiter_def)
  then show ?thesis using assms by (auto simp: AllowN_def spent_def of_int64_def sane_limiter_def)
qed

lemma spend:
  assumes sp: "spent key t0 l k tb" and n: "0 \<le> n" and t: "l \<le> t1" "t1 \<le> t2" "soon tb t0 t2"
  shows "fst (AllowN (\<lambda>x. x) tb key n t1 t2) = (k + n \<le> burstSize tb)"
    "spent key t0 t2 (if k + n \<le> burstSize tb then k + n else k) (snd (AllowN (\<lambda>x. x) tb key n t1 t2))"
proof -
  obtain b x where b: "buckets tb key = Some b" "tokens b = Fin x" "lastRefill b = l" "of_int (burstSize tb - k) \<le> x"
    "x \<le> of_int (burstSize tb - k) + of_int (rate tb) * of_int (l - t0) / of_int (window tb)"
    and sane: "sane_limiter tb" "0 \<le> k" "k \<le> burstSize tb" "t0 \<le> l" using sp by (auto simp: spent_def)
  let ?R = "\<lambda>d. real_of_int (rate tb) * of_int d / of_int (window tb)"
  have pos: "0 \<le> rate tb" "0 < window tb" using sane(1) by (auto simp: sane_limiter_def)
  have R: "0 \<le> ?R d" if "0 \<le> d" for d using pos that by simp
  have add: "?R (x + y) = ?R x + ?R y" for x y by (simp add: distrib_left add_divide_distrib)
  have since: "time_Since t1 l = t1 - l" using t sane(4) by (simp add: soon_def time_Since_def MaxInt64_def)
  let ?y = "min (x + ?R (t1 - l)) (of_int (burstSize tb))"
  have y: "tokens (refill (\<lambda>x. x) tb b t1 t2) = Fin ?y" "lastRefill (refill (\<lambda>x. x) tb b t1 t2) = t2"
    using refill_tokens [OF sane(1) b(2), of t1 t2] t(1) b(3) by (auto simp: since fmin_def refill_def Let_def)
  have low: "of_int (burstSize tb - k) \<le> ?y" using b(4) R [of "t1 - l"] t(1) sane(2) by simp
  have "x + ?R (t1 - l) \<le> of_int (burstSize tb - k) + ?R (t1 - t0)" using b(5) add [of "l - t0" "t1 - l"] by simp
  also have "\<dots> \<le> of_int (burstSize tb - k) + ?R (t2 - t0)" using add [of "t1 - t0" "t2 - t1"] R [of "t2 - t1"] t(2) by simp
  finally have high: "?y \<le> of_int (burstSize tb - k) + ?R (t2 - t0)" by simp
  have enough: "of_int n \<le> ?y \<longleftrightarrow> k + n \<le> burstSize tb"
  proof
    assume "of_int n \<le> ?y"
    then have "real_of_int n < of_int (burstSize tb - k) + 1" using high soon_less [OF t(3) sane(1)] by linarith
    then show "k + n \<le> burstSize tb" by linarith
  next
    assume "k + n \<le> burstSize tb"
    then have "real_of_int n \<le> of_int (burstSize tb - k)" by simp
    then show "of_int n \<le> ?y" using low by linarith
  qed
  show "fst (AllowN (\<lambda>x. x) tb key n t1 t2) = (k + n \<le> burstSize tb)"
    using b(1) y(1) enough by (simp add: AllowN_def Let_def fle_def of_int64_def del: of_int_diff) linarith
  show "spent key t0 t2 (if k + n \<le> burstSize tb then k + n else k) (snd (AllowN (\<lambda>x. x) tb key n t1 t2))"
    using b(1) y enough low high sane n t
    by (auto simp: AllowN_def Let_def fle_def fsub_def of_int64_def spent_def sane_limiter_def)
qed

section \<open>Sequences of requests\<close>

declare One_nat_def [simp del]

text \<open>The calls \<open>is\<close> one after the other, from time \<open>l\<close> on.\<close>

fun ticking :: "clock \<Rightarrow> int \<Rightarrow> nat list \<Rightarrow> bool" where
  "ticking clk l [] = True"
| "ticking clk l (i # is) = (l \<le> clk i 0 \<and> clk i 0 \<le> clk i 1 \<and> ticking clk (clk i 1) is)"

fun last_reading :: "clock \<Rightarrow> int \<Rightarrow> nat list \<Rightarrow> int" where
  "last_reading clk l [] = l"
| "last_reading clk l (i # is) = last_reading clk (clk i 1) is"

lemma ticking_last: "ticking clk l is \<Longrightarrow> l \<le> last_reading clk l is"
proof (induction "is" arbitrary: l)
  case (Cons i "is")
  then have "l \<le> clk i 1" "clk i 1 \<le> last_reading clk (clk i 1) is" by auto
  then show ?case by simp
qed simp

lemma soon_mono: "soon tb t0 t \<Longrightarrow> t' \<le> t \<Longrightarrow> sane_limiter tb \<Longrightarrow> soon tb t0 t'"
  unfolding soon_def sane_limiter_def by (smt (verit, best) mult_left_mono)

fun expected :: "int \<Rightarrow> int \<Rightarrow> nat list \<Rightarrow> string" where
  "expected B k [] = []"
| "expected B k (i # is) = request_line i (k < B) @ expected B (k + 1) is"

lemma requests_spent:
  "spent key t0 l (min k (burstSize tb)) tb \<Longrightarrow> ticking clk l is \<Longrightarrow> soon tb t0 (last_reading clk l is) \<Longrightarrow>
   fst (requests (\<lambda>x. x) clk key tb is) = expected (burstSize tb) k is \<and>
   spent key t0 (last_reading clk l is) (min (k + int (length is)) (burstSize tb)) (snd (requests (\<lambda>x. x) clk key tb is)) \<and>
   config (snd (requests (\<lambda>x. x) clk key tb is)) = config tb"
proof (induction "is" arbitrary: l k tb)
  case (Cons i "is")
  let ?r = "AllowN (\<lambda>x. x) tb key 1 (clk i 0) (clk i 1)"
  have sane: "sane_limiter tb" using Cons.prems(1) by (simp add: spent_def)
  have t: "l \<le> clk i 0" "clk i 0 \<le> clk i 1" "ticking clk (clk i 1) is" using Cons.prems(2) by simp_all
  have near: "soon tb t0 (clk i 1)"
    using soon_mono [OF Cons.prems(3) _ sane] ticking_last [OF t(3)] by simp
  have cfg: "config (snd ?r) = config tb" by (rule config_AllowN)
  then have B: "burstSize (snd ?r) = burstSize tb" by (simp add: config_def)
  have "fst ?r = (min k (burstSize tb) + 1 \<le> burstSize tb)"
    "spent key t0 (clk i 1) (if min k (burstSize tb) + 1 \<le> burstSize tb then min k (burstSize tb) + 1 else min k (burstSize tb)) (snd ?r)"
    using spend [OF Cons.prems(1) _ t(1,2) near, of 1] by simp_all
  moreover have "(if min k (burstSize tb) + 1 \<le> burstSize tb then min k (burstSize tb) + 1 else min k (burstSize tb)) =
    min (k + 1) (burstSize (snd ?r))" "min k (burstSize tb) + 1 \<le> burstSize tb \<longleftrightarrow> k < burstSize tb" by (auto simp: B)
  ultimately have one: "fst ?r = (k < burstSize tb)" "spent key t0 (clk i 1) (min (k + 1) (burstSize (snd ?r))) (snd ?r)" by simp_all
  have rest: "soon (snd ?r) t0 (last_reading clk (clk i 1) is)" using Cons.prems(3) soon_cong [OF cfg] by simp
  show ?case
    using Cons.IH [OF one(2) t(3) rest] one(1) B cfg by (simp add: Allow_def Let_def split_beta ac_simps)
qed simp

text \<open>At least \<open>m\<close> tokens after a wait, and the requests that they pay for.\<close>

definition plenty :: "string \<Rightarrow> int \<Rightarrow> int \<Rightarrow> TokenBucket \<Rightarrow> bool" where
  "plenty key l m tb \<longleftrightarrow> sane_limiter tb \<and> m \<le> burstSize tb \<and>
     (\<exists>b x. buckets tb key = Some b \<and> tokens b = Fin x \<and> lastRefill b = l \<and> of_int m \<le> x)"

lemma request_after_wait:
  assumes "sane_limiter tb" and b: "buckets tb key = Some b" "tokens b = Fin x" "0 \<le> x" "lastRefill b + d \<le> t1"
    and d: "0 \<le> d" "d < 2 ^ 63" "m * window tb \<le> rate tb * d" and m: "1 \<le> m" "m \<le> burstSize tb"
  shows "fst (AllowN (\<lambda>x. x) tb key 1 t1 t2) \<and> plenty key t2 (m - 1) (snd (AllowN (\<lambda>x. x) tb key 1 t1 t2))"
proof -
  let ?e = "time_Since t1 (lastRefill b)"
  have w: "0 < window tb" "0 \<le> rate tb" using assms(1) by (auto simp: sane_limiter_def)
  have "d \<le> ?e" using d b(4) by (auto simp: time_Since_def MaxInt64_def)
  then have "rate tb * d \<le> rate tb * ?e" using w(2) by (rule mult_left_mono)
  then have "real_of_int (m * window tb) \<le> of_int (rate tb * ?e)" using d(3) by linarith
  then have "of_int m \<le> of_int (rate tb) * of_int ?e / real_of_int (window tb)" using w(1) by (simp add: pos_le_divide_eq)
  then have "of_int m \<le> min (x + of_int (rate tb) * of_int ?e / of_int (window tb)) (of_int (burstSize tb))"
    using b(3) m(2) by simp
  moreover have "tokens (refill (\<lambda>x. x) tb b t1 t2) = Fin (min (x + of_int (rate tb) * of_int ?e / of_int (window tb)) (of_int (burstSize tb)))"
    using refill_tokens [OF assms(1) b(2), of t1 t2] b(4) d(1) by (auto simp: fmin_def)
  moreover have "lastRefill (refill (\<lambda>x. x) tb b t1 t2) = t2" by (simp add: refill_def Let_def)
  ultimately show ?thesis
    using assms(1) b(1) m by (auto simp: AllowN_def Let_def fle_def fsub_def of_int64_def plenty_def sane_limiter_def)
qed

lemma plenty_request:
  assumes "plenty key l m tb" and "1 \<le> m" and "l \<le> t1"
  shows "fst (AllowN (\<lambda>x. x) tb key 1 t1 t2) \<and> plenty key t2 (m - 1) (snd (AllowN (\<lambda>x. x) tb key 1 t1 t2))"
proof -
  obtain b x where b: "buckets tb key = Some b" "tokens b = Fin x" "lastRefill b = l" "of_int m \<le> x"
    and sane: "sane_limiter tb" "m \<le> burstSize tb" using assms(1) by (auto simp: plenty_def)
  let ?y = "min (x + of_int (rate tb) * of_int (time_Since t1 l) / of_int (window tb)) (of_int (burstSize tb))"
  have "0 \<le> of_int (rate tb) * of_int (time_Since t1 l) / real_of_int (window tb)"
    using sane(1) time_Since_nonneg(1) [OF assms(3)] by (simp add: sane_limiter_def)
  then have "of_int m \<le> ?y" using b(4) sane(2) by simp
  moreover have "tokens (refill (\<lambda>x. x) tb b t1 t2) = Fin ?y"
    using refill_tokens [OF sane(1) b(2), of t1 t2] assms(3) b(3) by (auto simp: fmin_def)
  moreover have "lastRefill (refill (\<lambda>x. x) tb b t1 t2) = t2" by (simp add: refill_def Let_def)
  ultimately show ?thesis
    using sane b(1) assms(2) by (auto simp: AllowN_def Let_def fle_def fsub_def of_int64_def plenty_def sane_limiter_def)
qed

lemma requests_plenty:
  "plenty key l m tb \<Longrightarrow> int (length is) \<le> m \<Longrightarrow> ticking clk l is \<Longrightarrow>
   fst (requests (\<lambda>x. x) clk key tb is) = concat (map (\<lambda>i. request_line i True) is)"
proof (induction "is" arbitrary: l m tb)
  case (Cons i "is")
  have one: "fst (AllowN (\<lambda>x. x) tb key 1 (clk i 0) (clk i 1))"
    "plenty key (clk i 1) (m - 1) (snd (AllowN (\<lambda>x. x) tb key 1 (clk i 0) (clk i 1)))"
    using plenty_request [of key l m tb "clk i 0" "clk i 1"] Cons.prems by auto
  then show ?case using Cons.IH [OF one(2)] Cons.prems by (simp add: Allow_def Let_def split_beta)
qed simp

section \<open>What the demonstrations print\<close>

lemma new_requests:
  assumes tb: "tb = NewTokenBucket r w burst" and r: "0 \<le> r" "0 < w" "0 \<le> burst" "burst < 2 ^ 63" "r < 2 ^ 63" and B: "B = (if burst = 0 then r else burst)" "0 < B"
    and t: "ticking clk (clk 1 1) [2..<n]" "soon tb (clk 1 1) (last_reading clk (clk 1 1) [2..<n])" "2 \<le> n"
  shows "fst (requests (\<lambda>x. x) clk key tb [1..<n]) = expected B 0 [1..<n]"
    "spent key (clk 1 1) (last_reading clk (clk 1 1) [2..<n]) (min (int n - 1) B) (snd (requests (\<lambda>x. x) clk key tb [1..<n]))"
    "config (snd (requests (\<lambda>x. x) clk key tb [1..<n])) = config tb"
proof -
  have sane: "sane_limiter tb" "buckets tb key = None" "burstSize tb = B"
    using r B by (auto simp: tb sane_limiter_def NewTokenBucket_def)
  let ?r = "AllowN (\<lambda>x. x) tb key 1 (clk 1 0) (clk 1 1)"
  have cfg: "config (snd ?r) = config tb" by (rule config_AllowN)
  then have b: "burstSize (snd ?r) = B" using sane(3) by (simp add: config_def)
  have one: "fst ?r" "spent key (clk 1 1) (clk 1 1) (min 1 (burstSize (snd ?r))) (snd ?r)"
    using first_request [OF sane(1,2), of 1 "clk 1 0" "clk 1 1"] sane(3) B(2) b by (simp_all add: min_def)
  have two: "soon (snd ?r) (clk 1 1) (last_reading clk (clk 1 1) [2..<n])" using t(2) soon_cong [OF cfg] by simp
  have upt: "[1..<n] = 1 # [2..<n]" using t(3) by (simp add: upt_conv_Cons del: upt_Suc)
  note rest = requests_spent [OF one(2) t(1) two]
  have len: "1 + int (length [2..<n]) = int n - 1" using t(3) by simp
  show "fst (requests (\<lambda>x. x) clk key tb [1..<n]) = expected B 0 [1..<n]"
    using rest one(1) b B(2) by (simp add: upt Allow_def Let_def split_beta del: upt_Suc)
  show "spent key (clk 1 1) (last_reading clk (clk 1 1) [2..<n]) (min (int n - 1) B) (snd (requests (\<lambda>x. x) clk key tb [1..<n]))"
    using rest b unfolding upt len by (simp add: Allow_def Let_def split_beta del: upt_Suc)
  show "config (snd (requests (\<lambda>x. x) clk key tb [1..<n])) = config tb"
    using rest cfg by (simp add: upt Allow_def Let_def split_beta del: upt_Suc)
qed

lemma request_numbers:
  "[1..<13] = [1, 2, 3, 4, 5, 6, 7, 8, 9, 10, 11, 12::nat]" "[13..<17] = [13, 14, 15, 16::nat]"
  "[2..<13] = [2, 3, 4, 5, 6, 7, 8, 9, 10, 11, 12::nat]"
  by (simp_all add: upt_rec)

text \<open>
  The first demonstration prints what its comments say when the clock does not go back, the first twelve requests
  are within a tenth of a second and the sleep is at least half a second long: ten requests are
  allowed, two are limited, and after the sleep all four are allowed.
\<close>

lemma basic_output:
  assumes "ticking clk (clk 1 1) [2..<13]" and "clk 12 1 < clk 1 1 + 100000000"
    and "clk 12 1 + 500000000 \<le> clk 13 0" and "clk 13 0 \<le> clk 13 1" and "ticking clk (clk 13 1) [14, 15, 16]"
  shows "tokenBucketBasic (\<lambda>x. x) clk =
    concat (map (\<lambda>i. request_line i (i \<le> 10)) [1..<13]) @
    line (newline # ''Waiting 500ms (should refill ~5 tokens)...'') @ concat (map (\<lambda>i. request_line i True) [13..<17])"
proof -
  let ?tb = "NewTokenBucket 10 1000000000 0" and ?key = "''user:alice''"
  let ?fin = "snd (requests (\<lambda>x. x) clk ?key ?tb [1..<13])"
  have near: "soon ?tb (clk 1 1) (last_reading clk (clk 1 1) [2..<13])"
    using assms(2) by (simp add: request_numbers soon_def NewTokenBucket_def)
  note first = new_requests [OF refl _ _ _ _ _ _ _ assms(1) near, where B = 10 and key = ?key]
  have out: "fst (requests (\<lambda>x. x) clk ?key ?tb [1..<13]) = concat (map (\<lambda>i. request_line i (i \<le> 10)) [1..<13])"
    using first(1) by (simp add: request_numbers)
  have cfg: "rate ?fin = 10" "window ?fin = 1000000000" "burstSize ?fin = 10"
    using first(3) by (auto simp: config_def NewTokenBucket_def)
  have "spent ?key (clk 1 1) (clk 12 1) 10 ?fin" using first(2) by (simp add: request_numbers)
  then obtain b x where b: "buckets ?fin ?key = Some b" "tokens b = Fin x" "0 \<le> x" "lastRefill b = clk 12 1" "sane_limiter ?fin"
    unfolding spent_def by (auto simp: cfg)
  let ?r = "AllowN (\<lambda>x. x) ?fin ?key 1 (clk 13 0) (clk 13 1)"
  have wait: "fst ?r" "plenty ?key (clk 13 1) 4 (snd ?r)"
    using request_after_wait [OF b(5) b(1-3), of 500000000 "clk 13 0" 5 "clk 13 1"] b(4) assms(3) cfg by simp_all
  have "fst (requests (\<lambda>x. x) clk ?key ?fin [13..<17]) = concat (map (\<lambda>i. request_line i True) [13..<17])"
    using wait requests_plenty [OF wait(2) _ assms(5)] by (simp add: request_numbers Allow_def Let_def split_beta)
  then show ?thesis using out by (simp add: tokenBucketBasic_def Let_def split_beta)
qed

lemma burst_output:
  assumes "ticking clk (clk 1 1) [2..<13]" and "clk 12 1 < clk 1 1 + 200000000"
  shows "tokenBucketBurst (\<lambda>x. x) clk =
    line ''Initial burst of 10 requests:'' @ concat (map (\<lambda>i. request_line i (i \<le> 10)) [1..<13])"
proof -
  let ?tb = "NewTokenBucket 5 1000000000 10"
  have near: "soon ?tb (clk 1 1) (last_reading clk (clk 1 1) [2..<13])"
    using assms(2) by (simp add: request_numbers soon_def NewTokenBucket_def)
  have "fst (requests (\<lambda>x. x) clk ''user:bob'' ?tb [1..<13]) = expected 10 0 [1..<13]"
    by (rule new_requests(1) [OF refl _ _ _ _ _ _ _ assms(1) near]) simp_all
  then show ?thesis by (simp add: tokenBucketBurst_def Let_def split_beta request_numbers)
qed

text \<open>The drain loop ends with the first call that the tokens do not pay for.\<close>

lemma drain_spent:
  "spent key t0 l k tb \<Longrightarrow> nat (burstSize tb - k) = m \<Longrightarrow> ticking clk l [i..<i + Suc m] \<Longrightarrow>
   soon tb t0 (last_reading clk l [i..<i + Suc m]) \<Longrightarrow>
   \<exists>tb'. drain_bucket (\<lambda>x. x) clk key tb i = Some (i + Suc m, tb') \<and> config tb' = config tb \<and>
     spent key t0 (last_reading clk l [i..<i + Suc m]) (burstSize tb) tb'"
proof (induction m arbitrary: l k tb i)
  case (0 l k tb i)
  let ?r = "AllowN (\<lambda>x. x) tb key 1 (clk i 0) (clk i 1)"
  have k: "k = burstSize tb" using 0(1,2) by (simp add: spent_def)
  have t: "l \<le> clk i 0" "clk i 0 \<le> clk i 1" "soon tb t0 (clk i 1)" using 0(3,4) by simp_all
  have "\<not> fst ?r" "spent key t0 (clk i 1) (burstSize tb) (snd ?r)" using spend [OF 0(1) _ t, of 1] k by simp_all
  then show ?case
    by (subst drain_bucket.simps) (simp add: Allow_def Let_def split_beta config_AllowN)
next
  case (Suc m l k tb i)
  let ?r = "AllowN (\<lambda>x. x) tb key 1 (clk i 0) (clk i 1)"
  have sane: "sane_limiter tb" and k: "k + 1 \<le> burstSize tb" using Suc.prems(1,2) by (auto simp: spent_def)
  have upt: "[i..<i + Suc (Suc m)] = i # [Suc i..<Suc i + Suc m]" by (simp add: upt_conv_Cons del: upt_Suc)
  have t: "l \<le> clk i 0" "clk i 0 \<le> clk i 1" "ticking clk (clk i 1) [Suc i..<Suc i + Suc m]"
    using Suc.prems(3) unfolding upt by simp_all
  have far: "soon tb t0 (last_reading clk (clk i 1) [Suc i..<Suc i + Suc m])" using Suc.prems(4) unfolding upt by simp
  then have near: "soon tb t0 (clk i 1)" by (rule soon_mono) (rule ticking_last [OF t(3)], rule sane)
  have one: "fst ?r" "spent key t0 (clk i 1) (k + 1) (snd ?r)" using spend [OF Suc.prems(1) _ t(1,2) near, of 1] k by simp_all
  have cfg: "config (snd ?r) = config tb" by (rule config_AllowN)
  then have B: "burstSize (snd ?r) = burstSize tb" by (simp add: config_def)
  have "nat (burstSize (snd ?r) - (k + 1)) = m" using Suc.prems(2) B by simp
  from Suc.IH [OF one(2) this t(3)] far soon_cong [OF cfg] obtain tb' where
    "drain_bucket (\<lambda>x. x) clk key (snd ?r) (Suc i) = Some (Suc i + Suc m, tb')" "config tb' = config tb"
    "spent key t0 (last_reading clk (clk i 1) [Suc i..<Suc i + Suc m]) (burstSize tb) tb'"
    using B cfg by auto
  then show ?case
    unfolding upt by (subst drain_bucket.simps) (simp add: Allow_def Let_def split_beta one(1) del: upt_Suc)
qed

text \<open>The answer of \<open>AllowWithInfo\<close> in a short time.\<close>

lemma info_spent:
  assumes sp: "spent key t0 l k tb" and n: "0 \<le> n" and t: "l \<le> t1" "t1 \<le> t2" "soon tb t0 t2"
  shows "Allowed (fst (AllowWithInfo (\<lambda>x. x) tb key n t1 t2 t3)) = (k + n \<le> burstSize tb)"
    "Remaining (fst (AllowWithInfo (\<lambda>x. x) tb key n t1 t2 t3)) = burstSize tb - (if k + n \<le> burstSize tb then k + n else k)"
    "spent key t0 t2 (if k + n \<le> burstSize tb then k + n else k) (snd (AllowWithInfo (\<lambda>x. x) tb key n t1 t2 t3))"
proof -
  let ?k = "if k + n \<le> burstSize tb then k + n else k" and ?tb = "snd (AllowN (\<lambda>x. x) tb key n t1 t2)"
  show "Allowed (fst (AllowWithInfo (\<lambda>x. x) tb key n t1 t2 t3)) = (k + n \<le> burstSize tb)"
    and after: "spent key t0 t2 ?k (snd (AllowWithInfo (\<lambda>x. x) tb key n t1 t2 t3))"
    using spend [OF sp n t] by (simp_all only: info_agrees)
  have cfg: "config ?tb = config tb" by (rule config_AllowN)
  have sane: "sane_limiter ?tb" "burstSize ?tb < 2 ^ 63" using after by (auto simp: info_agrees spent_def sane_limiter_def)
  obtain b x where b: "buckets ?tb key = Some b" "tokens b = Fin x" "of_int (burstSize tb - ?k) \<le> x"
    "x \<le> of_int (burstSize tb - ?k) + of_int (rate ?tb) * of_int (t2 - t0) / of_int (window ?tb)"
    "0 \<le> ?k" "?k \<le> burstSize tb"
    using after cfg unfolding info_agrees by (auto simp: spent_def config_def simp del: of_int_diff)
  have "x < of_int (burstSize tb - ?k) + 1" using b(4) soon_less [OF _ sane(1), of t0 t2, unfolded soon_cong [OF cfg], OF t(3)] by linarith
  then have "\<lfloor>x\<rfloor> = burstSize tb - ?k" using b(3) by linarith
  moreover have "0 \<le> x" using b(3,6) by linarith
  moreover have "burstSize tb < 2 ^ 63" using sane(2) cfg by (simp add: config_def)
  ultimately have "to_int64 (tokens b) = burstSize tb - ?k" using b(2,5,6) by (simp del: of_int_diff)
  moreover have "Remaining (fst (AllowWithInfo (\<lambda>x. x) tb key n t1 t2 t3)) = to_int64 (tokens b)"
    using b(1) sp by (auto simp: AllowWithInfo_def AllowN_def spent_def buildResult_def Let_def split: if_splits)
  ultimately show "Remaining (fst (AllowWithInfo (\<lambda>x. x) tb key n t1 t2 t3)) = burstSize tb - ?k" by simp
qed

text \<open>
  The third demonstration ends when the clock does not go back and everything up to the end of the draining is
  within a tenth of a second: the drain loop makes thirteen calls, and then the bucket is empty and the
  request is denied.
\<close>

lemma detailed_output:
  assumes "ticking clk (clk 1 1) [2..<18]" and "clk 17 1 < clk 1 1 + 100000000"
  shows "\<exists>pre retry reset. detailedRateLimitInfo (\<lambda>x. x) fmt clk = Some (pre @ line ''Draining bucket...'' @ line ''After draining:'' @
    line ''  Allowed: false'' @ line ''  Remaining: 0 tokens'' @ line (''  Retry after: '' @ duration_ms fmt retry) @
    line (''  Reset at: '' @ wall_clock fmt reset @ '' (in '' @ until_ms fmt reset (clk 17 3) @ '')''))"
proof -
  let ?key = "''user:charlie''" and ?t0 = "clk 1 1"
  let ?step = "\<lambda>tb i. AllowWithInfo (\<lambda>x. x) tb ?key 1 (clk i 0) (clk i 1) (clk i 2)"
  let ?tb0 = "NewTokenBucket 10 1000000000 15"
  let ?tb1 = "snd (?step ?tb0 1)" let ?tb2 = "snd (?step ?tb1 2)" let ?tb3 = "snd (?step ?tb2 3)"
  have cfg: "config ?tb1 = config ?tb0" "config ?tb2 = config ?tb0" "config ?tb3 = config ?tb0"
    by (simp_all add: info_agrees config_AllowN)
  have B: "burstSize ?tb1 = 15" "burstSize ?tb2 = 15" "burstSize ?tb3 = 15"
    using cfg by (simp_all add: config_def) (simp_all add: NewTokenBucket_def)
  have near: "soon tb ?t0 t" if "config tb = config ?tb0" "t \<le> clk 17 1" for tb t
    using that assms(2) by (simp add: soon_def config_def NewTokenBucket_def)
  have upt: "[2..<18] = 2 # 3 # [4..<17] @ [17]" by (simp add: upt_rec)
  have app: "ticking clk l (is @ js) \<longleftrightarrow> ticking clk l is \<and> ticking clk (last_reading clk l is) js" for l "is" js
    by (induction "is" arbitrary: l) auto
  have t: "?t0 \<le> clk 2 0" "clk 2 0 \<le> clk 2 1" "clk 2 1 \<le> clk 3 0" "clk 3 0 \<le> clk 3 1" "ticking clk (clk 3 1) [4..<17]"
    "last_reading clk (clk 3 1) [4..<17] \<le> clk 17 0" "clk 17 0 \<le> clk 17 1"
    using assms(1) unfolding upt by (simp_all add: app del: upt_Suc)
  have le: "clk 3 1 \<le> clk 17 1" "clk 2 1 \<le> clk 17 1" using ticking_last [OF t(5)] t by linarith+
  have "spent ?key ?t0 ?t0 1 ?tb1"
    using first_request [of ?tb0 ?key 1 "clk 1 0" ?t0] by (simp add: info_agrees sane_limiter_def NewTokenBucket_def)
  then have s2: "spent ?key ?t0 (clk 2 1) 2 ?tb2"
    using info_spent(3) [of ?key ?t0 ?t0 1 ?tb1 1] t B(1) near [OF cfg(1) le(2)] by fastforce
  then have s3: "spent ?key ?t0 (clk 3 1) 3 ?tb3"
    using info_spent(3) [of ?key ?t0 "clk 2 1" 2 ?tb2 1] t B(2) near [OF cfg(2) le(1)] by fastforce
  have far: "soon ?tb3 ?t0 (last_reading clk (clk 3 1) [4..<17])" by (rule near [OF cfg(3)]) (use t in linarith)
  obtain tb' where drained: "drain_bucket (\<lambda>x. x) clk ?key ?tb3 4 = Some (17, tb')" "config tb' = config ?tb0"
    "spent ?key ?t0 (last_reading clk (clk 3 1) [4..<17]) 15 tb'"
    using drain_spent [OF s3, of 12 clk 4] t(5) far cfg(3) B(3) by auto
  have "burstSize tb' = 15" using drained(2) by (simp add: config_def NewTokenBucket_def)
  then have last: "\<not> Allowed (fst (?step tb' 17))" "Remaining (fst (?step tb' 17)) = 0"
    using info_spent(1,2) [OF drained(3) _ t(6,7) near [OF drained(2) order_refl], of 1 "clk 17 2"] by simp_all
  have i: "[1..<4] = [1, 2, 3::nat]" by (simp add: upt_rec)
  have zero: "show_int 0 = ''0''" by code_simp
  show ?thesis
    by (rule exI [of _ "fst (infos (\<lambda>x. x) fmt clk ?key ?tb0 [1..<4])"], rule exI [of _ "RetryAfter (fst (?step tb' 17))"],
        rule exI [of _ "ResetAt (fst (?step tb' 17))"])
      (simp add: detailedRateLimitInfo_def Let_def split_beta i drained(1) last zero show_bool_def)
qed

text \<open>
  The fourth demonstration prints what its comments say within six tenths of a second, in which less than one token
  comes back: the three requests are allowed, 39 tokens are left, and the last request is denied.
\<close>

lemma AllowN_output:
  assumes "ticking clk (clk 1 1) [2, 3, 4, 5]" and "clk 5 1 < clk 1 1 + 600000000"
  shows "exampleAllowN (\<lambda>x. x) clk =
    line ''Single request (1 token): true'' @ line ''Batch upload (10 tokens): true'' @
    line ''Expensive operation (50 tokens): true'' @ line ''Remaining tokens: 39'' @
    line ''Another expensive operation (50 tokens): false''"
proof -
  let ?key = "''user:david''" and ?t0 = "clk 1 1" and ?tb0 = "NewTokenBucket 100 60000000000 100"
  let ?call = "\<lambda>tb n i. AllowN (\<lambda>x. x) tb ?key n (clk i 0) (clk i 1)"
  let ?tb1 = "snd (?call ?tb0 1 1)" let ?tb2 = "snd (?call ?tb1 10 2)" let ?tb3 = "snd (?call ?tb2 50 3)"
  let ?info = "AllowWithInfo (\<lambda>x. x) ?tb3 ?key 0 (clk 4 0) (clk 4 1) (clk 4 2)"
  have cfg: "config ?tb1 = config ?tb0" "config ?tb2 = config ?tb0" "config ?tb3 = config ?tb0" "config (snd ?info) = config ?tb0"
    by (simp_all add: info_agrees config_AllowN)
  have B: "burstSize tb = 100" if "config tb = config ?tb0" for tb using that by (simp add: config_def NewTokenBucket_def)
  have near: "soon tb ?t0 t" if "config tb = config ?tb0" "t \<le> clk 5 1" for tb t
    using that assms(2) by (simp add: soon_def config_def NewTokenBucket_def)
  have t: "?t0 \<le> clk 2 0" "clk 2 0 \<le> clk 2 1" "clk 2 1 \<le> clk 3 0" "clk 3 0 \<le> clk 3 1" "clk 3 1 \<le> clk 4 0"
    "clk 4 0 \<le> clk 4 1" "clk 4 1 \<le> clk 5 0" "clk 5 0 \<le> clk 5 1" using assms(1) by simp_all
  have one: "fst (?call ?tb0 1 1)" "spent ?key ?t0 ?t0 1 ?tb1"
    using first_request [of ?tb0 ?key 1 "clk 1 0" ?t0] by (simp_all add: sane_limiter_def NewTokenBucket_def)
  have two: "fst (?call ?tb1 10 2)" "spent ?key ?t0 (clk 2 1) 11 ?tb2"
    using spend [OF one(2) _ t(1,2) near [OF cfg(1)], of 10] t by (simp_all add: B [OF cfg(1)])
  have three: "fst (?call ?tb2 50 3)" "spent ?key ?t0 (clk 3 1) 61 ?tb3"
    using spend [OF two(2) _ t(3,4) near [OF cfg(2)], of 50] t by (simp_all add: B [OF cfg(2)])
  have four: "Remaining (fst ?info) = 39" "spent ?key ?t0 (clk 4 1) 61 (snd ?info)"
    using info_spent(2,3) [OF three(2) _ t(5,6) near [OF cfg(3)], of 0 "clk 4 2"] t by (simp_all add: B [OF cfg(3)])
  have five: "\<not> fst (?call (snd ?info) 50 5)"
    using spend(1) [OF four(2) _ t(7,8) near [OF cfg(4)], of 50] by (simp add: B [OF cfg(4)])
  have num: "show_int 39 = ''39''" by code_simp
  show ?thesis using one(1) two(1) three(1) four(1) five by (simp add: exampleAllowN_def Let_def split_beta show_bool_def num)
qed

end
