(* ===== verification/Spec2Isabelle.thy ===== *)
theory Spec2Isabelle
  imports BinaryHeap LinkedList SearchTree WordTrie LruCache SparseMerkle RlpInput RlpReader LevelingArm
    TaskScheduling RouteSearch MetricsHistory RoutingTrie HealthReport FileBlocks Thermometer LimiterExamples
begin

text \<open>
  A verification library for a repository of data structures and algorithms in Go. The files of the
  repository are independent programs, each with a state and operations on it; what they share is the
  language, Go's \<open>container/heap\<close> (used by the scheduler and by the router) and SHA-256. The library has a
  theory for each of them, over a few common ones. All paths below are under \<open>src\<close>.

  \<^bold>\<open>The common theories.\<close>
  \<^item> GoPrelude: a statement that panics is the left summand of \<open>'a go\<close>; \<open>go_bind\<close> goes on after a normal
    return; \<open>go_index\<close>, \<open>go_store\<close>, \<open>go_slice\<close>, \<open>go_make\<close>, \<open>go_div\<close> are Go's reads, writes, slices, allocations and
    quotients with their checks. \<open>run_ops\<close> runs a list of calls and collects the answers; the locale
    \<open>refines\<close> says that one step function answers as another one does under a relation between their states,
    and its lemmas carry this to any list of calls. Each component with an abstract specification
    interprets it on the code's model.
  \<^item> MachineInts: \<open>int64\<close> as an integer with \<open>wrap64\<close> after each operation that can leave the range, the clock
    differences of \<open>time.Since\<close>. GoFormat: decimal numbers and lines as they are printed. Floats: \<open>float64\<close> as a real number, an infinity or NaN, with the rounding as an
    argument. Sha256: \<open>sha256.Sum256\<close> by its standard. PointerLists: chains and segments of a \<open>next\<close> field in
    a store of addresses, and walks on it that may be cyclic.
  \<^item> HeapCore: the two sifts of an array heap over any comparator that is a strict weak order (the locale
    \<open>strict_weak\<close>), the heap condition and the locale \<open>priority_queue\<close>, the contract of a queue over its
    multiset. ContainerHeap: \<open>container/heap\<close> of Go's library on any state with \<open>Len\<close>, \<open>Less\<close>, \<open>Swap\<close>, \<open>Push\<close>,
    \<open>Pop\<close>, with the locales \<open>heap_order\<close> and \<open>heap_interface\<close> for what the documentation asks of these; that
    they make a priority queue is a sublocale.

  \<^bold>\<open>The data structures.\<close>
  \<^item> BinaryHeap models \<open>data-structures/heap.go\<close>: \<open>items\<close> is the slice, the sift and \<open>Heapify\<close> loops of \<open>MinHeap\<close> and
    \<open>MaxHeap\<close> are separate definitions as they are in the code, and are proved equal to the sift of HeapCore.
    Both heaps refine a multiset for any sequence of calls, and sort.
  \<^item> LinkedList models \<open>data-structures/linkedlist.go\<close> over a store of nodes; its loops are partial functions, and
    every theorem says that they return. The recursion and the loop of \<open>ReverseList\<close> are two definitions.
  \<^item> SearchTree models \<open>data-structures/bst.go\<close>: a tree is a datatype, the coin of the deletion an arbitrary
    stream. It refines a set of integers; the two validity checks and the two traversals agree.
  \<^item> WordTrie models \<open>data-structures/trie.go\<close>: \<open>children\<close> is an association list, the order of a range over a map
    an argument of the calls, a string the list of its runes with its length in bytes. It refines a set of
    words, and the two deletions agree, as long as the deleted words are ASCII (otherwise one panics).
  \<^item> LruCache models \<open>data-structures/lru-cache.go\<close>: nodes with both pointers in a store, and the map. It refines
    the list of entries in order of recency, bounded by the capacity.
  \<^item> MerkleTrees and SparseMerkle model \<open>data-structures/merkle.go\<close>: the nodes of the binary tree in a store with
    parent pointers, the sparse tree with its one map for values and node hashes. Proofs verify, they bind
    the leaf up to a collision that is computed, the root is a function of the hashes by levels; the
    sparse tree refines a finite map, but its root forgets keys.

  \<^bold>\<open>The algorithms and exercises.\<close>
  \<^item> RlpCodec and RlpReader model the RLP half of \<open>algorithms/serialization.go\<close>: encoder, decoder with the spare
    capacity of its slice, streaming reader over limited readers. RLP itself is an inductive grammar: encodings are in
    it, the decoder reads all of it, so decoding inverts encoding; the reader takes a list apart. RlpInput
    has the decoder on other input: strings are sound for the grammar, truncated ones panic or read on behind the
    slice. The decoder has fuel: twice the length of an item is enough, and there is an input for which none is.
  \<^item> LevelingArm models \<open>practice/robotic_leveling.go\<close>; the rules of the game are a step function written from
    the comment of the file. A potential that falls with each command shows that 200 turns are enough.
  \<^item> TaskScheduling models \<open>practice/task_scheduler.go\<close>: every locked section is one step, \<open>Run\<close> is a labelled step
    relation with a place between any unlock and the next statement. It refines a bag of tasks, is never
    early without other takers (for tasks at most \<open>maxDuration\<close> ahead), and can lose a wake-up.
  \<^item> PaymentRouter models \<open>practice/payment_router.go\<close>: the graph, the heap of pointers with indexes, the search
    with \<open>heap.Fix\<close>, the reconstruction. RouteSearch has what it promises: it returns (the loop is a partial
    function), finds a valid route, and the cheapest one when no channel minimum exceeds the payment. The
    bounds are amounts up to \<open>10^12\<close>, fees of at most a million parts per million and capacities of at most
    \<open>21 * 10^14\<close>, under which no \<open>int64\<close> wraps.
  \<^item> MetricsRing models both buffers of \<open>practice/metrics_buffer.go\<close>, MetricsHistory states that they are the end of
    the list of all samples. Both pushes are interpretations of one locale, \<open>ring_push\<close>.
  \<^item> RoutingTrie models \<open>practice/routing_table.go\<close> for any parsers of \<open>net\<close> whose masks have at most 128 bits:
    \<open>FindRoute\<close> is the longest matching prefix.
  \<^item> HealthPool and HealthReport model \<open>practice/parallel_url_health.go\<close>: the worker pool as a step relation of
    channel operations and requests, the command as a step relation around it, the file and the report. It
    checks all URLs, it ends after a bounded number of steps whatever interrupts come, and an interrupt can be
    swallowed; the text that the command writes is that of one request for each line of the file.
  \<^item> FileBlocks models \<open>practice/file_block_service.go\<close>, Thermometer \<open>practice/temperature.go\<close>.
  \<^item> TokenLimiter and TokenRetry model \<open>rate-limiting/token-bucket\<close>: every method is one step, its readings of the
    clock are arguments. Tokens stay in bounds for every rounding that is monotone, idempotent and exact
    where the definition \<open>rounding\<close> says; the rate and \<open>RetryAfter\<close> are stated with exact arithmetic.
    LimiterExamples models \<open>examples/main.go\<close> on top of them: under stated conditions on the clock the
    demonstrations end and print what their comments say.

  \<^bold>\<open>What a witness shows.\<close> A theorem with hypotheses is followed by one that applies it to a concrete input; the
  arguments that stand for other code (parsers, rounding, the coin, the order of a range) are concrete there.

  \<^bold>\<open>Not modelled.\<close> \<open>data-structures/patricia.go\<close>, \<open>bloom.go\<close> and \<open>dag.go\<close> panic with "not implemented" in every
  function; \<open>algorithms/consensus.go\<close>, \<open>gossip.go\<close>, \<open>graph.go\<close> and the SSZ, protobuf and benchmarking half of
  \<open>serialization.go\<close> have types and comments, and functions that return a zero value or an error and change
  nothing: there is no behaviour to verify. \<open>cmd/health/main.go\<close> calls \<open>Execute\<close>. Of the modelled files,
  flags, signal set-up and the messages of recovered panics are left out. Strings that are not valid UTF-8
  are left out of the trie. Slices are values unless a theory says otherwise:
  where the code appends to a slice that something else still holds, the sharing of the backing array is
  not modelled. Concurrency is that of the locked sections and channel operations; data races do not
  occur in the model. Memory is unlimited: an allocation fails only beyond the address space. The \<open>n + 1\<close> of
  \<open>RemoveNthFromEnd\<close> is not wrapped, \<open>float64\<close> has no negative zero, and \<open>isLeveled\<close>, \<open>findSource\<close> and
  \<open>findTarget\<close> are for slices of the same length, as their callers have. Sums of \<open>float64\<close> do not overflow to infinity.
\<close>

end
